(* ===== verification/Lars_Base.thy ===== *)
theory Lars_Base
  imports Main "HOL-Library.Word" "HOL-Library.AList"
begin

text \<open>
  Prelude of the development: the fixed-width types of the C++ code, the outcomes that end a run
  other than by a normal return (undefined behaviour, a failed \<open>assert\<close>, \<open>exit\<close>), sequencing of
  fallible operations, the packing of two 32-bit numbers in one 64-bit key that every module of the
  repository uses, and the lemmas on lists, association lists and intervals the components share.
\<close>

section \<open>Machine types and outcomes\<close>

type_synonym u8 = "8 word"    \<comment> \<open>\<open>char\<close> as a byte\<close>
type_synonym i32 = "32 word"  \<comment> \<open>\<open>int\<close> where its bits are packed or compared; read with \<open>sint\<close>\<close>
type_synonym u32 = "32 word"  \<comment> \<open>\<open>uint32_t\<close>, \<open>unsigned\<close>\<close>
type_synonym u64 = "64 word"  \<comment> \<open>\<open>uint64_t\<close>\<close>
type_synonym addr = nat       \<comment> \<open>address of a heap object\<close>

text \<open>
  The ways a call can end without returning: each is what C++ leaves undefined, or a stop the code
  asks for. \<open>Exit 1\<close> is the code's \<open>exit(1)\<close>.
\<close>

datatype fault =
    AssertFail
  | NullDeref
  | UseAfterFree
  | UninitRead
  | OutOfBounds
  | SignedOverflow
  | EndIterator      \<comment> \<open>dereference of \<open>end()\<close>\<close>
  | EmptyFront       \<comment> \<open>\<open>front()\<close> of an empty \<open>std::list\<close>\<close>
  | Exit int
  | Uncaught         \<comment> \<open>a C++ exception that nobody catches\<close>
  | Blocked          \<comment> \<open>the call is still waiting for the environment\<close>

type_synonym 'a res = "fault + 'a"

named_theorems res_simps \<open>equations that run a sequence of fallible operations\<close>
named_theorems inv_intros \<open>preservation of the components' invariants\<close>

definition rbind :: "'a res \<Rightarrow> ('a \<Rightarrow> 'b res) \<Rightarrow> 'b res" where
  "rbind m f = (case m of Inl e \<Rightarrow> Inl e | Inr x \<Rightarrow> f x)"

lemma rbind_Inl [simp, res_simps]: "rbind (Inl e) f = Inl e"
  by (simp add: rbind_def)

lemma rbind_Inr [simp, res_simps]: "rbind (Inr x) f = f x"
  by (simp add: rbind_def)

lemma rbind_eq_Inr: "rbind m f = Inr y \<longleftrightarrow> (\<exists>x. m = Inr x \<and> f x = Inr y)"
  by (cases m) auto

lemma rbind_eq_Inl: "rbind m f = Inl e \<longleftrightarrow> m = Inl e \<or> (\<exists>x. m = Inr x \<and> f x = Inl e)"
  by (cases m) auto

lemma rbind_assoc: "rbind (rbind m f) g = rbind m (\<lambda>x. rbind (f x) g)"
  by (cases m) auto

lemma rbind_cong [fundef_cong]:
  "m = m' \<Longrightarrow> (\<And>x. m' = Inr x \<Longrightarrow> f x = f' x) \<Longrightarrow> rbind m f = rbind m' f'"
  by (cases m') auto

text \<open>Signed \<open>int\<close> arithmetic: out of range is undefined behaviour.\<close>

definition int_max :: int where "int_max = 2147483647"

definition in_int :: "int \<Rightarrow> bool" where
  "in_int x \<longleftrightarrow> - 2147483648 \<le> x \<and> x \<le> 2147483647"

definition cint_add :: "int \<Rightarrow> int \<Rightarrow> int res" where
  "cint_add a b = (if in_int (a + b) then Inr (a + b) else Inl SignedOverflow)"

lemma cint_add_Inr [simp]: "cint_add a b = Inr c \<longleftrightarrow> in_int (a + b) \<and> c = a + b"
  by (auto simp: cint_add_def)

text \<open>C's \<open>%\<close> truncates towards zero: the result has the sign of the dividend.\<close>

definition c_rem :: "int \<Rightarrow> int \<Rightarrow> int" where
  "c_rem a b = sgn a * (\<bar>a\<bar> mod \<bar>b\<bar>)"

lemma c_rem_nonneg: "0 \<le> a \<Longrightarrow> 0 < b \<Longrightarrow> c_rem a b = a mod b"
  by (cases "a = 0") (auto simp: c_rem_def)

lemma c_rem_neg: "a < 0 \<Longrightarrow> 0 < b \<Longrightarrow> c_rem a b = - ((- a) mod b)"
  by (simp add: c_rem_def)

section \<open>Two 32-bit numbers in one 64-bit key\<close>

text \<open>
  \<open>((uint64_t)hi << 32) + lo\<close> with both operands of type \<open>int\<close>: the conversions to \<open>uint64_t\<close>
  extend the sign, the shift drops the high half of the first operand.
\<close>

definition mk_key :: "i32 \<Rightarrow> i32 \<Rightarrow> u64" where
  "mk_key hi lo = push_bit 32 (scast hi) + scast lo"

text \<open>The same with an unsigned first operand (\<open>uint32_t ip\<close>), as written in \<open>load_balance::update\<close>.\<close>

definition mk_key_u :: "u32 \<Rightarrow> i32 \<Rightarrow> u64" where
  "mk_key_u hi lo = push_bit 32 (ucast hi) + scast lo"

text \<open>\<open>int(key >> 32)\<close> and \<open>int(key)\<close>.\<close>

definition key_hi :: "u64 \<Rightarrow> i32" where "key_hi k = ucast (drop_bit 32 k)"
definition key_lo :: "u64 \<Rightarrow> i32" where "key_lo k = ucast k"

text \<open>
  \<open>mk_key\<close> is injective, and \<open>key_lo\<close> inverts it; \<open>key_hi\<close> inverts it only for a non-negative
  second component, because a negative one borrows from the high half.
\<close>

lemma of_int_mod_64: "(word_of_int (a mod 2 ^ 64) :: i32) = word_of_int a"
proof -
  have "(word_of_int (take_bit 64 a) :: i32) = word_of_int a"
    by (simp add: word_of_int_eq_iff take_bit_take_bit)
  then show ?thesis by (simp add: take_bit_eq_mod)
qed

lemma of_int_mod_32: "(word_of_int (a mod 2 ^ 32) :: i32) = word_of_int a"
proof -
  have "(word_of_int (take_bit 32 a) :: i32) = word_of_int a"
    by (simp add: word_of_int_eq_iff)
  then show ?thesis by (simp add: take_bit_eq_mod)
qed

lemma sint_i32: "sint (w :: i32) = uint w - 2 ^ 32 * of_bool (bit w 31)"
proof -
  have "sint w = signed_take_bit 31 (uint w)" by (simp add: sint_uint)
  also have "\<dots> = take_bit 32 (uint w) - 2 ^ 32 * of_bool (bit (uint w) 31)"
    by (simp add: signed_take_bit_eq_take_bit_minus)
  also have "take_bit 32 (uint w) = uint w"
    using take_bit_int_eq_self [of "uint w" 32] uint_lt2p [of w] by simp
  finally show ?thesis by (simp add: bit_uint_iff)
qed

lemma sint_div_32: "sint (w :: i32) div 2 ^ 32 = (if sint w < 0 then - 1 else 0)"
proof -
  have b: "uint w < 2 ^ 32" using uint_lt2p [of w] by simp
  show ?thesis
  proof (cases "bit w 31")
    case True
    then have w: "sint w = uint w - 4294967296" by (simp add: sint_i32)
    with b have "sint w < 0" by simp
    moreover have "sint w div 4294967296 = - 1" using w b
      by (intro int_div_pos_eq [where r = "uint w"]) simp_all
    ultimately show ?thesis by simp
  next
    case False
    with b show ?thesis by (simp add: sint_i32)
  qed
qed

lemma mk_key_u_int: "mk_key_u hi lo = word_of_int (uint hi * 2 ^ 32 + sint lo)"
  by (simp only: mk_key_u_def push_bit_eq_mult ucast_eq scast_eq of_int_add of_int_mult of_int_power of_int_numeral)

lemma mk_key_int: "mk_key hi lo = word_of_int (uint hi * 2 ^ 32 + sint lo)"
proof -
  have "mk_key hi lo = word_of_int (sint hi * 2 ^ 32 + sint lo)"
    by (simp only: mk_key_def push_bit_eq_mult scast_eq of_int_add of_int_mult of_int_power of_int_numeral)
  also have "sint hi * 2 ^ 32 + sint lo
      = uint hi * 2 ^ 32 + sint lo + 2 ^ 64 * (- of_bool (bit hi 31))"
    by (simp add: sint_i32 [of hi] algebra_simps)
  also have "(word_of_int (uint hi * 2 ^ 32 + sint lo + 2 ^ 64 * (- of_bool (bit hi 31))) :: u64)
      = word_of_int (uint hi * 2 ^ 32 + sint lo) + word_of_int (2 ^ 64) * word_of_int (- of_bool (bit hi 31))"
    by (simp only: of_int_add of_int_mult)
  also have "(word_of_int (2 ^ 64) :: u64) = 0" by simp
  finally show ?thesis by (simp only: mult_zero_left add_0_right)
qed

lemma mk_key_u_eq: "mk_key_u hi lo = mk_key hi lo"
  by (simp only: mk_key_u_int mk_key_int)

lemma key_lo_word_of_int: "key_lo (word_of_int a) = word_of_int a"
proof -
  have "key_lo (word_of_int a) = word_of_int (a mod 2 ^ 64)"
    by (simp only: key_lo_def ucast_eq uint_word_of_int) simp
  then show ?thesis by (simp only: of_int_mod_64)
qed

lemma key_hi_word_of_int: "key_hi (word_of_int a) = word_of_int (a div 2 ^ 32)"
proof -
  have "uint (drop_bit 32 (word_of_int a :: u64)) = uint (word_of_int a :: u64) div 2 ^ 32"
    by (simp only: drop_bit_eq_div uint_div) simp
  then have "key_hi (word_of_int a) = word_of_int (a mod 2 ^ 64 div 2 ^ 32)"
    unfolding key_hi_def ucast_eq uint_word_of_int by (simp only: len_num1 len_bit0) simp
  also have "a mod 2 ^ 64 div 2 ^ 32 = a div 2 ^ 32 mod (2 ^ 32 :: int)"
    using zmod_zmult2_eq [of "2 ^ 32" a "2 ^ 32"] by simp
  finally show ?thesis by (simp only: of_int_mod_32)
qed

lemma key_lo_mk_key [simp]: "key_lo (mk_key hi lo) = lo"
proof -
  have "(word_of_int (2 ^ 32) :: i32) = 0" by simp
  then have "(word_of_int (uint hi * 2 ^ 32 + sint lo) :: i32) = word_of_int (sint lo)"
    by (simp only: of_int_add of_int_mult mult_zero_right add_0_left)
  then show ?thesis by (simp only: mk_key_int key_lo_word_of_int) simp
qed

lemma key_hi_mk_key: "key_hi (mk_key hi lo) = (if sint lo < 0 then hi - 1 else hi)"
proof -
  have "(uint hi * 2 ^ 32 + sint lo) div 2 ^ 32 = uint hi + sint lo div (2 ^ 32)"
    by (rule div_mult_self3) simp
  then have "key_hi (mk_key hi lo) = word_of_int (uint hi + (if sint lo < 0 then - 1 else 0))"
    by (simp only: mk_key_int key_hi_word_of_int sint_div_32)
  then show ?thesis by simp
qed

lemma mk_key_inj [simp]: "mk_key a b = mk_key c d \<longleftrightarrow> a = c \<and> b = d"
proof
  assume eq: "mk_key a b = mk_key c d"
  then have b: "b = d" by (metis key_lo_mk_key)
  have "key_hi (mk_key a b) = key_hi (mk_key c d)" by (simp only: eq)
  with b show "a = c \<and> b = d" by (simp add: key_hi_mk_key split: if_splits)
qed simp

lemma mk_key_decode: "0 \<le> sint lo \<Longrightarrow> mk_key (key_hi (mk_key hi lo)) (key_lo (mk_key hi lo)) = mk_key hi lo"
  by (simp add: key_hi_mk_key)

end
