(* ===== verification/Dns_Route.thy ===== *)
theory Dns_Route
  imports Lars_Base
begin

text \<open>
  \<open>Route\<close> (\<open>lars_dns/include/dns_route.h\<close>, \<open>src/dns_route.cpp\<close>): the routing table of the DNS service, which
  host addresses serve a (modid, cmdid). It is double buffered: the table is loaded from the database
  into \<open>_temp_pointer\<close> and then swapped with \<open>_data_pointer\<close>, from which requests are answered. The
  database is the three tables the queries read; a query that fails ends the process.
  A \<open>hash_set\<close> is the list of its elements in iteration order, without duplicates.
\<close>

definition set_insert :: "'a \<Rightarrow> 'a list \<Rightarrow> 'a list" where
  "set_insert x xs = (if x \<in> set xs then xs else xs @ [x])"

definition set_erase :: "'a \<Rightarrow> 'a list \<Rightarrow> 'a list" where
  "set_erase x xs = removeAll x xs"

lemma set_set_insert [simp]: "set (set_insert x xs) = insert x (set xs)"
  by (auto simp: set_insert_def)

lemma distinct_set_insert [simp]: "distinct xs \<Longrightarrow> distinct (set_insert x xs)"
  by (simp add: set_insert_def)

lemma set_set_erase [simp]: "set (set_erase x xs) = set xs - {x}"
  by (simp add: set_erase_def)

lemma distinct_set_erase [simp]: "distinct xs \<Longrightarrow> distinct (set_erase x xs)"
  by (simp add: set_erase_def distinct_removeAll)

type_synonym host_set = "u64 list"
type_synonym route_map = "u64 \<Rightarrow> host_set option"

text \<open>\<open>m[key]\<close> makes an empty set for a new key, as \<open>operator[]\<close> does.\<close>

definition map_set_insert :: "'k \<Rightarrow> 'v \<Rightarrow> ('k \<Rightarrow> 'v list option) \<Rightarrow> ('k \<Rightarrow> 'v list option)" where
  "map_set_insert k v m = m(k \<mapsto> set_insert v (case m k of None \<Rightarrow> [] | Some xs \<Rightarrow> xs))"

section \<open>The database\<close>

record data_row =
  dr_modid :: i32
  dr_cmdid :: i32
  dr_ip :: u32
  dr_port :: i32

record change_row =
  ch_version :: int
  ch_modid :: i32
  ch_cmdid :: i32

text \<open>\<open>None\<close>: the query returned an error.\<close>

record route_db =
  RouteVersion :: "int list option"         \<comment> \<open>the rows with \<open>id = 1\<close>\<close>
  RouteData :: "data_row list option"
  RouteChange :: "change_row list option"

section \<open>The table\<close>

record route =
  data_map :: route_map     \<comment> \<open>\<open>*_data_pointer\<close>\<close>
  temp_map :: route_map     \<comment> \<open>\<open>*_temp_pointer\<close>\<close>
  version :: int

text \<open>A row's columns are numbers here; \<open>atoi\<close> and its like on the text of the row come before.\<close>

definition row_key :: "data_row \<Rightarrow> u64" where
  "row_key r = mk_key (dr_modid r) (dr_cmdid r)"

definition row_value :: "data_row \<Rightarrow> u64" where
  "row_value r = mk_key_u (dr_ip r) (dr_port r)"

definition insert_rows :: "data_row list \<Rightarrow> route_map \<Rightarrow> route_map" where
  "insert_rows rows m = fold (\<lambda>r. map_set_insert (row_key r) (row_value r)) rows m"

definition build_maps :: "route_db \<Rightarrow> route \<Rightarrow> route res" where
  "build_maps db s =
     (case RouteData db of
        None \<Rightarrow> Inl (Exit 1)
      | Some rows \<Rightarrow> Inr (s\<lparr>data_map := insert_rows rows (data_map s)\<rparr>))"

text \<open>The constructor, once the connection to the database stands.\<close>

definition route_new :: "route_db \<Rightarrow> route res" where
  "route_new db = build_maps db \<lparr>data_map = (\<lambda>_. None), temp_map = (\<lambda>_. None), version = 0\<rparr>"

definition load_version :: "route_db \<Rightarrow> route \<Rightarrow> (int \<times> route) res" where
  "load_version db s =
     (case RouteVersion db of
        None \<Rightarrow> Inl (Exit 1)
      | Some [] \<Rightarrow> Inr (- 1, s)
      | Some (new_version # _) \<Rightarrow>
          (if new_version = version s then Inr (0, s) else Inr (1, s\<lparr>version := new_version\<rparr>)))"

definition load_changes :: "route_db \<Rightarrow> route \<Rightarrow> u64 list res" where
  "load_changes db s =
     (case RouteChange db of
        None \<Rightarrow> Inl (Exit 1)
      | Some rows \<Rightarrow>
          Inr (map (\<lambda>r. mk_key (ch_modid r) (ch_cmdid r)) (filter (\<lambda>r. version s \<le> ch_version r) rows)))"

definition load_route_data :: "route_db \<Rightarrow> route \<Rightarrow> route res" where
  "load_route_data db s =
     (case RouteData db of
        None \<Rightarrow> Inl (Exit 1)
      | Some rows \<Rightarrow> Inr (s\<lparr>temp_map := insert_rows rows (\<lambda>_. None)\<rparr>))"

definition get_hosts :: "i32 \<Rightarrow> i32 \<Rightarrow> route \<Rightarrow> host_set" where
  "get_hosts modid cmdid s = (case data_map s (mk_key modid cmdid) of None \<Rightarrow> [] | Some hosts \<Rightarrow> hosts)"

definition swap_maps :: "route \<Rightarrow> route" where
  "swap_maps s = s\<lparr>data_map := temp_map s, temp_map := data_map s\<rparr>"

text \<open>
  One pass of the loop of \<open>check_route_changes\<close> at time \<open>now\<close>, with \<open>last_load_time\<close>; the result is what
  it publishes, if anything. It reads the database three times, and others may write in between.
\<close>

definition check_route_changes ::
  "route_db \<Rightarrow> route_db \<Rightarrow> route_db \<Rightarrow> int \<Rightarrow> int \<Rightarrow> route \<Rightarrow> (u64 list option \<times> int \<times> route) res" where
  "check_route_changes db1 db2 db3 now last_load_time s =
     rbind (load_version db1 s) (\<lambda>(ret, s1).
       if ret = 1 then
         rbind (load_route_data db2 s1) (\<lambda>s2.
         rbind (load_changes db3 (swap_maps s2)) (\<lambda>changes.
           Inr (Some changes, now, swap_maps s2)))
       else if 10 \<le> now - last_load_time then
         rbind (load_route_data db2 s1) (\<lambda>s2. Inr (None, now, swap_maps s2))
       else Inr (None, last_load_time, s1))"

section \<open>What the table holds\<close>

lemma insert_rows_set:
  "set (case insert_rows rows m k of None \<Rightarrow> [] | Some xs \<Rightarrow> xs) =
     set (case m k of None \<Rightarrow> [] | Some xs \<Rightarrow> xs) \<union> {row_value r | r. r \<in> set rows \<and> row_key r = k}"
proof (induction rows arbitrary: m)
  case (Cons r rows)
  have "set (case map_set_insert (row_key r) (row_value r) m k of None \<Rightarrow> [] | Some xs \<Rightarrow> xs) =
      set (case m k of None \<Rightarrow> [] | Some xs \<Rightarrow> xs) \<union> (if row_key r = k then {row_value r} else {})"
    by (auto simp: map_set_insert_def)
  with Cons [of "map_set_insert (row_key r) (row_value r) m"] show ?case
    by (auto simp: insert_rows_def)
qed (simp add: insert_rows_def)

lemma insert_rows_distinct:
  "(\<And>k xs. m k = Some xs \<Longrightarrow> distinct xs) \<Longrightarrow> insert_rows rows m k = Some xs \<Longrightarrow> distinct xs"
proof (induction rows arbitrary: m)
  case (Cons r rows)
  have "distinct ys" if "map_set_insert (row_key r) (row_value r) m k' = Some ys" for k' ys
    using that Cons.prems(1) by (auto simp: map_set_insert_def split: if_splits option.splits)
  from Cons.IH [OF this] Cons.prems(2) show ?case by (simp add: insert_rows_def)
qed (simp add: insert_rows_def)

lemma get_hosts_rows:
  assumes "data_map s = insert_rows rows (\<lambda>_. None)"
  shows "set (get_hosts m c s) = {row_value r | r. r \<in> set rows \<and> dr_modid r = m \<and> dr_cmdid r = c} \<and>
    distinct (get_hosts m c s)"
proof -
  have "set (get_hosts m c s) = {row_value r | r. r \<in> set rows \<and> row_key r = mk_key m c}"
    using insert_rows_set [of rows "\<lambda>_. None" "mk_key m c"] assms by (simp add: get_hosts_def)
  moreover have "distinct (get_hosts m c s)"
    using insert_rows_distinct [of "\<lambda>_. None" rows "mk_key m c"] assms
    by (auto simp: get_hosts_def split: option.splits)
  ultimately show ?thesis by (simp add: row_key_def)
qed

section \<open>Properties\<close>

text \<open>
  C40: reloading the routes. While the table is being loaded every request is still answered from the old
  one; after the swap \<open>get_hosts\<close> returns, for every (modid, cmdid) and without repetition, exactly the
  addresses the rows of \<open>RouteData\<close> give for it, whatever the two tables held before.
\<close>

theorem route_reload:
  assumes "RouteData db = Some rows"
  shows "\<exists>s1. load_route_data db s = Inr s1 \<and> (\<forall>m c. get_hosts m c s1 = get_hosts m c s) \<and>
    (\<forall>m c. set (get_hosts m c (swap_maps s1)) =
        {row_value r | r. r \<in> set rows \<and> dr_modid r = m \<and> dr_cmdid r = c} \<and>
      distinct (get_hosts m c (swap_maps s1)))"
proof -
  let ?s1 = "s\<lparr>temp_map := insert_rows rows (\<lambda>_. None)\<rparr>"
  have "load_route_data db s = Inr ?s1" using assms by (simp add: load_route_data_def)
  moreover have "get_hosts m c ?s1 = get_hosts m c s" for m c by (simp add: get_hosts_def)
  moreover have "data_map (swap_maps ?s1) = insert_rows rows (\<lambda>_. None)" by (simp add: swap_maps_def)
  ultimately show ?thesis using get_hosts_rows by blast
qed

definition demo_rows :: "data_row list" where
  "demo_rows = [\<lparr>dr_modid = 1, dr_cmdid = 2, dr_ip = 7, dr_port = 80\<rparr>, \<lparr>dr_modid = 1, dr_cmdid = 3, dr_ip = 8, dr_port = 80\<rparr>]"

lemma route_reload_witness:
  "\<exists>s1. load_route_data \<lparr>RouteVersion = Some [5], RouteData = Some demo_rows, RouteChange = Some []\<rparr>
       \<lparr>data_map = (\<lambda>_. None), temp_map = (\<lambda>_. None), version = 0\<rparr> = Inr s1 \<and>
     set (get_hosts 1 2 (swap_maps s1)) =
       {row_value r | r. r \<in> set demo_rows \<and> dr_modid r = 1 \<and> dr_cmdid r = 2}"
  using route_reload [of "\<lparr>RouteVersion = Some [5], RouteData = Some demo_rows, RouteChange = Some []\<rparr>" demo_rows
      "\<lparr>data_map = (\<lambda>_. None), temp_map = (\<lambda>_. None), version = 0\<rparr>"]
  by auto

text \<open>
  What \<open>check_route_changes\<close> publishes when the version has moved to \<open>v\<close>: the modules changed with a
  version of at least \<open>v\<close>. If every change since the last pass carries the newest version, all of them
  are published; a module that was only changed with a version in between is loaded but not published,
  so its subscribers are not told.
\<close>

theorem check_publishes:
  assumes "RouteVersion db = Some (v # vs)" and "v \<noteq> version s" and "RouteData db = Some rows"
    and "RouteChange db = Some chs"
  shows "\<exists>s'. check_route_changes db db db now t s =
      Inr (Some (map (\<lambda>r. mk_key (ch_modid r) (ch_cmdid r)) (filter (\<lambda>r. v \<le> ch_version r) chs)), now, s') \<and>
    version s' = v \<and> (\<forall>m c. set (get_hosts m c s') = {row_value r | r. r \<in> set rows \<and> dr_modid r = m \<and> dr_cmdid r = c}) \<and>
    ((\<forall>r \<in> set chs. version s < ch_version r \<longrightarrow> v \<le> ch_version r) \<longrightarrow>
       (\<forall>r \<in> set chs. version s < ch_version r \<longrightarrow>
          mk_key (ch_modid r) (ch_cmdid r) \<in> set (map (\<lambda>r. mk_key (ch_modid r) (ch_cmdid r)) (filter (\<lambda>r. v \<le> ch_version r) chs)))) \<and>
    (\<forall>r \<in> set chs. version s < ch_version r \<and> ch_version r < v \<and>
        (\<forall>r' \<in> set chs. ch_modid r' = ch_modid r \<and> ch_cmdid r' = ch_cmdid r \<longrightarrow> ch_version r' < v) \<longrightarrow>
        mk_key (ch_modid r) (ch_cmdid r) \<notin> set (map (\<lambda>r. mk_key (ch_modid r) (ch_cmdid r)) (filter (\<lambda>r. v \<le> ch_version r) chs)))"
proof -
  let ?s' = "swap_maps (s\<lparr>version := v, temp_map := insert_rows rows (\<lambda>_. None)\<rparr>)"
  have run: "check_route_changes db db db now t s =
      Inr (Some (map (\<lambda>r. mk_key (ch_modid r) (ch_cmdid r)) (filter (\<lambda>r. v \<le> ch_version r) chs)), now, ?s')"
    using assms by (simp add: check_route_changes_def load_version_def load_route_data_def load_changes_def swap_maps_def)
  have "data_map ?s' = insert_rows rows (\<lambda>_. None)" "version ?s' = v" by (simp_all add: swap_maps_def)
  with run get_hosts_rows [of ?s' rows] show ?thesis
    by (intro exI [of _ ?s']) auto
qed

text \<open>Versions 5 and 6 were written between two passes: only the module changed with version 6 is published.\<close>

definition demo_db :: route_db where
  "demo_db = \<lparr>RouteVersion = Some [6], RouteData = Some demo_rows,
     RouteChange = Some [\<lparr>ch_version = 5, ch_modid = 1, ch_cmdid = 2\<rparr>, \<lparr>ch_version = 6, ch_modid = 1, ch_cmdid = 3\<rparr>]\<rparr>"

lemma check_publishes_witness:
  "\<exists>s'. check_route_changes demo_db demo_db demo_db 3 0 \<lparr>data_map = (\<lambda>_. None), temp_map = (\<lambda>_. None), version = 4\<rparr>
     = Inr (Some [mk_key 1 3], 3, s')"
  using check_publishes [of demo_db 6 "[]" "\<lparr>data_map = (\<lambda>_. None), temp_map = (\<lambda>_. None), version = 4\<rparr>" demo_rows
      "[\<lparr>ch_version = 5, ch_modid = 1, ch_cmdid = 2\<rparr>, \<lparr>ch_version = 6, ch_modid = 1, ch_cmdid = 3\<rparr>]" 3 0]
  by (auto simp: demo_db_def)

end
