(* ===== verification/Io_Buf.thy ===== *)
theory Io_Buf
  imports Lars_Base
begin

text \<open>
  \<open>io_buf\<close> (\<open>lars_reactors/include/io_buf.h\<close>, \<open>src/io_buf.cpp\<close>): a fixed-capacity byte buffer whose
  unread data is the window of \<open>length\<close> bytes that starts at \<open>head\<close>. \<open>next\<close> links the buffers of a
  free list; the constructor does not initialise it, which the value \<open>Indet\<close> records. The bytes of
  the \<open>char\<close> array are a function from offsets; offsets outside \<open>0..<capacity\<close> are not part of the
  array, and every write checks that it stays inside.
\<close>

datatype ptr = NULL | Ptr addr | Indet

record io_buf =
  buf_next :: ptr
  capacity :: int
  buf_len :: int
  buf_head :: int
  buf_data :: "int \<Rightarrow> u8"

text \<open>\<open>junk\<close> is what the allocated array holds before anything is written to it.\<close>

definition io_buf_new :: "(int \<Rightarrow> u8) \<Rightarrow> int \<Rightarrow> io_buf" where
  "io_buf_new junk sz =
     \<lparr>buf_next = Indet, capacity = sz, buf_len = 0, buf_head = 0, buf_data = junk\<rparr>"

definition io_buf_clear :: "io_buf \<Rightarrow> io_buf" where
  "io_buf_clear b = b\<lparr>buf_len := 0, buf_head := 0\<rparr>"

text \<open>\<open>mem_read d off n\<close>: the \<open>n\<close> bytes at \<open>off\<close>; \<open>mem_write d off bs\<close>: \<open>memcpy\<close> of \<open>bs\<close> to \<open>off\<close>.\<close>

definition mem_read :: "(int \<Rightarrow> u8) \<Rightarrow> int \<Rightarrow> int \<Rightarrow> u8 list" where
  "mem_read d off n = map (\<lambda>i. d (off + int i)) [0..<nat n]"

definition mem_write :: "(int \<Rightarrow> u8) \<Rightarrow> int \<Rightarrow> u8 list \<Rightarrow> (int \<Rightarrow> u8)" where
  "mem_write d off bs =
     (\<lambda>i. if off \<le> i \<and> i < off + int (length bs) then bs ! nat (i - off) else d i)"

text \<open>\<open>memmove\<close> and \<open>memcpy\<close> into the buffer, with the bounds C++ leaves undefined.\<close>

definition buf_write :: "io_buf \<Rightarrow> int \<Rightarrow> u8 list \<Rightarrow> io_buf res" where
  "buf_write b off bs =
     (if 0 \<le> off \<and> off + int (length bs) \<le> capacity b
      then Inr (b\<lparr>buf_data := mem_write (buf_data b) off bs\<rparr>) else Inl OutOfBounds)"

definition io_buf_adjust :: "io_buf \<Rightarrow> io_buf res" where
  "io_buf_adjust b =
     (if buf_head b \<noteq> 0
      then rbind (if buf_len b \<noteq> 0
                  then buf_write b 0 (mem_read (buf_data b) (buf_head b) (buf_len b))
                  else Inr b)
             (\<lambda>b'. Inr (b'\<lparr>buf_head := 0\<rparr>))
      else Inr b)"

definition io_buf_copy :: "io_buf \<Rightarrow> io_buf \<Rightarrow> io_buf res" where
  "io_buf_copy b other =
     rbind (buf_write b 0 (mem_read (buf_data other) (buf_head other) (buf_len other)))
       (\<lambda>b'. Inr (b'\<lparr>buf_head := 0, buf_len := buf_len other\<rparr>))"

definition io_buf_pop :: "io_buf \<Rightarrow> int \<Rightarrow> io_buf" where
  "io_buf_pop b len = b\<lparr>buf_len := buf_len b - len, buf_head := buf_head b + len\<rparr>"

text \<open>The unread bytes, and what keeps the window inside the array.\<close>

definition content :: "io_buf \<Rightarrow> u8 list" where
  "content b = mem_read (buf_data b) (buf_head b) (buf_len b)"

definition wf_buf :: "io_buf \<Rightarrow> bool" where
  "wf_buf b \<longleftrightarrow> 0 \<le> buf_head b \<and> 0 \<le> buf_len b \<and> buf_head b + buf_len b \<le> capacity b"

section \<open>Reading and writing a byte array\<close>

lemma length_mem_read [simp]: "length (mem_read d off n) = nat n"
  by (simp add: mem_read_def)

lemma mem_read_0 [simp]: "n \<le> 0 \<Longrightarrow> mem_read d off n = []"
  by (simp add: mem_read_def)

lemma nth_mem_read [simp]: "i < nat n \<Longrightarrow> mem_read d off n ! i = d (off + int i)"
  by (simp add: mem_read_def)

lemma mem_read_append:
  "0 \<le> m \<Longrightarrow> 0 \<le> n \<Longrightarrow> mem_read d off (m + n) = mem_read d off m @ mem_read d (off + m) n"
  by (rule nth_equalityI) (auto simp: nth_append algebra_simps nat_add_distrib of_nat_diff)

lemma mem_read_write_same [simp]: "mem_read (mem_write d off bs) off (int (length bs)) = bs"
  by (rule nth_equalityI) (auto simp: mem_write_def)

lemma mem_read_write_before [simp]:
  "off + n \<le> off' \<Longrightarrow> mem_read (mem_write d off' bs) off n = mem_read d off n"
  by (rule nth_equalityI) (auto simp: mem_write_def)

lemma drop_mem_read:
  "0 \<le> k \<Longrightarrow> drop (nat k) (mem_read d off n) = mem_read d (off + k) (n - k)"
  by (rule nth_equalityI) (auto simp: nat_diff_distrib' add.assoc)

lemma take_mem_read:
  "0 \<le> k \<Longrightarrow> k \<le> n \<Longrightarrow> take (nat k) (mem_read d off n) = mem_read d off k"
  by (rule nth_equalityI) auto

section \<open>The operations on the unread bytes\<close>

lemma length_content [simp]: "length (content b) = nat (buf_len b)"
  by (simp add: content_def)

lemma content_new [simp]: "content (io_buf_new junk n) = []"
  by (simp add: content_def io_buf_new_def)

lemma content_clear [simp]: "content (io_buf_clear b) = []"
  by (simp add: content_def io_buf_clear_def)

lemma wf_new [simp]: "0 \<le> n \<Longrightarrow> wf_buf (io_buf_new junk n)"
  by (simp add: wf_buf_def io_buf_new_def)

lemma wf_clear [simp]: "wf_buf b \<Longrightarrow> wf_buf (io_buf_clear b)"
  by (simp add: wf_buf_def io_buf_clear_def)

lemma content_pop: "0 \<le> n \<Longrightarrow> content (io_buf_pop b n) = drop (nat n) (content b)"
  by (simp add: content_def io_buf_pop_def drop_mem_read)

lemma wf_pop: "wf_buf b \<Longrightarrow> 0 \<le> n \<Longrightarrow> n \<le> buf_len b \<Longrightarrow> wf_buf (io_buf_pop b n)"
  by (simp add: wf_buf_def io_buf_pop_def)

lemma buf_write_Inr:
  "buf_write b off bs = Inr b' \<longleftrightarrow>
     0 \<le> off \<and> off + int (length bs) \<le> capacity b \<and>
     b' = b\<lparr>buf_data := mem_write (buf_data b) off bs\<rparr>"
  by (auto simp: buf_write_def)

lemma io_buf_adjust_ok:
  assumes "wf_buf b"
  shows "\<exists>b'. io_buf_adjust b = Inr b' \<and> content b' = content b \<and> wf_buf b' \<and> buf_head b' = 0 \<and>
    buf_len b' = buf_len b \<and> capacity b' = capacity b \<and> buf_next b' = buf_next b"
proof (cases "buf_head b = 0")
  case True
  with assms show ?thesis by (simp add: io_buf_adjust_def)
next
  case False
  have "int (length (content b)) = buf_len b" and "0 \<le> buf_len b"
    using assms by (simp_all add: wf_buf_def)
  with False assms show ?thesis
    using mem_read_write_same [of "buf_data b" 0 "content b"]
    by (auto simp: io_buf_adjust_def buf_write_def content_def wf_buf_def)
qed

lemma io_buf_copy_ok:
  assumes "wf_buf other" and "buf_len other \<le> capacity b"
  shows "\<exists>b'. io_buf_copy b other = Inr b' \<and> content b' = content other \<and> wf_buf b' \<and>
    buf_head b' = 0 \<and> buf_len b' = buf_len other \<and> capacity b' = capacity b \<and> buf_next b' = buf_next b"
proof -
  have "int (length (content other)) = buf_len other" and "0 \<le> buf_len other"
    using assms by (simp_all add: wf_buf_def)
  with assms show ?thesis
    using mem_read_write_same [of "buf_data b" 0 "content other"]
    by (auto simp: io_buf_copy_def buf_write_def content_def wf_buf_def)
qed

text \<open>Appending \<open>bs\<close> behind the window: what \<open>send_data\<close> and \<open>read_data\<close> do.\<close>

lemma content_append:
  assumes "wf_buf b"
  shows "content (b\<lparr>buf_data := mem_write (buf_data b) (buf_head b + buf_len b) bs,
                    buf_len := buf_len b + int (length bs)\<rparr>) = content b @ bs"
  using assms by (simp add: content_def wf_buf_def mem_read_append)

end
