(* ===== verification/Alloc_Interface.thy ===== *)
theory Alloc_Interface
  imports Io_Buf
begin

text \<open>
  The contract between \<open>buf_pool\<close> and its clients (\<open>reactor_buf\<close>): \<open>alloc\<close> hands out an empty buffer
  of at least the requested capacity that no free list holds, \<open>give_back\<close> returns one, writing
  through a held pointer disturbs nobody else. \<open>lookup\<close> reads a buffer, \<open>idle\<close> tells whether it is
  in the pool, \<open>inv\<close> is the provider's invariant.
\<close>

locale buf_allocator =
  fixes alloc :: "int \<Rightarrow> 's \<Rightarrow> (ptr \<times> 's) res"
    and give_back :: "addr \<Rightarrow> 's \<Rightarrow> 's res"
    and write_buf :: "addr \<Rightarrow> io_buf \<Rightarrow> 's \<Rightarrow> 's"
    and lookup :: "'s \<Rightarrow> addr \<Rightarrow> io_buf option"
    and idle :: "'s \<Rightarrow> addr \<Rightarrow> bool"
    and inv :: "'s \<Rightarrow> bool"
  assumes alloc_result: "alloc n s = Inr (p, s') \<Longrightarrow> (\<exists>a. p = Ptr a) \<or> p = NULL \<and> s' = s \<and> 8388608 < n"
    and alloc_inv: "inv s \<Longrightarrow> alloc n s = Inr (Ptr a, s') \<Longrightarrow> inv s'"
    and alloc_buffer: "inv s \<Longrightarrow> alloc n s = Inr (Ptr a, s') \<Longrightarrow>
      \<exists>b. lookup s' a = Some b \<and> wf_buf b \<and> buf_len b = 0 \<and> buf_head b = 0 \<and> n \<le> capacity b"
    and alloc_owned: "inv s \<Longrightarrow> alloc n s = Inr (Ptr a, s') \<Longrightarrow>
      \<not> idle s' a \<and> (lookup s a = None \<or> idle s a)"
    and alloc_frame: "inv s \<Longrightarrow> alloc n s = Inr (Ptr a, s') \<Longrightarrow> x \<noteq> a \<Longrightarrow>
      lookup s' x = lookup s x \<and> idle s' x = idle s x"
    and give_back_ok: "inv s \<Longrightarrow> lookup s a = Some b \<Longrightarrow> \<not> idle s a \<Longrightarrow>
      \<exists>s'. give_back a s = Inr s' \<and> inv s' \<and> idle s' a \<and>
        (\<forall>x. x \<noteq> a \<longrightarrow> lookup s' x = lookup s x \<and> idle s' x = idle s x)"
    and write_lookup: "lookup (write_buf a b s) x = (if x = a then Some b else lookup s x)"
    and write_inv: "inv s \<Longrightarrow> lookup s a = Some b \<Longrightarrow> \<not> idle s a \<Longrightarrow> wf_buf b' \<Longrightarrow>
      capacity b' = capacity b \<Longrightarrow> inv (write_buf a b' s) \<and> idle (write_buf a b' s) x = idle s x"
    and lookup_wf: "inv s \<Longrightarrow> lookup s a = Some b \<Longrightarrow> wf_buf b"
begin

text \<open>A buffer that somebody holds: it exists and the pool does not have it.\<close>

definition held :: "'s \<Rightarrow> addr \<Rightarrow> io_buf \<Rightarrow> bool" where
  "held s a b \<longleftrightarrow> lookup s a = Some b \<and> \<not> idle s a"

lemma alloc_held:
  "inv s \<Longrightarrow> alloc n s = Inr (Ptr a, s') \<Longrightarrow>
   \<exists>b. held s' a b \<and> wf_buf b \<and> buf_len b = 0 \<and> buf_head b = 0 \<and> n \<le> capacity b"
  using alloc_buffer [of s n a s'] alloc_owned [of s n a s'] by (auto simp: held_def)

lemma alloc_keeps_held:
  "inv s \<Longrightarrow> alloc n s = Inr (Ptr a, s') \<Longrightarrow> held s x b \<Longrightarrow> x \<noteq> a \<and> held s' x b"
  using alloc_owned [of s n a s'] alloc_frame [of s n a s' x] by (cases "x = a") (auto simp: held_def)

lemma give_back_keeps_held:
  "inv s \<Longrightarrow> held s a c \<Longrightarrow> give_back a s = Inr s' \<Longrightarrow> held s x b \<Longrightarrow> x \<noteq> a \<Longrightarrow> held s' x b"
  using give_back_ok [of s a c] unfolding held_def by auto

lemma write_held:
  "inv s \<Longrightarrow> held s a b \<Longrightarrow> wf_buf b' \<Longrightarrow> capacity b' = capacity b \<Longrightarrow>
   inv (write_buf a b' s) \<and> held (write_buf a b' s) a b'"
  using write_inv [of s a b b'] by (simp add: held_def write_lookup)

lemma write_keeps_held:
  "inv s \<Longrightarrow> held s a b \<Longrightarrow> wf_buf b' \<Longrightarrow> capacity b' = capacity b \<Longrightarrow> held s x c \<Longrightarrow> x \<noteq> a \<Longrightarrow>
   held (write_buf a b' s) x c"
  using write_inv [of s a b b'] by (simp add: held_def write_lookup)

text \<open>And nothing else comes to be held.\<close>

lemma alloc_adds:
  "inv s \<Longrightarrow> alloc n s = Inr (Ptr a, s') \<Longrightarrow> held s' x b \<Longrightarrow> x \<noteq> a \<Longrightarrow> held s x b"
  using alloc_frame [of s n a s' x] by (simp add: held_def)

lemma give_back_takes:
  "inv s \<Longrightarrow> held s a c \<Longrightarrow> give_back a s = Inr s' \<Longrightarrow> held s' x b \<Longrightarrow> x \<noteq> a \<and> held s x b"
  using give_back_ok [of s a c] by (cases "x = a") (auto simp: held_def)

lemma write_adds:
  "inv s \<Longrightarrow> held s a b \<Longrightarrow> wf_buf b' \<Longrightarrow> capacity b' = capacity b \<Longrightarrow> held (write_buf a b' s) x c \<Longrightarrow> x \<noteq> a \<Longrightarrow>
   held s x c"
  using write_inv [of s a b b'] by (simp add: held_def write_lookup)

lemma held_wf: "inv s \<Longrightarrow> held s a b \<Longrightarrow> wf_buf b"
  using lookup_wf [of s a b] by (simp add: held_def)

end

end
