(* ===== verification/Buf_Pool.thy ===== *)
theory Buf_Pool
  imports Alloc_Interface
begin

text \<open>
  \<open>buf_pool\<close> (\<open>lars_reactors/include/buf_pool.h\<close>, \<open>src/buf_pool.cpp\<close>): the process-wide pool of
  \<open>io_buf\<close>s, one singly linked free list per capacity class. Its state is the heap of \<open>io_buf\<close>s,
  the heads \<open>_pool\<close> of the free lists and the accounted size \<open>_total_mem\<close> in KB. The critical
  sections under \<open>_mutex\<close> are atomic steps. \<open>junk\<close> is what freshly allocated memory holds.
\<close>

record pool_st =
  bufs :: "addr \<Rightarrow> io_buf option"
  fresh_addr :: addr
  junk :: "addr \<Rightarrow> int \<Rightarrow> u8"
  free_lists :: "int \<Rightarrow> ptr option"   \<comment> \<open>\<open>_pool\<close>\<close>
  total_mem :: u64                       \<comment> \<open>\<open>_total_mem\<close>\<close>

text \<open>The values of \<open>enum MEM_CAP\<close>; the fifth is the code's (it is not \<open>1024 * 1024\<close>).\<close>

definition mem_caps :: "int list" where
  "mem_caps = [4096, 16384, 65536, 262144, 1058576, 4194304, 8388608]"

definition MEM_LIMIT :: u64 where "MEM_LIMIT = 5 * 1024 * 1024"

section \<open>Construction\<close>

definition new_io_buf :: "int \<Rightarrow> pool_st \<Rightarrow> addr \<times> pool_st" where
  "new_io_buf cap s =
     (let a = fresh_addr s
      in (a, s\<lparr>bufs := (bufs s)(a \<mapsto> io_buf_new (junk s a) cap), fresh_addr := Suc a\<rparr>))"

definition set_next :: "addr \<Rightarrow> ptr \<Rightarrow> pool_st \<Rightarrow> pool_st" where
  "set_next a p s = s\<lparr>bufs := (bufs s)(a := map_option (\<lambda>b. b\<lparr>buf_next := p\<rparr>) (bufs s a))\<rparr>"

text \<open>The loop of \<open>make_io_buf_list\<close>: \<open>k\<close> more buffers linked behind \<open>prev\<close>.\<close>

fun link_bufs :: "addr \<Rightarrow> int \<Rightarrow> nat \<Rightarrow> pool_st \<Rightarrow> pool_st" where
  "link_bufs prev cap 0 s = s"
| "link_bufs prev cap (Suc k) s =
     (let (a, s1) = new_io_buf cap s in link_bufs a cap k (set_next prev (Ptr a) s1))"

definition make_io_buf_list :: "int \<Rightarrow> nat \<Rightarrow> pool_st \<Rightarrow> pool_st" where
  "make_io_buf_list cap num s =
     (let (a, s1) = new_io_buf cap s;
          s2 = link_bufs a cap (num - 1) (s1\<lparr>free_lists := (free_lists s1)(cap \<mapsto> Ptr a)\<rparr>)
      in s2\<lparr>total_mem := total_mem s2 + of_int (cap div 1024 * int num)\<rparr>)"

definition empty_pool :: "(addr \<Rightarrow> int \<Rightarrow> u8) \<Rightarrow> pool_st" where
  "empty_pool j = \<lparr>bufs = (\<lambda>_. None), fresh_addr = 0, junk = j, free_lists = (\<lambda>_. None), total_mem = 0\<rparr>"

text \<open>The constructor's seven calls, as (capacity, number) pairs.\<close>

definition pool_plan :: "(int \<times> nat) list" where
  "pool_plan = [(4096, 5000), (16384, 1000), (65536, 500), (262144, 200), (1058576, 50),
                (4194304, 20), (8388608, 10)]"

definition buf_pool_init :: "(addr \<Rightarrow> int \<Rightarrow> u8) \<Rightarrow> pool_st" where
  "buf_pool_init j = fold (\<lambda>(cap, num). make_io_buf_list cap num) pool_plan (empty_pool j)"

section \<open>Allocation and return\<close>

text \<open>Step 1 of \<open>alloc_buf\<close>: the smallest class that holds \<open>N\<close>; \<open>None\<close> is \<open>return NULL\<close>.\<close>

definition alloc_index :: "int \<Rightarrow> int option" where
  "alloc_index N =
     (if N \<le> 4096 then Some 4096
      else if N \<le> 16384 then Some 16384
      else if N \<le> 65536 then Some 65536
      else if N \<le> 262144 then Some 262144
      else if N \<le> 1058576 then Some 1058576
      else if N \<le> 4194304 then Some 4194304
      else if N \<le> 8388608 then Some 8388608
      else None)"

definition pool_head :: "pool_st \<Rightarrow> int \<Rightarrow> ptr" where
  "pool_head s index = (case free_lists s index of None \<Rightarrow> NULL | Some p \<Rightarrow> p)"

definition alloc_buf :: "int \<Rightarrow> pool_st \<Rightarrow> (ptr \<times> pool_st) res" where
  "alloc_buf N s =
     (case alloc_index N of
        None \<Rightarrow> Inr (NULL, s)
      | Some index \<Rightarrow>
          (case pool_head s index of
             NULL \<Rightarrow>
               (if MEM_LIMIT \<le> total_mem s + of_int (index div 1024) then Inl (Exit 1)
                else let (a, s1) = new_io_buf index s
                     in Inr (Ptr a, s1\<lparr>total_mem := total_mem s1 + of_int (index div 1024)\<rparr>))
           | Indet \<Rightarrow> Inl UninitRead
           | Ptr a \<Rightarrow>
               (case bufs s a of
                  None \<Rightarrow> Inl UseAfterFree
                | Some b \<Rightarrow>
                    Inr (Ptr a, s\<lparr>free_lists := (free_lists s)(index \<mapsto> buf_next b),
                                  bufs := (bufs s)(a \<mapsto> b\<lparr>buf_next := NULL\<rparr>)\<rparr>))))"

definition alloc_buf0 :: "pool_st \<Rightarrow> (ptr \<times> pool_st) res" where
  "alloc_buf0 = alloc_buf 4096"

definition revert :: "addr \<Rightarrow> pool_st \<Rightarrow> pool_st res" where
  "revert a s =
     (case bufs s a of
        None \<Rightarrow> Inl UseAfterFree
      | Some b \<Rightarrow>
          (let index = capacity b; b1 = b\<lparr>buf_len := 0, buf_head := 0\<rparr>
           in case free_lists s index of
                None \<Rightarrow> Inl AssertFail
              | Some p \<Rightarrow>
                  Inr (s\<lparr>bufs := (bufs s)(a \<mapsto> b1\<lparr>buf_next := p\<rparr>),
                         free_lists := (free_lists s)(index \<mapsto> Ptr a)\<rparr>)))"

text \<open>A write through an \<open>io_buf*\<close> held outside the pool.\<close>

definition set_buf :: "addr \<Rightarrow> io_buf \<Rightarrow> pool_st \<Rightarrow> pool_st" where
  "set_buf a b s = s\<lparr>bufs := (bufs s)(a \<mapsto> b)\<rparr>"

section \<open>The free lists\<close>

text \<open>
  \<open>chain h cap p xs t\<close>: following \<open>next\<close> from \<open>p\<close> visits exactly the buffers \<open>xs\<close>, all of capacity
  \<open>cap\<close> and empty, and ends with the pointer value \<open>t\<close>.
\<close>

fun chain :: "(addr \<Rightarrow> io_buf option) \<Rightarrow> int \<Rightarrow> ptr \<Rightarrow> addr list \<Rightarrow> ptr \<Rightarrow> bool" where
  "chain h cap p [] t = (p = t)"
| "chain h cap p (a # as) t =
     (p = Ptr a \<and>
      (case h a of
         None \<Rightarrow> False
       | Some b \<Rightarrow> capacity b = cap \<and> buf_len b = 0 \<and> buf_head b = 0 \<and>
                   chain h cap (buf_next b) as t))"

definition avail :: "pool_st \<Rightarrow> int \<Rightarrow> addr list \<Rightarrow> ptr \<Rightarrow> bool" where
  "avail s cap xs t \<longleftrightarrow>
     (\<exists>p. free_lists s cap = Some p \<and> chain (bufs s) cap p xs t) \<and> distinct xs \<and> (t = NULL \<or> t = Indet)"

definition is_free :: "pool_st \<Rightarrow> addr \<Rightarrow> bool" where
  "is_free s a \<longleftrightarrow> (\<exists>cap xs t. cap \<in> set mem_caps \<and> avail s cap xs t \<and> a \<in> set xs)"

definition pool_inv :: "pool_st \<Rightarrow> bool" where
  "pool_inv s \<longleftrightarrow>
     (\<forall>cap \<in> set mem_caps. \<exists>xs t. avail s cap xs t) \<and>
     (\<forall>a b. bufs s a = Some b \<longrightarrow> a < fresh_addr s \<and> wf_buf b \<and> capacity b \<in> set mem_caps) \<and>
     total_mem s < MEM_LIMIT"

lemma chain_cong: "(\<And>x. x \<in> set xs \<Longrightarrow> h' x = h x) \<Longrightarrow> chain h' cap p xs t = chain h cap p xs t"
  by (induction xs arbitrary: p) (auto split: option.splits)

lemma chain_mem:
  "chain h cap p xs t \<Longrightarrow> a \<in> set xs \<Longrightarrow>
   \<exists>b. h a = Some b \<and> capacity b = cap \<and> buf_len b = 0 \<and> buf_head b = 0"
  by (induction xs arbitrary: p) (auto split: option.splits)

lemma chain_det:
  "chain h cap p xs t \<Longrightarrow> chain h cap p ys u \<Longrightarrow> t = NULL \<or> t = Indet \<Longrightarrow> u = NULL \<or> u = Indet \<Longrightarrow>
   xs = ys \<and> t = u"
proof (induction xs arbitrary: p ys)
  case Nil
  then show ?case by (cases ys) auto
next
  case (Cons a xs)
  then show ?case by (cases ys) (auto split: option.splits)
qed

lemma avail_det: "avail s cap xs t \<Longrightarrow> avail s cap ys u \<Longrightarrow> xs = ys \<and> t = u"
  unfolding avail_def using chain_det by (metis option.inject)

lemma avail_mem:
  "avail s cap xs t \<Longrightarrow> a \<in> set xs \<Longrightarrow>
   \<exists>b. bufs s a = Some b \<and> capacity b = cap \<and> buf_len b = 0 \<and> buf_head b = 0"
  unfolding avail_def using chain_mem by blast

lemma avail_cong:
  "free_lists s' cap = free_lists s cap \<Longrightarrow> (\<And>x. x \<in> set xs \<Longrightarrow> bufs s' x = bufs s x) \<Longrightarrow>
   avail s' cap xs t = avail s cap xs t"
  unfolding avail_def using chain_cong [of xs "bufs s'" "bufs s" cap] by auto

lemma is_free_iff:
  assumes "\<And>cap. cap \<in> set mem_caps \<Longrightarrow> avail s cap (F cap) (T cap)"
  shows "is_free s a \<longleftrightarrow> (\<exists>cap \<in> set mem_caps. a \<in> set (F cap))"
  unfolding is_free_def using assms avail_det by blast

lemma is_free_alloc: "is_free s a \<Longrightarrow> \<exists>b. bufs s a = Some b"
  unfolding is_free_def using avail_mem by blast

text \<open>Every buffer sits in at most one free list: its capacity tells which.\<close>

lemma avail_disjoint:
  "avail s c xs t \<Longrightarrow> avail s c' ys u \<Longrightarrow> a \<in> set xs \<Longrightarrow> a \<in> set ys \<Longrightarrow> c = c'"
  by (auto dest!: avail_mem)

lemma pool_invD:
  assumes "pool_inv s"
  obtains F T where "\<And>cap. cap \<in> set mem_caps \<Longrightarrow> avail s cap (F cap) (T cap)"
  using assms unfolding pool_inv_def by metis

lemma pool_inv_buf:
  "pool_inv s \<Longrightarrow> bufs s a = Some b \<Longrightarrow> a < fresh_addr s \<and> wf_buf b \<and> capacity b \<in> set mem_caps"
  unfolding pool_inv_def by blast

lemma mem_caps_pos: "cap \<in> set mem_caps \<Longrightarrow> 0 < cap"
  by (auto simp: mem_caps_def)

lemma alloc_index_Some:
  "alloc_index N = Some c \<Longrightarrow> c \<in> set mem_caps \<and> N \<le> c \<and> (\<forall>c' \<in> set mem_caps. N \<le> c' \<longrightarrow> c \<le> c')"
  by (auto simp: alloc_index_def mem_caps_def split: if_splits)

lemma alloc_index_None: "alloc_index N = None \<longleftrightarrow> 8388608 < N"
  by (auto simp: alloc_index_def)

text \<open>The state after a free list has changed, with the lists of all classes given.\<close>

lemma pool_invI:
  assumes "\<And>cap. cap \<in> set mem_caps \<Longrightarrow> avail s cap (F cap) (T cap)"
    and "\<And>a b. bufs s a = Some b \<Longrightarrow> a < fresh_addr s \<and> wf_buf b \<and> capacity b \<in> set mem_caps"
    and "total_mem s < MEM_LIMIT"
  shows "pool_inv s"
  using assms unfolding pool_inv_def by blast

section \<open>Allocation and return keep the pool well-formed\<close>

text \<open>What the caller of \<open>alloc_buf\<close> gets, and what nobody else notices.\<close>

definition alloc_post :: "int \<Rightarrow> pool_st \<Rightarrow> addr \<Rightarrow> pool_st \<Rightarrow> bool" where
  "alloc_post N s a s' \<longleftrightarrow>
     pool_inv s' \<and> \<not> is_free s' a \<and> (bufs s a = None \<or> is_free s a) \<and>
     (\<exists>b. bufs s' a = Some b \<and> buf_len b = 0 \<and> buf_head b = 0 \<and> alloc_index N = Some (capacity b)) \<and>
     (\<forall>x. x \<noteq> a \<longrightarrow> bufs s' x = bufs s x \<and> is_free s' x = is_free s x)"

lemma alloc_fresh_post:
  assumes inv: "pool_inv s" and idx: "alloc_index N = Some c" and head: "pool_head s c = NULL"
    and lim: "\<not> MEM_LIMIT \<le> total_mem s + of_int (c div 1024)"
    and new: "new_io_buf c s = (a, s1)" and s': "s' = s1\<lparr>total_mem := total_mem s1 + of_int (c div 1024)\<rparr>"
  shows "alloc_post N s a s'"
proof -
  obtain F T where F: "\<And>cap. cap \<in> set mem_caps \<Longrightarrow> avail s cap (F cap) (T cap)"
    using inv by (rule pool_invD) blast
  have a: "a = fresh_addr s" and s'_eq: "s' = s\<lparr>bufs := (bufs s)(a \<mapsto> io_buf_new (junk s a) c),
      fresh_addr := Suc a, total_mem := total_mem s + of_int (c div 1024)\<rparr>"
    using new s' by (auto simp: new_io_buf_def Let_def)
  have none: "bufs s a = None"
    using pool_inv_buf [OF inv, of a] a by (cases "bufs s a") auto
  have F': "avail s' cap (F cap) (T cap)" if "cap \<in> set mem_caps" for cap
  proof -
    have "x \<noteq> a" if "x \<in> set (F cap)" for x
      using avail_mem [OF F [OF \<open>cap \<in> set mem_caps\<close>] that] none by auto
    then show ?thesis using F [OF that] by (subst avail_cong [of _ _ s]) (auto simp: s'_eq)
  qed
  have c: "c \<in> set mem_caps" using alloc_index_Some [OF idx] by simp
  have "pool_inv s'"
  proof (rule pool_invI [where F = F and T = T])
    show "x < fresh_addr s' \<and> wf_buf b \<and> capacity b \<in> set mem_caps" if "bufs s' x = Some b" for x b
      using that c mem_caps_pos [OF c] pool_inv_buf [OF inv, of x b]
      by (auto simp: s'_eq a io_buf_new_def wf_buf_def split: if_splits)
    show "total_mem s' < MEM_LIMIT" using lim by (simp add: s'_eq not_le)
  qed (rule F')
  moreover have "is_free s' x = is_free s x" for x
    using is_free_iff [of s F T x] is_free_iff [of s' F T x] F F' by simp
  moreover have "\<not> is_free s a" using is_free_alloc none by force
  ultimately show ?thesis
    using none idx by (auto simp: alloc_post_def s'_eq io_buf_new_def)
qed

lemma alloc_pooled_post:
  assumes inv: "pool_inv s" and idx: "alloc_index N = Some c" and head: "pool_head s c = Ptr a"
    and b: "bufs s a = Some b"
    and s': "s' = s\<lparr>free_lists := (free_lists s)(c \<mapsto> buf_next b), bufs := (bufs s)(a \<mapsto> b\<lparr>buf_next := NULL\<rparr>)\<rparr>"
  shows "alloc_post N s a s'"
proof -
  obtain F T where F: "\<And>cap. cap \<in> set mem_caps \<Longrightarrow> avail s cap (F cap) (T cap)"
    using inv by (rule pool_invD) blast
  have c: "c \<in> set mem_caps" using alloc_index_Some [OF idx] by simp
  obtain as where Fc: "F c = a # as"
    using F [OF c] head by (cases "F c") (auto simp: avail_def pool_head_def)
  have dist: "a \<notin> set as" and ch: "chain (bufs s) c (buf_next b) as (T c)" and t: "T c = NULL \<or> T c = Indet"
    and dist': "distinct as" and bc: "capacity b = c" "buf_len b = 0" "buf_head b = 0"
    using F [OF c] b by (auto simp: avail_def Fc)
  let ?F = "F(c := as)"
  have F': "avail s' cap (?F cap) (T cap)" if "cap \<in> set mem_caps" for cap
  proof (cases "cap = c")
    case True
    have "chain (bufs s') c (buf_next b) as (T c) = chain (bufs s) c (buf_next b) as (T c)"
      by (rule chain_cong) (use dist in \<open>auto simp: s'\<close>)
    with True ch t dist' show ?thesis by (auto simp: avail_def s')
  next
    case False
    have "x \<noteq> a" if "x \<in> set (F cap)" for x
      using avail_disjoint [OF F [OF \<open>cap \<in> set mem_caps\<close>] F [OF c], of x] that False Fc by auto
    with False F [OF that] show ?thesis by (subst avail_cong [of _ _ s]) (auto simp: s')
  qed
  have "pool_inv s'"
  proof (rule pool_invI [where F = ?F and T = T])
    show "x < fresh_addr s' \<and> wf_buf b' \<and> capacity b' \<in> set mem_caps" if "bufs s' x = Some b'" for x b'
      using that b pool_inv_buf [OF inv, of x] by (auto simp: s' wf_buf_def split: if_splits)
    show "total_mem s' < MEM_LIMIT" using inv by (simp add: s' pool_inv_def)
  qed (rule F')
  moreover have f': "is_free s' x \<longleftrightarrow> (\<exists>cap \<in> set mem_caps. x \<in> set (?F cap))" for x
    by (rule is_free_iff [OF F'])
  moreover have f: "is_free s x \<longleftrightarrow> (\<exists>cap \<in> set mem_caps. x \<in> set (F cap))" for x
    by (rule is_free_iff [OF F])
  have "\<not> is_free s' a"
    using dist avail_disjoint [OF F F [OF c], of _ a] Fc by (auto simp: f' split: if_splits)
  moreover have "is_free s a" unfolding f using c Fc by (intro bexI [of _ c]) auto
  moreover have "is_free s' x = is_free s x" if "x \<noteq> a" for x
  proof -
    have "x \<in> set (?F cap) \<longleftrightarrow> x \<in> set (F cap)" for cap using that Fc by auto
    then show ?thesis by (simp only: f f')
  qed
  ultimately show ?thesis
    using b bc idx by (auto simp: alloc_post_def s')
qed

lemma alloc_buf_Ptr:
  assumes "pool_inv s" and "alloc_buf N s = Inr (Ptr a, s')"
  shows "alloc_post N s a s'"
  using assms alloc_fresh_post [OF assms(1)] alloc_pooled_post [OF assms(1)]
  by (auto simp: alloc_buf_def Let_def split: option.splits ptr.splits if_splits prod.splits)

lemma alloc_buf_ptr:
  "alloc_buf N s = Inr (p, s') \<Longrightarrow> (\<exists>a. p = Ptr a) \<or> p = NULL \<and> s' = s \<and> 8388608 < N"
  by (auto simp: alloc_buf_def alloc_index_None Let_def new_io_buf_def
      split: option.splits ptr.splits if_splits) metis+

lemma alloc_buf_NULL: "alloc_buf N s = Inr (NULL, s') \<Longrightarrow> s' = s \<and> 8388608 < N"
  by (auto dest: alloc_buf_ptr)

lemma alloc_buf_Inl:
  assumes "pool_inv s" and "alloc_buf N s = Inl e"
  shows "\<exists>c. alloc_index N = Some c \<and>
    (e = UninitRead \<and> avail s c [] Indet \<or>
     e = Exit 1 \<and> avail s c [] NULL \<and> MEM_LIMIT \<le> total_mem s + of_int (c div 1024))"
proof -
  obtain c where c: "alloc_index N = Some c" "c \<in> set mem_caps"
    using assms(2) alloc_index_Some by (cases "alloc_index N") (auto simp: alloc_buf_def)
  obtain xs t where av: "avail s c xs t" using assms(1) c(2) unfolding pool_inv_def by blast
  then obtain p where p: "pool_head s c = p" "chain (bufs s) c p xs t" "t = NULL \<or> t = Indet"
    by (auto simp: avail_def pool_head_def)
  show ?thesis
  proof (cases xs)
    case Nil
    with av p assms(2) c(1) show ?thesis
      by (auto simp: alloc_buf_def Let_def split: ptr.splits if_splits prod.splits)
  next
    case (Cons a as)
    with p assms(2) c(1) show ?thesis
      by (auto simp: alloc_buf_def split: option.splits)
  qed
qed

text \<open>\<open>revert\<close> of a buffer that is in use puts it, emptied, at the head of its class.\<close>

definition revert_post :: "addr \<Rightarrow> pool_st \<Rightarrow> pool_st \<Rightarrow> bool" where
  "revert_post a s s' \<longleftrightarrow>
     pool_inv s' \<and> is_free s' a \<and> total_mem s' = total_mem s \<and>
     (\<forall>x. x \<noteq> a \<longrightarrow> bufs s' x = bufs s x \<and> is_free s' x = is_free s x)"

lemma revert_ok:
  assumes inv: "pool_inv s" and b: "bufs s a = Some b" and used: "\<not> is_free s a"
  shows "\<exists>s'. revert a s = Inr s' \<and> revert_post a s s'"
proof -
  obtain F T where F: "\<And>cap. cap \<in> set mem_caps \<Longrightarrow> avail s cap (F cap) (T cap)"
    using inv by (rule pool_invD) blast
  let ?c = "capacity b"
  have c: "?c \<in> set mem_caps" using pool_inv_buf [OF inv b] by simp
  obtain p where p: "free_lists s ?c = Some p" and ch: "chain (bufs s) ?c p (F ?c) (T ?c)"
    and t: "T ?c = NULL \<or> T ?c = Indet" and dist: "distinct (F ?c)"
    using F [OF c] by (auto simp: avail_def)
  define s' where "s' = s\<lparr>bufs := (bufs s)(a \<mapsto> b\<lparr>buf_len := 0, buf_head := 0, buf_next := p\<rparr>),
      free_lists := (free_lists s)(?c \<mapsto> Ptr a)\<rparr>"
  have rev: "revert a s = Inr s'" using b p by (simp add: revert_def s'_def Let_def)
  have f: "is_free s x \<longleftrightarrow> (\<exists>cap \<in> set mem_caps. x \<in> set (F cap))" for x
    by (rule is_free_iff [OF F])
  let ?F = "F(?c := a # F ?c)"
  have notin: "a \<notin> set (F cap)" if "cap \<in> set mem_caps" for cap using used that by (auto simp: f)
  have F': "avail s' cap (?F cap) (T cap)" if "cap \<in> set mem_caps" for cap
  proof (cases "cap = ?c")
    case True
    have "chain (bufs s') ?c p (F ?c) (T ?c) = chain (bufs s) ?c p (F ?c) (T ?c)"
      by (rule chain_cong) (use notin [OF c] in \<open>auto simp: s'_def\<close>)
    with True ch t dist notin [OF c] show ?thesis by (auto simp: avail_def s'_def)
  next
    case False
    have "x \<noteq> a" if "x \<in> set (F cap)" for x using notin [OF \<open>cap \<in> set mem_caps\<close>] that by auto
    with False F [OF that] show ?thesis by (subst avail_cong [of _ _ s]) (auto simp: s'_def)
  qed
  have f': "is_free s' x \<longleftrightarrow> (\<exists>cap \<in> set mem_caps. x \<in> set (?F cap))" for x
    by (rule is_free_iff [OF F'])
  have "pool_inv s'"
  proof (rule pool_invI [where F = ?F and T = T])
    show "x < fresh_addr s' \<and> wf_buf b' \<and> capacity b' \<in> set mem_caps" if "bufs s' x = Some b'" for x b'
      using that pool_inv_buf [OF inv, of x] b c mem_caps_pos [OF c] pool_inv_buf [OF inv b]
      by (auto simp: s'_def wf_buf_def split: if_splits)
    show "total_mem s' < MEM_LIMIT" using inv by (simp add: s'_def pool_inv_def)
  qed (rule F')
  moreover have "is_free s' a" unfolding f' using c by (intro bexI [of _ ?c]) auto
  moreover have "is_free s' x = is_free s x" if "x \<noteq> a" for x
  proof -
    have "x \<in> set (?F cap) \<longleftrightarrow> x \<in> set (F cap)" for cap using that by auto
    then show ?thesis by (simp only: f f')
  qed
  ultimately have "revert_post a s s'" by (auto simp: revert_post_def s'_def)
  with rev show ?thesis by blast
qed

text \<open>A write through a pointer to a buffer in use does not touch the free lists.\<close>

lemma set_buf_ok:
  assumes inv: "pool_inv s" and b: "bufs s a = Some b" and used: "\<not> is_free s a"
    and wf: "wf_buf b'" and cap: "capacity b' = capacity b"
  shows "pool_inv (set_buf a b' s) \<and> is_free (set_buf a b' s) = is_free s"
proof -
  obtain F T where F: "\<And>cap. cap \<in> set mem_caps \<Longrightarrow> avail s cap (F cap) (T cap)"
    using inv by (rule pool_invD) blast
  have f: "is_free s x \<longleftrightarrow> (\<exists>cap \<in> set mem_caps. x \<in> set (F cap))" for x
    by (rule is_free_iff [OF F])
  have F': "avail (set_buf a b' s) cap (F cap) (T cap)" if "cap \<in> set mem_caps" for cap
  proof -
    have "x \<noteq> a" if "x \<in> set (F cap)" for x
      using used f \<open>cap \<in> set mem_caps\<close> that by auto
    with F [OF that] show ?thesis by (subst avail_cong [of _ _ s]) (auto simp: set_buf_def)
  qed
  have "pool_inv (set_buf a b' s)"
  proof (rule pool_invI [where F = F and T = T])
    show "x < fresh_addr (set_buf a b' s) \<and> wf_buf d \<and> capacity d \<in> set mem_caps"
      if "bufs (set_buf a b' s) x = Some d" for x d
      using that pool_inv_buf [OF inv, of x] b wf cap by (auto simp: set_buf_def split: if_splits)
    show "total_mem (set_buf a b' s) < MEM_LIMIT" using inv by (simp add: set_buf_def pool_inv_def)
  qed (rule F')
  moreover have "is_free (set_buf a b' s) = is_free s"
    using is_free_iff [OF F'] f by (intro ext) simp
  ultimately show ?thesis by simp
qed

lemma bufs_set_buf [simp]: "bufs (set_buf a b s) = (bufs s)(a \<mapsto> b)"
  by (simp add: set_buf_def)

section \<open>The pool after construction\<close>

definition heap_bounded :: "pool_st \<Rightarrow> bool" where
  "heap_bounded s \<longleftrightarrow> (\<forall>a b. bufs s a = Some b \<longrightarrow> a < fresh_addr s)"

lemma link_bufs_frame:
  "fresh_addr (link_bufs prev cap k s) = fresh_addr s + k \<and>
   free_lists (link_bufs prev cap k s) = free_lists s \<and>
   total_mem (link_bufs prev cap k s) = total_mem s \<and>
   (\<forall>x. x < fresh_addr s \<longrightarrow> x \<noteq> prev \<longrightarrow> bufs (link_bufs prev cap k s) x = bufs s x)"
proof (induction k arbitrary: prev s)
  case (Suc k)
  then show ?case
    using Suc [of "fresh_addr s" "set_next prev (Ptr (fresh_addr s)) (snd (new_io_buf cap s))"]
    by (auto simp: new_io_buf_def set_next_def Let_def)
qed simp

lemma upt_fresh: "[n..<n + Suc k] = n # [Suc n..<Suc n + k]"
  by (simp add: upt_rec)

lemma link_bufs_chain:
  assumes "heap_bounded s" and "bufs s prev = Some b" and "buf_next b = Indet" and "capacity b = cap"
    and "buf_len b = 0" and "buf_head b = 0"
  shows "chain (bufs (link_bufs prev cap k s)) cap (Ptr prev) (prev # [fresh_addr s..<fresh_addr s + k]) Indet \<and>
    heap_bounded (link_bufs prev cap k s)"
  using assms
proof (induction k arbitrary: prev s b)
  case 0
  then show ?case by simp
next
  case (Suc k)
  let ?a = "fresh_addr s"
  let ?s1 = "set_next prev (Ptr ?a) (snd (new_io_buf cap s))"
  have prev: "prev < ?a" using Suc.prems(1,2) by (auto simp: heap_bounded_def)
  have s1: "bufs ?s1 = (bufs s)(?a \<mapsto> io_buf_new (junk s ?a) cap, prev \<mapsto> b\<lparr>buf_next := Ptr ?a\<rparr>)"
    "fresh_addr ?s1 = Suc ?a"
    using prev Suc.prems(2) by (auto simp: new_io_buf_def set_next_def Let_def fun_eq_iff)
  have hb: "heap_bounded ?s1"
    using Suc.prems(1) prev by (auto simp: heap_bounded_def s1 less_SucI split: if_splits)
  have IH: "chain (bufs (link_bufs ?a cap k ?s1)) cap (Ptr ?a) (?a # [Suc ?a..<Suc ?a + k]) Indet \<and>
      heap_bounded (link_bufs ?a cap k ?s1)"
    using Suc.IH [OF hb, of ?a] prev by (simp add: s1 io_buf_new_def)
  have "bufs (link_bufs ?a cap k ?s1) prev = Some (b\<lparr>buf_next := Ptr ?a\<rparr>)"
    using link_bufs_frame [of ?a cap k ?s1] prev by (simp add: s1)
  moreover have "link_bufs prev cap (Suc k) s = link_bufs ?a cap k ?s1"
    by (simp add: new_io_buf_def Let_def)
  moreover have "[?a..<?a + Suc k] = ?a # [Suc ?a..<Suc ?a + k]" by (rule upt_fresh)
  ultimately show ?case
    using IH Suc.prems(4-6) by (simp only: chain.simps(2) [of _ _ _ prev]) simp
qed

lemma make_io_buf_list_ok:
  assumes "heap_bounded s" and "0 < num"
  shows "avail (make_io_buf_list cap num s) cap [fresh_addr s..<fresh_addr s + num] Indet \<and>
    heap_bounded (make_io_buf_list cap num s) \<and>
    fresh_addr (make_io_buf_list cap num s) = fresh_addr s + num \<and>
    free_lists (make_io_buf_list cap num s) = (free_lists s)(cap \<mapsto> Ptr (fresh_addr s)) \<and>
    total_mem (make_io_buf_list cap num s) = total_mem s + of_int (cap div 1024 * int num) \<and>
    (\<forall>x < fresh_addr s. bufs (make_io_buf_list cap num s) x = bufs s x)"
proof -
  let ?a = "fresh_addr s"
  let ?s1 = "s\<lparr>bufs := (bufs s)(?a \<mapsto> io_buf_new (junk s ?a) cap), fresh_addr := Suc ?a,
      free_lists := (free_lists s)(cap \<mapsto> Ptr ?a)\<rparr>"
  let ?s2 = "link_bufs ?a cap (num - 1) ?s1"
  have mk: "make_io_buf_list cap num s = ?s2\<lparr>total_mem := total_mem ?s2 + of_int (cap div 1024 * int num)\<rparr>"
    by (simp add: make_io_buf_list_def new_io_buf_def Let_def)
  have hb: "heap_bounded ?s1" using assms(1) by (auto simp: heap_bounded_def less_SucI)
  obtain k where k: "num = Suc k" using assms(2) by (cases num) auto
  have ch: "chain (bufs ?s2) cap (Ptr ?a) (?a # [Suc ?a..<Suc ?a + k]) Indet \<and> heap_bounded ?s2"
    using link_bufs_chain [OF hb, of ?a _ cap k] k by (simp add: io_buf_new_def del: upt_Suc)
  have lst: "[?a..<?a + num] = ?a # [Suc ?a..<Suc ?a + k]" unfolding k by (rule upt_fresh)
  have "avail (make_io_buf_list cap num s) cap [?a..<?a + num] Indet"
    unfolding avail_def lst using ch link_bufs_frame [of ?a cap "num - 1" ?s1]
    by (auto simp: mk simp del: upt_Suc)
  moreover have "heap_bounded (make_io_buf_list cap num s)"
    using ch by (auto simp: mk heap_bounded_def)
  ultimately show ?thesis
    using link_bufs_frame [of ?a cap "num - 1" ?s1] assms(2) by (auto simp: mk)
qed

text \<open>
  Running a plan of distinct classes: each class ends up with the planned number of buffers, and
  the last buffer of each list still has an uninitialised \<open>next\<close>.
\<close>

definition run_plan :: "(int \<times> nat) list \<Rightarrow> pool_st \<Rightarrow> pool_st" where
  "run_plan pl s = fold (\<lambda>(cap, num). make_io_buf_list cap num) pl s"

lemma run_plan_Cons: "run_plan ((cap, num) # pl) s = run_plan pl (make_io_buf_list cap num s)"
  by (simp add: run_plan_def)

lemma run_plan_mem:
  assumes "heap_bounded s" and "\<forall>e \<in> set pl. 0 < snd e"
  shows "heap_bounded (run_plan pl s) \<and> fresh_addr s \<le> fresh_addr (run_plan pl s) \<and>
    total_mem (run_plan pl s) = total_mem s + of_int (\<Sum>(cap, num)\<leftarrow>pl. cap div 1024 * int num) \<and>
    (\<forall>x < fresh_addr s. bufs (run_plan pl s) x = bufs s x) \<and>
    (\<forall>c. c \<notin> fst ` set pl \<longrightarrow> free_lists (run_plan pl s) c = free_lists s c)"
  using assms
proof (induction pl arbitrary: s)
  case Nil
  then show ?case by (simp add: run_plan_def)
next
  case (Cons e pl)
  obtain cap num where e: "e = (cap, num)" by (cases e)
  let ?s1 = "make_io_buf_list cap num s"
  have m: "heap_bounded ?s1" "fresh_addr ?s1 = fresh_addr s + num"
    "free_lists ?s1 = (free_lists s)(cap \<mapsto> Ptr (fresh_addr s))"
    "total_mem ?s1 = total_mem s + of_int (cap div 1024 * int num)"
    "\<forall>x < fresh_addr s. bufs ?s1 x = bufs s x"
    using make_io_buf_list_ok [OF Cons.prems(1), of num cap] Cons.prems(2) e by auto
  have IH: "heap_bounded (run_plan pl ?s1) \<and> fresh_addr ?s1 \<le> fresh_addr (run_plan pl ?s1) \<and>
    total_mem (run_plan pl ?s1) = total_mem ?s1 + of_int (\<Sum>(cap, num)\<leftarrow>pl. cap div 1024 * int num) \<and>
    (\<forall>x < fresh_addr ?s1. bufs (run_plan pl ?s1) x = bufs ?s1 x) \<and>
    (\<forall>c. c \<notin> fst ` set pl \<longrightarrow> free_lists (run_plan pl ?s1) c = free_lists ?s1 c)"
    using Cons.IH [OF m(1)] Cons.prems(2) by simp
  then show ?case
    unfolding e run_plan_Cons using m by (auto simp: add.assoc)
qed

lemma run_plan_avail:
  assumes "heap_bounded s" and "distinct (map fst pl)" and "\<forall>e \<in> set pl. 0 < snd e"
  shows "\<forall>(cap, num) \<in> set pl. \<exists>xs. avail (run_plan pl s) cap xs Indet \<and> length xs = num"
  using assms
proof (induction pl arbitrary: s)
  case Nil
  then show ?case by simp
next
  case (Cons e pl)
  obtain cap num where e: "e = (cap, num)" by (cases e)
  let ?s1 = "make_io_buf_list cap num s"
  have m: "avail ?s1 cap [fresh_addr s..<fresh_addr s + num] Indet" "heap_bounded ?s1"
    "fresh_addr ?s1 = fresh_addr s + num"
    using make_io_buf_list_ok [OF Cons.prems(1), of num cap] Cons.prems(3) e by auto
  have fr: "\<forall>x < fresh_addr ?s1. bufs (run_plan pl ?s1) x = bufs ?s1 x"
    "free_lists (run_plan pl ?s1) cap = free_lists ?s1 cap"
    using run_plan_mem [OF m(2), of pl] Cons.prems(2,3) e by (auto simp: image_iff)
  have "avail (run_plan pl ?s1) cap [fresh_addr s..<fresh_addr s + num] Indet"
    using m(1) by (subst avail_cong [of _ _ ?s1]) (use fr m(3) in auto)
  moreover have "\<forall>(cap, num) \<in> set pl. \<exists>xs. avail (run_plan pl ?s1) cap xs Indet \<and> length xs = num"
    using Cons.IH [OF m(2)] Cons.prems(2,3) by simp
  ultimately show ?case unfolding e run_plan_Cons by force
qed

text \<open>Every buffer the constructor creates is empty and of one of the classes.\<close>

definition all_empty :: "pool_st \<Rightarrow> bool" where
  "all_empty s \<longleftrightarrow>
     (\<forall>x b. bufs s x = Some b \<longrightarrow> capacity b \<in> set mem_caps \<and> buf_len b = 0 \<and> buf_head b = 0)"

lemma all_empty_new: "all_empty s \<Longrightarrow> cap \<in> set mem_caps \<Longrightarrow> all_empty (snd (new_io_buf cap s))"
  by (simp add: all_empty_def new_io_buf_def io_buf_new_def Let_def)

lemma all_empty_set_next: "all_empty s \<Longrightarrow> all_empty (set_next a p s)"
  by (auto simp: all_empty_def set_next_def)

lemma all_empty_link: "all_empty s \<Longrightarrow> cap \<in> set mem_caps \<Longrightarrow> all_empty (link_bufs prev cap k s)"
proof (induction k arbitrary: prev s)
  case (Suc k)
  then show ?case
    using all_empty_set_next [OF all_empty_new [OF Suc.prems], of prev]
    by (auto simp: split_beta)
qed simp

lemma all_empty_make: "all_empty s \<Longrightarrow> cap \<in> set mem_caps \<Longrightarrow> all_empty (make_io_buf_list cap num s)"
proof -
  assume s: "all_empty s" and cap: "cap \<in> set mem_caps"
  obtain a s1 where n: "new_io_buf cap s = (a, s1)" by (cases "new_io_buf cap s")
  with all_empty_new [OF s cap] have "all_empty (s1\<lparr>free_lists := (free_lists s1)(cap \<mapsto> Ptr a)\<rparr>)"
    by (simp add: all_empty_def)
  from all_empty_link [OF this cap, of a "num - 1"] show ?thesis
    by (simp add: make_io_buf_list_def n Let_def all_empty_def)
qed

lemma all_empty_run_plan:
  "all_empty s \<Longrightarrow> fst ` set pl \<subseteq> set mem_caps \<Longrightarrow> all_empty (run_plan pl s)"
proof (induction pl arbitrary: s)
  case Nil
  then show ?case by (simp add: run_plan_def)
next
  case (Cons e pl)
  obtain cap num where e: "e = (cap, num)" by (cases e)
  have "all_empty (make_io_buf_list cap num s)"
    using Cons.prems e by (intro all_empty_make) auto
  with Cons show ?case by (simp add: e run_plan_Cons)
qed

lemma pool_plan_caps: "fst ` set pool_plan = set mem_caps"
  by (auto simp: pool_plan_def mem_caps_def)

lemma buf_pool_init_run: "buf_pool_init j = run_plan pool_plan (empty_pool j)"
  by (simp add: buf_pool_init_def run_plan_def)

lemma empty_pool_facts: "heap_bounded (empty_pool j)" "all_empty (empty_pool j)" "total_mem (empty_pool j) = 0"
  by (simp_all add: heap_bounded_def all_empty_def empty_pool_def)

lemma pool_plan_facts: "distinct (map fst pool_plan)" "\<forall>e \<in> set pool_plan. 0 < snd e"
  "(\<Sum>(cap, num)\<leftarrow>pool_plan. cap div 1024 * int num) = 334690"
  by (simp_all add: pool_plan_def)

lemma init_avail:
  "(cap, num) \<in> set pool_plan \<Longrightarrow> \<exists>xs. avail (buf_pool_init j) cap xs Indet \<and> length xs = num"
  unfolding buf_pool_init_run
  using bspec [OF run_plan_avail [OF empty_pool_facts(1) pool_plan_facts(1,2)], of "(cap, num)"]
  by (simp only: prod.case)

lemma init_total: "total_mem (buf_pool_init j) = 334690"
proof -
  have "total_mem (buf_pool_init j) = total_mem (empty_pool j)
      + of_int (\<Sum>(cap, num)\<leftarrow>pool_plan. cap div 1024 * int num)"
    unfolding buf_pool_init_run
    using run_plan_mem [OF empty_pool_facts(1) pool_plan_facts(2), of j] by blast
  then show ?thesis unfolding pool_plan_facts(3) empty_pool_facts(3) by simp
qed

lemma init_inv: "pool_inv (buf_pool_init j)"
proof -
  have hb: "heap_bounded (buf_pool_init j)"
    using run_plan_mem [OF empty_pool_facts(1) pool_plan_facts(2)] unfolding buf_pool_init_run by blast
  have em: "all_empty (buf_pool_init j)"
    unfolding buf_pool_init_run by (rule all_empty_run_plan [OF empty_pool_facts(2)]) (simp add: pool_plan_caps)
  have "\<exists>xs t. avail (buf_pool_init j) cap xs t" if "cap \<in> set mem_caps" for cap
    using that init_avail [of cap _ j] unfolding pool_plan_caps [symmetric] by fastforce
  moreover have "x < fresh_addr (buf_pool_init j) \<and> wf_buf b \<and> capacity b \<in> set mem_caps"
    if "bufs (buf_pool_init j) x = Some b" for x b
    using that hb em mem_caps_pos [of "capacity b"] by (auto simp: heap_bounded_def all_empty_def wf_buf_def)
  moreover have "total_mem (buf_pool_init j) < MEM_LIMIT" by (simp add: init_total MEM_LIMIT_def)
  ultimately show ?thesis unfolding pool_inv_def by blast
qed

section \<open>Draining a class\<close>

text \<open>\<open>k\<close> allocations of size \<open>N\<close> with no return in between.\<close>

fun alloc_times :: "nat \<Rightarrow> int \<Rightarrow> pool_st \<Rightarrow> pool_st res" where
  "alloc_times 0 N s = Inr s"
| "alloc_times (Suc k) N s = rbind (alloc_buf N s) (\<lambda>(p, s'). alloc_times k N s')"

lemma alloc_buf_Cons:
  assumes "alloc_index N = Some c" and "avail s c (a # as) t"
  shows "\<exists>s'. alloc_buf N s = Inr (Ptr a, s') \<and> avail s' c as t"
proof -
  obtain b where b: "bufs s a = Some b" and h: "pool_head s c = Ptr a"
    and ch: "chain (bufs s) c (buf_next b) as t" and d: "a \<notin> set as" "distinct as" "t = NULL \<or> t = Indet"
    using assms(2) by (auto simp: avail_def pool_head_def split: option.splits)
  let ?s' = "s\<lparr>free_lists := (free_lists s)(c \<mapsto> buf_next b), bufs := (bufs s)(a \<mapsto> b\<lparr>buf_next := NULL\<rparr>)\<rparr>"
  have "chain (bufs ?s') c (buf_next b) as t = chain (bufs s) c (buf_next b) as t"
    by (rule chain_cong) (use d in auto)
  with ch d have "avail ?s' c as t" by (simp add: avail_def)
  with assms(1) b h show ?thesis by (auto simp: alloc_buf_def)
qed

lemma alloc_times_drain:
  assumes "alloc_index N = Some c" and "avail s c xs t"
  shows "\<exists>s'. alloc_times (length xs) N s = Inr s' \<and> avail s' c [] t"
  using assms(2)
proof (induction xs arbitrary: s)
  case (Cons a as)
  obtain s1 where s1: "alloc_buf N s = Inr (Ptr a, s1)" "avail s1 c as t"
    using alloc_buf_Cons [OF assms(1) Cons.prems] by blast
  with Cons.IH [OF s1(2)] show ?case by auto
qed auto

lemma alloc_buf_Nil_Indet:
  "alloc_index N = Some c \<Longrightarrow> avail s c [] Indet \<Longrightarrow> alloc_buf N s = Inl UninitRead"
  by (auto simp: alloc_buf_def avail_def pool_head_def)

section \<open>The pool provides the allocator contract\<close>

interpretation pool: buf_allocator alloc_buf revert set_buf bufs is_free pool_inv
proof unfold_locales
  fix n s p s' assume "alloc_buf n s = Inr (p, s')"
  then show "(\<exists>a. p = Ptr a) \<or> p = NULL \<and> s' = s \<and> 8388608 < n" by (rule alloc_buf_ptr)
next
  fix s n a s' assume "pool_inv s" "alloc_buf n s = Inr (Ptr a, s')"
  then have post: "alloc_post n s a s'" by (rule alloc_buf_Ptr)
  then show "pool_inv s'" by (simp add: alloc_post_def)
  obtain b where b: "bufs s' a = Some b" "buf_len b = 0" "buf_head b = 0" "alloc_index n = Some (capacity b)"
    using post by (auto simp: alloc_post_def)
  then show "\<exists>b. bufs s' a = Some b \<and> wf_buf b \<and> buf_len b = 0 \<and> buf_head b = 0 \<and> n \<le> capacity b"
    using alloc_index_Some [OF b(4)] mem_caps_pos [of "capacity b"] by (auto simp: wf_buf_def)
  show "\<not> is_free s' a \<and> (bufs s a = None \<or> is_free s a)" using post by (simp add: alloc_post_def)
next
  fix s n a s' x assume "pool_inv s" "alloc_buf n s = Inr (Ptr a, s')" "x \<noteq> a"
  then show "bufs s' x = bufs s x \<and> is_free s' x = is_free s x"
    using alloc_buf_Ptr [of s n a s'] by (auto simp: alloc_post_def)
next
  fix s a b assume "pool_inv s" "bufs s a = Some b" "\<not> is_free s a"
  then show "\<exists>s'. revert a s = Inr s' \<and> pool_inv s' \<and> is_free s' a \<and>
      (\<forall>x. x \<noteq> a \<longrightarrow> bufs s' x = bufs s x \<and> is_free s' x = is_free s x)"
    using revert_ok unfolding revert_post_def by blast
next
  fix s a b b' x
  assume "pool_inv s" "bufs s a = Some b" "\<not> is_free s a" "wf_buf b'" "capacity b' = capacity b"
  then show "pool_inv (set_buf a b' s) \<and> is_free (set_buf a b' s) x = is_free s x"
    by (simp add: set_buf_ok)
next
  fix s a b assume "pool_inv s" "bufs s a = Some b"
  then show "wf_buf b" using pool_inv_buf by blast
qed simp

section \<open>Reachable pools\<close>

text \<open>
  What can happen to the pool after construction: an allocation, the return of a buffer that is in
  use, a write through a held pointer.
\<close>

inductive pool_reach :: "(addr \<Rightarrow> int \<Rightarrow> u8) \<Rightarrow> pool_st \<Rightarrow> bool" for j where
  reach_init: "pool_reach j (buf_pool_init j)"
| reach_alloc: "pool_reach j s \<Longrightarrow> alloc_buf N s = Inr (Ptr a, s') \<Longrightarrow> pool_reach j s'"
| reach_revert: "pool_reach j s \<Longrightarrow> bufs s a = Some b \<Longrightarrow> \<not> is_free s a \<Longrightarrow> revert a s = Inr s' \<Longrightarrow>
    pool_reach j s'"
| reach_write: "pool_reach j s \<Longrightarrow> bufs s a = Some b \<Longrightarrow> \<not> is_free s a \<Longrightarrow> wf_buf b' \<Longrightarrow>
    capacity b' = capacity b \<Longrightarrow> pool_reach j (set_buf a b' s)"

text \<open>The invariant that makes growth unreachable: every free list still ends with the pointer value
  its last buffer was constructed with.\<close>

definition tails_indet :: "pool_st \<Rightarrow> bool" where
  "tails_indet s \<longleftrightarrow> (\<forall>cap \<in> set mem_caps. \<exists>xs. avail s cap xs Indet)"

lemma tails_indet_init: "tails_indet (buf_pool_init j)"
  unfolding tails_indet_def
proof
  fix cap assume "cap \<in> set mem_caps"
  then obtain num where "(cap, num) \<in> set pool_plan" unfolding pool_plan_caps [symmetric] by auto
  from init_avail [OF this, of j] show "\<exists>xs. avail (buf_pool_init j) cap xs Indet" by blast
qed

lemma tails_indet_alloc:
  assumes "tails_indet s" and al: "alloc_buf N s = Inr (Ptr a, s')"
  shows "tails_indet s' \<and> total_mem s' = total_mem s"
proof -
  obtain c where c: "alloc_index N = Some c" "c \<in> set mem_caps"
    using al alloc_index_Some by (cases "alloc_index N") (auto simp: alloc_buf_def)
  obtain xs where xs: "avail s c xs Indet" using assms(1) c unfolding tails_indet_def by blast
  have "xs \<noteq> []" using alloc_buf_Nil_Indet [OF c(1)] xs al by auto
  then obtain as where as: "xs = a # as" "avail s' c as Indet"
    using alloc_buf_Cons [OF c(1)] xs al by (cases xs) fastforce+
  obtain b where s': "s' = s\<lparr>free_lists := (free_lists s)(c \<mapsto> buf_next b),
      bufs := (bufs s)(a \<mapsto> b\<lparr>buf_next := NULL\<rparr>)\<rparr>"
    using xs al c(1) as(1) by (auto simp: alloc_buf_def avail_def pool_head_def split: option.splits)
  have "\<exists>ys. avail s' cap ys Indet" if cap: "cap \<in> set mem_caps" for cap
  proof (cases "cap = c")
    case False
    obtain ys where ys: "avail s cap ys Indet" using assms(1) cap unfolding tails_indet_def by blast
    have "x \<noteq> a" if "x \<in> set ys" for x using avail_disjoint [OF ys xs, of x] that False as(1) by auto
    with False have "avail s' cap ys Indet = avail s cap ys Indet"
      by (intro avail_cong) (auto simp: s')
    with ys show ?thesis by blast
  qed (use as in blast)
  then show ?thesis by (simp add: tails_indet_def s')
qed

lemma tails_indet_revert:
  assumes inv: "pool_inv s" and "tails_indet s" and b: "bufs s a = Some b" and used: "\<not> is_free s a"
    and rev: "revert a s = Inr s'"
  shows "tails_indet s' \<and> total_mem s' = total_mem s"
proof -
  let ?c = "capacity b"
  have c: "?c \<in> set mem_caps" using pool_inv_buf [OF inv b] by simp
  obtain p where p: "free_lists s ?c = Some p"
    and s': "s' = s\<lparr>bufs := (bufs s)(a \<mapsto> b\<lparr>buf_len := 0, buf_head := 0, buf_next := p\<rparr>),
      free_lists := (free_lists s)(?c \<mapsto> Ptr a)\<rparr>"
    using rev b by (auto simp: revert_def Let_def split: option.splits)
  have "\<exists>ys. avail s' cap ys Indet" if cap: "cap \<in> set mem_caps" for cap
  proof -
    obtain ys where ys: "avail s cap ys Indet" using assms(2) cap unfolding tails_indet_def by blast
    have notin: "a \<notin> set ys" using used ys cap unfolding is_free_def by blast
    show ?thesis
    proof (cases "cap = ?c")
      case True
      have "chain (bufs s') cap p ys Indet = chain (bufs s) cap p ys Indet"
        by (rule chain_cong) (use notin in \<open>auto simp: s'\<close>)
      with ys True p notin have "avail s' cap (a # ys) Indet" by (auto simp: avail_def s')
      then show ?thesis by blast
    next
      case False
      with notin have "avail s' cap ys Indet = avail s cap ys Indet"
        by (intro avail_cong) (auto simp: s')
      with ys show ?thesis by blast
    qed
  qed
  then show ?thesis by (simp add: tails_indet_def s')
qed

lemma tails_indet_set_buf:
  assumes "tails_indet s" and "\<not> is_free s a"
  shows "tails_indet (set_buf a b s) \<and> total_mem (set_buf a b s) = total_mem s"
proof -
  have "avail (set_buf a b s) cap ys Indet = avail s cap ys Indet"
    if "cap \<in> set mem_caps" "avail s cap ys Indet" for cap ys
    using assms(2) that by (intro avail_cong) (auto simp: set_buf_def is_free_def)
  with assms(1) have "tails_indet (set_buf a b s)" unfolding tails_indet_def by blast
  then show ?thesis by (simp add: set_buf_def)
qed

lemma pool_reach_ok: "pool_reach j s \<Longrightarrow> pool_inv s \<and> tails_indet s \<and> total_mem s = 334690"
proof (induction rule: pool_reach.induct)
  case reach_init
  show ?case using init_inv tails_indet_init init_total by blast
next
  case (reach_alloc s N a s')
  then show ?case using pool.alloc_inv [of s N a s'] tails_indet_alloc [of s N a s'] by simp
next
  case (reach_revert s a b s')
  then show ?case
    using revert_ok [of s a b] tails_indet_revert [of s a b s'] by (auto simp: revert_post_def)
next
  case (reach_write s a b b')
  then show ?case using set_buf_ok [of s a b b'] tails_indet_set_buf [of s a b'] by simp
qed

section \<open>Properties\<close>

text \<open>
  \<open>alloc_buf(N)\<close> on a well-formed pool, for every size the pool serves. It returns an empty buffer of the
  smallest class that holds \<open>N\<close>, which no free list holds afterwards and which nobody held before,
  leaves every other buffer and free list membership alone and keeps the pool well-formed; or the
  class is exhausted, and then it either exits because the accounting would reach \<open>MEM_LIMIT\<close> or it
  has come upon an uninitialised link.
\<close>

theorem alloc_buf_spec:
  assumes "pool_inv s" and "N \<le> 8388608"
  shows "case alloc_buf N s of
      Inr (p, s') \<Rightarrow>
        (\<exists>a b. p = Ptr a \<and> bufs s' a = Some b \<and> content b = [] \<and> N \<le> capacity b \<and>
           (\<forall>c \<in> set mem_caps. N \<le> c \<longrightarrow> capacity b \<le> c) \<and>
           \<not> is_free s' a \<and> (bufs s a = None \<or> is_free s a) \<and> pool_inv s' \<and>
           (\<forall>x. x \<noteq> a \<longrightarrow> bufs s' x = bufs s x \<and> is_free s' x = is_free s x))
    | Inl e \<Rightarrow>
        (\<exists>c. alloc_index N = Some c \<and>
           (e = UninitRead \<and> avail s c [] Indet \<or>
            e = Exit 1 \<and> avail s c [] NULL \<and> MEM_LIMIT \<le> total_mem s + of_int (c div 1024)))"
proof (cases "alloc_buf N s")
  case (Inl e)
  with alloc_buf_Inl [OF assms(1)] show ?thesis by simp
next
  case (Inr r)
  obtain p s' where r: "r = (p, s')" by (cases r)
  with alloc_buf_ptr [of N s p s'] assms(2) Inr obtain a where p: "p = Ptr a" by auto
  have post: "alloc_post N s a s'" using alloc_buf_Ptr [OF assms(1)] Inr r p by simp
  then obtain b where b: "bufs s' a = Some b" "buf_len b = 0" "alloc_index N = Some (capacity b)"
    by (auto simp: alloc_post_def)
  then have "content b = []" "N \<le> capacity b" "\<forall>c \<in> set mem_caps. N \<le> c \<longrightarrow> capacity b \<le> c"
    using alloc_index_Some [OF b(3)] by (auto simp: content_def)
  with post b r p show ?thesis unfolding Inr alloc_post_def by auto
qed

text \<open>A pool with no buffer left in any class: the state in which \<open>alloc_buf\<close> must grow.\<close>

definition drained_pool :: pool_st where
  "drained_pool = (empty_pool (\<lambda>_ _. 0))\<lparr>free_lists := (\<lambda>c. if c \<in> set mem_caps then Some NULL else None)\<rparr>"

lemma drained_pool_inv: "pool_inv drained_pool"
  unfolding pool_inv_def
proof (intro conjI ballI allI impI)
  fix cap assume "cap \<in> set mem_caps"
  then have "avail drained_pool cap [] NULL" by (simp add: avail_def drained_pool_def)
  then show "\<exists>xs t. avail drained_pool cap xs t" by blast
qed (simp_all add: drained_pool_def empty_pool_def MEM_LIMIT_def)

lemma alloc_buf_spec_witness:
  "\<exists>s'. alloc_buf 5000 drained_pool = Inr (Ptr 0, s') \<and> \<not> is_free s' 0 \<and> pool_inv s'"
proof -
  obtain s' where s': "alloc_buf 5000 drained_pool = Inr (Ptr 0, s')"
    by (simp add: alloc_buf_def alloc_index_def pool_head_def drained_pool_def mem_caps_def
        new_io_buf_def empty_pool_def MEM_LIMIT_def)
  with alloc_buf_spec [OF drained_pool_inv, of 5000] show ?thesis by auto
qed

text \<open>
  Returning the buffer that \<open>alloc_buf\<close> has just taken from a free list restores the pool exactly,
  so the free lists are stacks.
\<close>

theorem alloc_revert_roundtrip:
  assumes "pool_inv s" and "alloc_index N = Some c" and "pool_head s c \<noteq> NULL"
    and "alloc_buf N s = Inr (Ptr a, s')"
  shows "revert a s' = Inr s"
proof -
  obtain b where b: "bufs s a = Some b" and hd: "pool_head s c = Ptr a"
    and s': "s' = s\<lparr>free_lists := (free_lists s)(c \<mapsto> buf_next b), bufs := (bufs s)(a \<mapsto> b\<lparr>buf_next := NULL\<rparr>)\<rparr>"
    using assms(2-4) by (auto simp: alloc_buf_def split: ptr.splits option.splits)
  obtain xs t where av: "avail s c xs t"
    using assms(1) alloc_index_Some [OF assms(2)] unfolding pool_inv_def by blast
  then have "xs \<noteq> []" "hd xs = a" using hd by (cases xs; auto simp: avail_def pool_head_def)+
  then have bc: "capacity b = c" "buf_len b = 0" "buf_head b = 0"
    using avail_mem [OF av, of a] b by (cases xs; auto)+
  have fl: "free_lists s c = Some (Ptr a)"
    using av hd by (auto simp: avail_def pool_head_def)
  show ?thesis using bc b fl by (simp add: revert_def s' Let_def fun_upd_idem)
qed

lemma alloc_revert_roundtrip_witness:
  "\<exists>a s'. alloc_buf 100 (buf_pool_init (\<lambda>_ _. 0)) = Inr (Ptr a, s') \<and>
     revert a s' = Inr (buf_pool_init (\<lambda>_ _. 0))"
proof -
  let ?s = "buf_pool_init (\<lambda>_ _. 0)"
  obtain xs where xs: "avail ?s 4096 xs Indet" "length xs = 5000"
    using init_avail [of 4096 5000] by (auto simp: pool_plan_def)
  then obtain a as where as: "xs = a # as" by (cases xs) auto
  have idx: "alloc_index 100 = Some 4096" by (simp add: alloc_index_def)
  obtain s' where s': "alloc_buf 100 ?s = Inr (Ptr a, s')"
    using alloc_buf_Cons [OF idx xs(1) [unfolded as]] by blast
  have "pool_head ?s 4096 \<noteq> NULL" using xs(1) as by (auto simp: avail_def pool_head_def)
  from alloc_revert_roundtrip [OF init_inv idx this s'] s' show ?thesis by blast
qed

text \<open>
  The constructor builds a well-formed pool: every class of \<open>MEM_CAP\<close> holds exactly the planned
  number of buffers, the accounted memory is 334690 KB, and the last buffer of every list has an
  uninitialised \<open>next\<close>.
\<close>

theorem buf_pool_init_ok:
  "pool_inv (buf_pool_init j) \<and> total_mem (buf_pool_init j) = 334690 \<and>
   fst ` set pool_plan = set mem_caps \<and>
   (\<forall>(cap, num) \<in> set pool_plan. \<exists>xs. avail (buf_pool_init j) cap xs Indet \<and> length xs = num)"
  using init_inv [of j] init_total [of j] init_avail [of _ _ j] pool_plan_caps by auto

lemma buf_pool_init_ok_witness:
  "pool_inv (buf_pool_init (\<lambda>_ _. 7)) \<and>
   (\<exists>xs. avail (buf_pool_init (\<lambda>_ _. 7)) 8388608 xs Indet \<and> length xs = 10)"
proof -
  have "(8388608, 10) \<in> set pool_plan" by (simp add: pool_plan_def)
  with buf_pool_init_ok [of "\<lambda>_ _. 7"] show ?thesis by fastforce
qed

text \<open>
  Taking all buffers of a class from the constructed pool succeeds as many times as planned, and
  the next request of that class reads the link of the last buffer, which nothing has initialised;
  the growth path of \<open>alloc_buf\<close> is not taken.
\<close>

theorem pool_exhaustion:
  assumes "(cap, num) \<in> set pool_plan" and "alloc_index N = Some cap"
  shows "\<exists>s'. alloc_times num N (buf_pool_init j) = Inr s' \<and> alloc_buf N s' = Inl UninitRead"
proof -
  obtain xs where xs: "avail (buf_pool_init j) cap xs Indet" "length xs = num"
    using init_avail [OF assms(1)] by blast
  then obtain s' where "alloc_times num N (buf_pool_init j) = Inr s'" "avail s' cap [] Indet"
    using alloc_times_drain [OF assms(2) xs(1)] by blast
  then show ?thesis using alloc_buf_Nil_Indet [OF assms(2)] by blast
qed

lemma pool_exhaustion_witness:
  "\<exists>s'. alloc_times 5000 1 (buf_pool_init (\<lambda>_ _. 0)) = Inr s' \<and> alloc_buf 1 s' = Inl UninitRead"
  by (rule pool_exhaustion [of 4096 5000 1]) (simp_all add: pool_plan_def alloc_index_def)

text \<open>
  In every reachable pool the accounted memory is still what the constructor set, so neither the
  growth path of \<open>alloc_buf\<close> nor its \<open>exit(1)\<close> on \<open>MEM_LIMIT\<close> is ever taken; a request either is served
  from a free list, is too large, or meets the uninitialised link.
\<close>

theorem pool_never_grows:
  assumes "pool_reach j s"
  shows "total_mem s = 334690 \<and> pool_inv s \<and> alloc_buf N s \<noteq> Inl (Exit 1) \<and>
    (\<forall>a s'. alloc_buf N s = Inr (Ptr a, s') \<longrightarrow> is_free s a \<and> total_mem s' = total_mem s)"
proof -
  have ok: "pool_inv s" "tails_indet s" "total_mem s = 334690" using pool_reach_ok [OF assms] by auto
  have "alloc_buf N s \<noteq> Inl (Exit 1)"
  proof
    assume "alloc_buf N s = Inl (Exit 1)"
    then obtain c where c: "alloc_index N = Some c" "avail s c [] NULL"
      using alloc_buf_Inl [OF ok(1)] by blast
    then obtain ys where "avail s c ys Indet"
      using ok(2) alloc_index_Some [OF c(1)] unfolding tails_indet_def by blast
    with c(2) avail_det show False by blast
  qed
  moreover have "is_free s a \<and> total_mem s' = total_mem s" if al: "alloc_buf N s = Inr (Ptr a, s')" for a s'
  proof -
    obtain c where c: "alloc_index N = Some c" "c \<in> set mem_caps"
      using al alloc_index_Some by (cases "alloc_index N") (auto simp: alloc_buf_def)
    obtain xs where xs: "avail s c xs Indet" using ok(2) c unfolding tails_indet_def by blast
    have "xs \<noteq> []" using alloc_buf_Nil_Indet [OF c(1)] xs al by auto
    then have "a \<in> set xs" using alloc_buf_Cons [OF c(1)] xs al by (cases xs) fastforce+
    with xs c(2) have "is_free s a" unfolding is_free_def by blast
    with tails_indet_alloc [OF ok(2) al] show ?thesis by simp
  qed
  ultimately show ?thesis using ok by blast
qed

lemma pool_never_grows_witness:
  "pool_reach (\<lambda>_ _. 0) (buf_pool_init (\<lambda>_ _. 0)) \<and>
   alloc_buf 5000 (buf_pool_init (\<lambda>_ _. 0)) \<noteq> Inl (Exit 1)"
  using pool_never_grows [OF reach_init, of "\<lambda>_ _. 0" 5000] reach_init by blast

end
