(* ===== verification/Reactor_Buf.thy ===== *)
theory Reactor_Buf
  imports Buf_Pool
begin

text \<open>
  \<open>reactor_buf\<close>, \<open>input_buf\<close> and \<open>output_buf\<close> (\<open>lars_reactors/include/reactor_buf.h\<close>,
  \<open>src/reactor_buf.cpp\<close>): a connection's buffer is a pointer to an \<open>io_buf\<close> of the pool, or \<open>NULL\<close>.
  System calls are the environment: \<open>ioctl(FIONREAD)\<close>, \<open>read\<close> and \<open>write\<close> return what a list of
  outcomes supplies; \<open>Blocked\<close> means that the list has run out while the call still retries.
\<close>

datatype rd_ret = Rd "u8 list" | RdEintr | RdErr   \<comment> \<open>\<open>read\<close>: the bytes (none at end of file), or an error\<close>
datatype wr_ret = Wr int | WrEintr | WrEagain | WrErr

section \<open>\<open>reactor_buf\<close>\<close>

definition deref :: "pool_st \<Rightarrow> ptr \<Rightarrow> io_buf res" where
  "deref s p =
     (case p of
        NULL \<Rightarrow> Inl NullDeref
      | Indet \<Rightarrow> Inl UninitRead
      | Ptr a \<Rightarrow> (case bufs s a of None \<Rightarrow> Inl UseAfterFree | Some b \<Rightarrow> Inr b))"

definition put :: "ptr \<Rightarrow> io_buf \<Rightarrow> pool_st \<Rightarrow> pool_st" where
  "put p b s = (case p of Ptr a \<Rightarrow> set_buf a b s | _ \<Rightarrow> s)"

definition rb_length :: "ptr \<Rightarrow> pool_st \<Rightarrow> int res" where
  "rb_length p s = (if p \<noteq> NULL then rbind (deref s p) (\<lambda>b. Inr (buf_len b)) else Inr 0)"

definition rb_clear :: "ptr \<Rightarrow> pool_st \<Rightarrow> (ptr \<times> pool_st) res" where
  "rb_clear p s =
     (case p of
        NULL \<Rightarrow> Inr (NULL, s)
      | Indet \<Rightarrow> Inl UninitRead
      | Ptr a \<Rightarrow> rbind (revert a s) (\<lambda>s'. Inr (NULL, s')))"

definition rb_pop :: "int \<Rightarrow> ptr \<Rightarrow> pool_st \<Rightarrow> (ptr \<times> pool_st) res" where
  "rb_pop len p s =
     (if p = NULL then Inl AssertFail
      else rbind (deref s p) (\<lambda>b.
        if \<not> len \<le> buf_len b then Inl AssertFail
        else let b' = io_buf_pop b len; s' = put p b' s
             in if buf_len b' = 0 then rb_clear p s' else Inr (p, s')))"

section \<open>Making room\<close>

text \<open>
  The first half of \<open>read_data\<close> and of \<open>send_data\<close>, which is the same code: get a buffer with room for
  \<open>need\<close> more bytes, moving the data to a larger buffer if the current one is too small. It is
  written over the operations of the allocator; the result is whether a buffer could be had.
\<close>

definition reserve_with ::
  "(int \<Rightarrow> 's \<Rightarrow> (ptr \<times> 's) res) \<Rightarrow> (addr \<Rightarrow> 's \<Rightarrow> 's res) \<Rightarrow> (addr \<Rightarrow> io_buf \<Rightarrow> 's \<Rightarrow> 's) \<Rightarrow>
   ('s \<Rightarrow> addr \<Rightarrow> io_buf option) \<Rightarrow> int \<Rightarrow> ptr \<Rightarrow> 's \<Rightarrow> (bool \<times> ptr \<times> 's) res" where
  "reserve_with alloc give_back write_buf lookup need p s =
     (case p of
        NULL \<Rightarrow> rbind (alloc need s) (\<lambda>(q, s1). Inr (q \<noteq> NULL, q, s1))
      | Indet \<Rightarrow> Inl UninitRead
      | Ptr a \<Rightarrow>
          (case lookup s a of
             None \<Rightarrow> Inl UseAfterFree
           | Some b \<Rightarrow>
               if buf_head b \<noteq> 0 then Inl AssertFail
               else if capacity b - buf_len b < need then
                 rbind (cint_add need (buf_len b)) (\<lambda>n.
                 rbind (alloc n s) (\<lambda>(q, s1).
                   case q of
                     NULL \<Rightarrow> Inr (False, p, s1)
                   | Indet \<Rightarrow> Inl UninitRead
                   | Ptr a1 \<Rightarrow>
                       (case (lookup s1 a1, lookup s1 a) of
                          (Some nb, Some ob) \<Rightarrow>
                            rbind (io_buf_copy nb ob) (\<lambda>nb'.
                            rbind (give_back a (write_buf a1 nb' s1)) (\<lambda>s2. Inr (True, q, s2)))
                        | _ \<Rightarrow> Inl UseAfterFree)))
               else Inr (True, p, s)))"

definition reserve :: "int \<Rightarrow> ptr \<Rightarrow> pool_st \<Rightarrow> (bool \<times> ptr \<times> pool_st) res" where
  "reserve = reserve_with alloc_buf revert set_buf bufs"

section \<open>\<open>output_buf\<close>\<close>

definition send_data :: "u8 list \<Rightarrow> ptr \<Rightarrow> pool_st \<Rightarrow> (int \<times> ptr \<times> pool_st) res" where
  "send_data data p s =
     rbind (reserve (int (length data)) p s) (\<lambda>(ok, q, s1).
       if \<not> ok then Inr (- 1, q, s1)
       else rbind (deref s1 q) (\<lambda>b.
            rbind (buf_write b (buf_len b) data) (\<lambda>b1.
              Inr (0, q, put q (b1\<lparr>buf_len := buf_len b + int (length data)\<rparr>) s1))))"

text \<open>The retry loop on \<open>EINTR\<close>, and \<open>write2fd\<close>; the outcomes not used are returned.\<close>

fun write_retry :: "wr_ret list \<Rightarrow> (wr_ret \<times> wr_ret list) res" where
  "write_retry [] = Inl Blocked"
| "write_retry (WrEintr # ws) = write_retry ws"
| "write_retry (w # ws) = Inr (w, ws)"

definition write2fd :: "wr_ret list \<Rightarrow> ptr \<Rightarrow> pool_st \<Rightarrow> (int \<times> wr_ret list \<times> pool_st) res" where
  "write2fd ws p s =
     (if p = NULL then Inl AssertFail
      else rbind (deref s p) (\<lambda>b.
        if buf_head b \<noteq> 0 then Inl AssertFail
        else rbind (write_retry ws) (\<lambda>(w, ws').
          case w of
            Wr n \<Rightarrow>
              (if 0 < n then rbind (io_buf_adjust (io_buf_pop b n)) (\<lambda>b'. Inr (n, ws', put p b' s))
               else Inr (n, ws', s))
          | WrEagain \<Rightarrow> Inr (0, ws', s)
          | _ \<Rightarrow> Inr (- 1, ws', s))))"

section \<open>\<open>input_buf\<close>\<close>

fun read_retry :: "rd_ret list \<Rightarrow> (rd_ret \<times> rd_ret list) res" where
  "read_retry [] = Inl Blocked"
| "read_retry (RdEintr # rs) = read_retry rs"
| "read_retry (r # rs) = Inr (r, rs)"

text \<open>\<open>fionread\<close> is what \<open>ioctl\<close> stores in \<open>need_read\<close>, \<open>None\<close> if it fails.\<close>

definition read_data ::
  "int option \<Rightarrow> rd_ret list \<Rightarrow> ptr \<Rightarrow> pool_st \<Rightarrow> (int \<times> rd_ret list \<times> ptr \<times> pool_st) res" where
  "read_data fionread rs p s =
     (case fionread of
        None \<Rightarrow> Inr (- 1, rs, p, s)
      | Some need_read \<Rightarrow>
          rbind (reserve need_read p s) (\<lambda>(ok, q, s1).
            if \<not> ok then Inr (- 1, rs, q, s1)
            else rbind (deref s1 q) (\<lambda>b.
                 rbind (read_retry rs) (\<lambda>(r, rs').
                   case r of
                     Rd bs \<Rightarrow>
                       rbind (buf_write b (buf_len b) bs) (\<lambda>b1.
                         if bs = [] then Inr (0, rs', q, s1)
                         else if need_read \<noteq> 0 \<and> int (length bs) \<noteq> need_read then Inl AssertFail
                         else Inr (int (length bs), rs', q,
                                put q (b1\<lparr>buf_len := buf_len b + int (length bs)\<rparr>) s1))
                   | _ \<Rightarrow> Inr (- 1, rs', q, s1)))))"

text \<open>What \<open>read\<close> is asked for, hence the most it returns.\<close>

definition read_count :: "int \<Rightarrow> int" where
  "read_count need_read = (if need_read = 0 then 4096 else need_read)"

definition rb_adjust :: "ptr \<Rightarrow> pool_st \<Rightarrow> pool_st res" where
  "rb_adjust p s =
     (if p \<noteq> NULL then rbind (deref s p) (\<lambda>b. rbind (io_buf_adjust b) (\<lambda>b'. Inr (put p b' s)))
      else Inr s)"

text \<open>\<open>input_buf::data()\<close>: \<open>None\<close> for \<open>NULL\<close>, else the bytes readable from the returned address.\<close>

definition rb_data :: "ptr \<Rightarrow> pool_st \<Rightarrow> u8 list option res" where
  "rb_data p s = (if p \<noteq> NULL then rbind (deref s p) (\<lambda>b. Inr (Some (content b))) else Inr None)"

section \<open>What holding a buffer means\<close>

text \<open>
  \<open>rb_holds s p d\<close>: the buffer at \<open>p\<close> is out of the pool and its unread bytes are \<open>d\<close> (\<open>NULL\<close> holds no
  bytes). \<open>rb_ready\<close>: its window starts at the front, as \<open>reserve\<close> and \<open>write2fd\<close> assert.
  \<open>others_kept s p s' q\<close>: every other held buffer is untouched, and \<open>q\<close> is none of them; and nothing is held
  that was not, but \<open>q\<close>, so that \<open>p\<close>, if it is another buffer, has gone back to the pool.
\<close>

definition rb_holds :: "pool_st \<Rightarrow> ptr \<Rightarrow> u8 list \<Rightarrow> bool" where
  "rb_holds s p d \<longleftrightarrow>
     p = NULL \<and> d = [] \<or> (\<exists>a b. p = Ptr a \<and> bufs s a = Some b \<and> \<not> is_free s a \<and> content b = d)"

definition rb_ready :: "pool_st \<Rightarrow> ptr \<Rightarrow> bool" where
  "rb_ready s p \<longleftrightarrow> (\<forall>a b. p = Ptr a \<longrightarrow> bufs s a = Some b \<longrightarrow> buf_head b = 0)"

definition others_kept :: "pool_st \<Rightarrow> ptr \<Rightarrow> pool_st \<Rightarrow> ptr \<Rightarrow> bool" where
  "others_kept s p s' q \<longleftrightarrow>
     (\<forall>x b. bufs s x = Some b \<longrightarrow> \<not> is_free s x \<longrightarrow> Ptr x \<noteq> p \<longrightarrow>
        bufs s' x = Some b \<and> \<not> is_free s' x \<and> Ptr x \<noteq> q) \<and>
     (\<forall>x b'. bufs s' x = Some b' \<longrightarrow> \<not> is_free s' x \<longrightarrow> Ptr x \<noteq> q \<longrightarrow>
        (\<exists>b. bufs s x = Some b) \<and> \<not> is_free s x \<and> Ptr x \<noteq> p)"

lemma others_kept_refl [simp]: "others_kept s p s p"
  by (simp add: others_kept_def)

lemma others_keptD:
  assumes "others_kept s p s' q"
  shows "\<lbrakk>bufs s x = Some b; \<not> is_free s x; Ptr x \<noteq> p\<rbrakk> \<Longrightarrow> bufs s' x = Some b \<and> \<not> is_free s' x \<and> Ptr x \<noteq> q"
    and "\<lbrakk>bufs s' x = Some b'; \<not> is_free s' x; Ptr x \<noteq> q\<rbrakk> \<Longrightarrow> (\<exists>b. bufs s x = Some b) \<and> \<not> is_free s x \<and> Ptr x \<noteq> p"
  using assms unfolding others_kept_def by blast+

lemma others_kept_trans: "others_kept s p s1 q \<Longrightarrow> others_kept s1 q s2 r \<Longrightarrow> others_kept s p s2 r"
  unfolding others_kept_def by metis

lemma rb_holds_NULL [simp]: "rb_holds s NULL d \<longleftrightarrow> d = []"
  by (simp add: rb_holds_def)

lemma rb_ready_NULL [simp]: "rb_ready s NULL"
  by (simp add: rb_ready_def)

lemma rb_holds_Ptr:
  "rb_holds s (Ptr a) d \<longleftrightarrow> (\<exists>b. bufs s a = Some b \<and> \<not> is_free s a \<and> content b = d)"
  by (simp add: rb_holds_def)

lemma rb_holds_unique: "rb_holds s p d \<Longrightarrow> rb_holds s p d' \<Longrightarrow> d = d'"
  by (auto simp: rb_holds_def)

lemma rb_holds_other: "others_kept s p s' q \<Longrightarrow> rb_holds s r d \<Longrightarrow> r \<noteq> p \<or> r = NULL \<Longrightarrow> rb_holds s' r d"
  by (cases r) (auto simp: rb_holds_def dest: others_keptD(1))

lemma rb_ready_other:
  "others_kept s p s' q \<Longrightarrow> rb_holds s r d \<Longrightarrow> rb_ready s r \<Longrightarrow> r \<noteq> p \<or> r = NULL \<Longrightarrow> rb_ready s' r"
  by (cases r) (auto simp: rb_holds_def rb_ready_def dest: others_keptD(1))

section \<open>Making room, from the allocator's laws alone\<close>

context buf_allocator begin

lemma reserve_NULL:
  assumes "inv s" and "reserve_with alloc give_back write_buf lookup need NULL s = Inr (ok, q, s')"
  shows "if ok then \<exists>a b. q = Ptr a \<and> held s' a b \<and> inv s' \<and> wf_buf b \<and> buf_head b = 0 \<and> buf_len b = 0 \<and>
      need \<le> capacity b \<and> (\<forall>x c. held s x c \<longrightarrow> x \<noteq> a \<and> held s' x c) \<and>
      (\<forall>x c. held s' x c \<longrightarrow> x = a \<or> held s x c)
    else q = NULL \<and> s' = s \<and> 8388608 < need"
proof -
  have al: "alloc need s = Inr (q, s')" and ok: "ok \<longleftrightarrow> q \<noteq> NULL"
    using assms(2) by (auto simp: reserve_with_def rbind_eq_Inr)
  from alloc_result [OF al] show ?thesis
  proof (elim disjE exE conjE)
    fix a assume q: "q = Ptr a"
    note run = assms(1) al [unfolded q]
    obtain b where "held s' a b" "wf_buf b" "buf_len b = 0" "buf_head b = 0" "need \<le> capacity b"
      using alloc_held [OF run] by blast
    moreover have "inv s'" using alloc_inv [OF run] .
    moreover have "\<forall>x c. held s x c \<longrightarrow> x \<noteq> a \<and> held s' x c" using alloc_keeps_held [OF run] by blast
    moreover have "\<forall>x c. held s' x c \<longrightarrow> x = a \<or> held s x c" using alloc_adds [OF run] by blast
    ultimately show ?thesis using q ok by simp blast
  qed (use ok in simp)
qed

lemma reserve_Ptr:
  assumes "inv s" and h: "held s a b" and head: "buf_head b = 0"
    and res: "reserve_with alloc give_back write_buf lookup need (Ptr a) s = Inr (ok, q, s')"
  shows "if ok then \<exists>a' b'. q = Ptr a' \<and> held s' a' b' \<and> inv s' \<and> wf_buf b' \<and> buf_head b' = 0 \<and>
      content b' = content b \<and> buf_len b' = buf_len b \<and> buf_len b' + need \<le> capacity b' \<and>
      (\<forall>x c. held s x c \<longrightarrow> x \<noteq> a \<longrightarrow> x \<noteq> a' \<and> held s' x c) \<and>
      (\<forall>x c. held s' x c \<longrightarrow> x = a' \<or> x \<noteq> a \<and> held s x c)
    else q = Ptr a \<and> s' = s \<and> 8388608 < need + buf_len b"
proof -
  have la: "lookup s a = Some b" using h by (simp add: held_def)
  have wf: "wf_buf b" using held_wf [OF assms(1) h] .
  show ?thesis
  proof (cases "capacity b - buf_len b < need")
    case False
    with res la head h wf assms(1) show ?thesis
      by (auto simp: reserve_with_def intro!: exI [of _ b])
  next
    case True
    then obtain p1 s1 where al: "alloc (need + buf_len b) s = Inr (p1, s1)"
      using res la head by (auto simp: reserve_with_def rbind_eq_Inr)
    from alloc_result [OF al] show ?thesis
    proof (elim disjE exE conjE)
      assume "p1 = NULL" "s1 = s" "8388608 < need + buf_len b"
      with res la head True al show ?thesis by (auto simp: reserve_with_def rbind_eq_Inr)
    next
      fix a1 assume p1: "p1 = Ptr a1"
      obtain nb where nb: "held s1 a1 nb" "wf_buf nb" "need + buf_len b \<le> capacity nb"
        using alloc_held [OF assms(1), of _ a1 s1] al p1 by blast
      have inv1: "inv s1" using alloc_inv [OF assms(1)] al p1 by blast
      have keep: "x \<noteq> a1 \<and> held s1 x c" if "held s x c" for x c
        using alloc_keeps_held [OF assms(1) _ that] al p1 by blast
      have "buf_len b \<le> capacity nb" using nb(3) True wf head by (simp add: wf_buf_def)
      then obtain nb' where cp: "io_buf_copy nb b = Inr nb'" "content nb' = content b" "wf_buf nb'"
          "buf_head nb' = 0" "buf_len nb' = buf_len b" "capacity nb' = capacity nb"
        using io_buf_copy_ok [OF wf, of nb] by blast
      let ?s2 = "write_buf a1 nb' s1"
      have w: "inv ?s2" "held ?s2 a1 nb'" using write_held [OF inv1 nb(1) cp(3)] cp(6) by auto
      have a: "a \<noteq> a1" "held s1 a b" using keep [OF h] by auto
      have ha: "held ?s2 a b" using write_keeps_held [OF inv1 nb(1) cp(3) _ a(2) a(1)] cp(6) by simp
      obtain s2 where gb: "give_back a ?s2 = Inr s2" "inv s2"
        using give_back_ok [OF w(1), of a b] ha by (auto simp: held_def)
      have run: "ok" "q = Ptr a1" "s' = s2"
        using res la head True al p1 nb(1) a(2) cp(1) gb(1)
        by (auto simp: reserve_with_def rbind_eq_Inr held_def)
      have mine: "held s2 a1 nb'" using give_back_keeps_held [OF w(1) ha gb(1) w(2)] a(1) by simp
      have others: "\<forall>x c. held s x c \<longrightarrow> x \<noteq> a \<longrightarrow> x \<noteq> a1 \<and> held s2 x c"
      proof (intro allI impI)
        fix x c assume x: "held s x c" "x \<noteq> a"
        have k: "x \<noteq> a1" "held s1 x c" using keep [OF x(1)] by auto
        have "held ?s2 x c" using write_keeps_held [OF inv1 nb(1) cp(3) _ k(2) k(1)] cp(6) by simp
        then show "x \<noteq> a1 \<and> held s2 x c" using give_back_keeps_held [OF w(1) ha gb(1)] x(2) k(1) by simp
      qed
      have only: "\<forall>x c. held s2 x c \<longrightarrow> x = a1 \<or> x \<noteq> a \<and> held s x c"
      proof (intro allI impI)
        fix x c assume x: "held s2 x c"
        have k: "x \<noteq> a" "held ?s2 x c" using give_back_takes [OF w(1) ha gb(1) x] by auto
        show "x = a1 \<or> x \<noteq> a \<and> held s x c"
        proof (cases "x = a1")
          case False
          have "held s1 x c" using write_adds [OF inv1 nb(1) cp(3) _ k(2) False] cp(6) by simp
          then show ?thesis using alloc_adds [OF assms(1) _ _ False] al p1 k(1) by blast
        qed simp
      qed
      have room: "buf_len nb' + need \<le> capacity nb'" using cp(5,6) nb(3) by simp
      show ?thesis unfolding run(2,3) if_P [OF run(1)]
        by (intro exI [of _ a1] exI [of _ nb'] conjI mine gb(2) cp(2-5) room others only refl)
    qed
  qed
qed

text \<open>The only ways \<open>reserve_with\<close> can end otherwise are the allocator's own and an overflow of the size.\<close>

lemma reserve_Inl:
  assumes "inv s" and "p = NULL \<or> (\<exists>a b. p = Ptr a \<and> held s a b \<and> buf_head b = 0)"
    and "reserve_with alloc give_back write_buf lookup need p s = Inl e"
  shows "e = SignedOverflow \<or> (\<exists>n. alloc n s = Inl e)"
  using assms(2)
proof (elim disjE exE conjE)
  assume "p = NULL"
  with assms(3) show ?thesis by (auto simp: reserve_with_def rbind_eq_Inl)
next
  fix a b assume p: "p = Ptr a" and h: "held s a b" and head: "buf_head b = 0"
  have la: "lookup s a = Some b" using h by (simp add: held_def)
  have wf: "wf_buf b" using held_wf [OF assms(1) h] .
  show ?thesis
  proof (cases "\<exists>q s1. alloc (need + buf_len b) s = Inr (q, s1)")
    case False
    then obtain e' where e': "alloc (need + buf_len b) s = Inl e'" by (cases "alloc (need + buf_len b) s") auto
    with assms(3) la head p show ?thesis
      by (auto simp: reserve_with_def rbind_eq_Inl cint_add_def split: if_splits)
  next
    case True
    then obtain q s1 where al: "alloc (need + buf_len b) s = Inr (q, s1)" by blast
    from alloc_result [OF al] show ?thesis
    proof (elim disjE exE conjE)
      assume "q = NULL"
      with assms(3) la head p al show ?thesis
        by (auto simp: reserve_with_def rbind_eq_Inl cint_add_def split: if_splits)
    next
      fix a1 assume q: "q = Ptr a1"
      have "\<exists>r. reserve_with alloc give_back write_buf lookup need p s = Inr r"
        if "capacity b - buf_len b < need" "in_int (need + buf_len b)"
      proof -
        obtain nb where nb: "held s1 a1 nb" "need + buf_len b \<le> capacity nb"
          using alloc_held [OF assms(1), of _ a1 s1] al q by blast
        have inv1: "inv s1" using alloc_inv [OF assms(1)] al q by blast
        have a: "a \<noteq> a1" "held s1 a b" using alloc_keeps_held [OF assms(1) _ h] al q by auto
        have "buf_len b \<le> capacity nb" using nb(2) that wf head by (simp add: wf_buf_def)
        then obtain nb' where cp: "io_buf_copy nb b = Inr nb'" "wf_buf nb'" "capacity nb' = capacity nb"
          using io_buf_copy_ok [OF wf, of nb] by blast
        let ?s2 = "write_buf a1 nb' s1"
        have w: "inv ?s2" using write_held [OF inv1 nb(1) cp(2,3)] by simp
        have ha: "held ?s2 a b" using write_keeps_held [OF inv1 nb(1) cp(2,3) a(2) a(1)] .
        obtain s2 where "give_back a ?s2 = Inr s2"
          using give_back_ok [OF w, of a b] ha by (auto simp: held_def)
        then have "reserve_with alloc give_back write_buf lookup need p s = Inr (True, Ptr a1, s2)"
          using la head that al q nb(1) a(2) cp(1) p
          by (simp add: reserve_with_def held_def cint_add_def)
        then show ?thesis by blast
      qed
      then show ?thesis using assms(3) la head p
        by (auto simp: reserve_with_def rbind_eq_Inl cint_add_def split: if_splits)
    qed
  qed
qed

end

section \<open>\<open>reserve\<close> on the pool\<close>

lemma rb_holds_cases:
  assumes "rb_holds s p d"
  obtains (null) "p = NULL" "d = []"
  | (buf) a b where "p = Ptr a" "pool.held s a b" "content b = d"
  using assms by (auto simp: rb_holds_def pool.held_def)

lemma held_bufs: "pool.held s a b \<longleftrightarrow> bufs s a = Some b \<and> \<not> is_free s a"
  by (simp add: pool.held_def)

text \<open>A small chunk fits into a buffer that is there.\<close>

lemma reserve_small:
  assumes "pool_inv s" and "rb_holds s p d" and "rb_ready s p" and "d \<noteq> []" and "length d + n \<le> 4096"
  shows "reserve (int n) p s = Inr (True, p, s)"
proof -
  obtain a b where p: "p = Ptr a" and b: "bufs s a = Some b" "content b = d" "\<not> is_free s a"
    using assms(2,4) by (auto simp: rb_holds_def)
  then have "wf_buf b" "capacity b \<in> set mem_caps" using pool_inv_buf [OF assms(1)] by (auto simp: held_bufs)
  then have "buf_len b = int (length d)" "4096 \<le> capacity b" using b(2) by (auto simp: wf_buf_def mem_caps_def)
  moreover have "buf_head b = 0" using assms(3) b(1) p by (auto simp: rb_ready_def)
  ultimately show ?thesis using b(1) p assms(5) by (simp add: reserve_def reserve_with_def)
qed

text \<open>With room for \<open>need\<close> bytes behind the data; or, on \<open>False\<close>, with nothing changed.\<close>

lemma reserve_ok:
  assumes inv: "pool_inv s" and h: "rb_holds s p d" and r: "rb_ready s p"
    and res: "reserve need p s = Inr (ok, q, s')"
  shows "if ok then \<exists>a b. q = Ptr a \<and> pool.held s' a b \<and> pool_inv s' \<and> wf_buf b \<and> buf_head b = 0 \<and>
      content b = d \<and> buf_len b = int (length d) \<and> buf_len b + need \<le> capacity b \<and> others_kept s p s' q
    else q = p \<and> s' = s \<and> 8388608 < need + int (length d)"
  using h
proof (cases rule: rb_holds_cases)
  case null
  then show ?thesis
    using pool.reserve_NULL [OF inv, of need ok q s'] res
    by (fastforce simp: reserve_def others_kept_def held_bufs content_def)
next
  case (buf a b)
  have head: "buf_head b = 0" using r buf by (auto simp: rb_ready_def held_bufs)
  have len: "buf_len b = int (length d)"
    using pool.held_wf [OF inv buf(2)] buf(3) by (auto simp: wf_buf_def)
  show ?thesis
    using pool.reserve_Ptr [OF inv buf(2) head, of need ok q s'] res buf(1,3) len
    by (fastforce simp: reserve_def others_kept_def held_bufs)
qed

lemma reserve_fault:
  assumes "pool_inv s" and "rb_holds s p d" and "rb_ready s p" and "reserve need p s = Inl e"
  shows "e = SignedOverflow \<or> (\<exists>n. alloc_buf n s = Inl e)"
proof -
  have "p = NULL \<or> (\<exists>a b. p = Ptr a \<and> pool.held s a b \<and> buf_head b = 0)"
    using assms(2,3) by (auto simp: rb_holds_def rb_ready_def held_bufs)
  from pool.reserve_Inl [OF assms(1) this] assms(4) show ?thesis by (simp add: reserve_def)
qed

text \<open>Writing a new version of the held buffer.\<close>

lemma put_held:
  assumes "pool_inv s" and "pool.held s a b" and "wf_buf b'" and "capacity b' = capacity b"
  shows "pool_inv (put (Ptr a) b' s) \<and> rb_holds (put (Ptr a) b' s) (Ptr a) (content b') \<and>
    others_kept s (Ptr a) (put (Ptr a) b' s) (Ptr a) \<and> bufs (put (Ptr a) b' s) a = Some b' \<and>
    is_free (put (Ptr a) b' s) = is_free s"
  using set_buf_ok [of s a b b'] assms
  by (auto simp: put_def held_bufs rb_holds_def others_kept_def)

lemma deref_Ptr: "bufs s a = Some b \<Longrightarrow> deref s (Ptr a) = Inr b"
  by (simp add: deref_def)

lemma rb_length_ok: "rb_holds s p d \<Longrightarrow> pool_inv s \<Longrightarrow> rb_length p s = Inr (int (length d))"
  using pool_inv_buf [of s] by (auto simp: rb_holds_def rb_length_def deref_Ptr wf_buf_def)

lemma rb_data_ok: "rb_holds s p d \<Longrightarrow> rb_data p s = Inr (if p = NULL then None else Some d)"
  by (auto simp: rb_holds_def rb_data_def deref_Ptr)

lemma rb_clear_ok:
  assumes "pool_inv s" and "rb_holds s p d"
  shows "\<exists>s'. rb_clear p s = Inr (NULL, s') \<and> pool_inv s' \<and> others_kept s p s' NULL"
  using assms(2)
proof (cases rule: rb_holds_cases)
  case null
  with assms(1) show ?thesis by (simp add: rb_clear_def)
next
  case (buf a b)
  obtain s' where s': "revert a s = Inr s'" "revert_post a s s'"
    using revert_ok [OF assms(1)] buf(2) by (auto simp: held_bufs)
  then have "others_kept s p s' NULL"
    using buf by (auto simp: others_kept_def revert_post_def)
  with s' buf show ?thesis by (simp add: rb_clear_def revert_post_def)
qed

text \<open>\<open>pop\<close> of \<open>n\<close> bytes that are there; the buffer goes back to the pool when it runs empty.\<close>

lemma rb_pop_ok:
  assumes inv: "pool_inv s" and h: "rb_holds s p d" and p: "p \<noteq> NULL" and n: "0 \<le> n" "n \<le> int (length d)"
  shows "\<exists>q s'. rb_pop n p s = Inr (q, s') \<and> pool_inv s' \<and> rb_holds s' q (drop (nat n) d) \<and>
    others_kept s p s' q \<and> q = (if n = int (length d) then NULL else p)"
  using h
proof (cases rule: rb_holds_cases)
  case (buf a b)
  have wf: "wf_buf b" using pool.held_wf [OF inv buf(2)] .
  then have len: "buf_len b = int (length d)" using buf(3) by (auto simp: wf_buf_def)
  let ?b' = "io_buf_pop b n"
  have b': "wf_buf ?b'" "capacity ?b' = capacity b" "content ?b' = drop (nat n) d" "buf_len ?b' = int (length d) - n"
    using wf_pop [OF wf n(1)] n len content_pop [OF n(1), of b] buf(3) by (auto simp: io_buf_pop_def)
  let ?s1 = "put p ?b' s"
  have put: "pool_inv ?s1" "rb_holds ?s1 p (drop (nat n) d)" "others_kept s p ?s1 p"
    using put_held [OF inv buf(2) b'(1,2)] b'(3) buf(1) by simp_all
  have run: "rb_pop n p s = (if n = int (length d) then rb_clear p ?s1 else Inr (p, ?s1))"
    using p buf n len b'(4) by (simp add: rb_pop_def deref_Ptr held_bufs Let_def)
  show ?thesis
  proof (cases "n = int (length d)")
    case True
    obtain s2 where "rb_clear p ?s1 = Inr (NULL, s2)" "pool_inv s2" "others_kept ?s1 p s2 NULL"
      using rb_clear_ok [OF put(1,2)] by blast
    with True run put(3) show ?thesis by (auto intro: others_kept_trans)
  qed (use run put in auto)
qed (use p in simp)

lemma rb_pop_NULL: "rb_pop n NULL s = Inl AssertFail"
  by (simp add: rb_pop_def)

lemma rb_adjust_ok:
  assumes inv: "pool_inv s" and h: "rb_holds s p d"
  shows "\<exists>s'. rb_adjust p s = Inr s' \<and> pool_inv s' \<and> rb_holds s' p d \<and> rb_ready s' p \<and> others_kept s p s' p"
  using h
proof (cases rule: rb_holds_cases)
  case null
  with inv show ?thesis by (simp add: rb_adjust_def)
next
  case (buf a b)
  obtain b' where b': "io_buf_adjust b = Inr b'" "content b' = content b" "wf_buf b'" "buf_head b' = 0"
      "capacity b' = capacity b"
    using io_buf_adjust_ok [OF pool.held_wf [OF inv buf(2)]] by blast
  have put: "pool_inv (put p b' s)" "rb_holds (put p b' s) p (content b')" "others_kept s p (put p b' s) p"
      "bufs (put p b' s) a = Some b'"
    using put_held [OF inv buf(2) b'(3,5)] buf(1) by simp_all
  have "rb_ready (put p b' s) p" using put(4) b'(4) buf(1) by (simp add: rb_ready_def)
  moreover have "rb_adjust p s = Inr (put p b' s)"
    using buf b'(1) by (simp add: rb_adjust_def deref_Ptr held_bufs)
  ultimately show ?thesis using put(1-3) b'(2) buf(3) by auto
qed

text \<open>Appending behind the data of a buffer that has the room.\<close>

lemma append_held:
  assumes inv: "pool_inv s" and h: "pool.held s a b" and head: "buf_head b = 0"
    and room: "buf_len b + int (length bs) \<le> capacity b"
  shows "\<exists>b1. buf_write b (buf_len b) bs = Inr b1 \<and>
    (let s' = put (Ptr a) (b1\<lparr>buf_len := buf_len b + int (length bs)\<rparr>) s
     in pool_inv s' \<and> rb_holds s' (Ptr a) (content b @ bs) \<and> rb_ready s' (Ptr a) \<and>
        others_kept s (Ptr a) s' (Ptr a))"
proof -
  have wf: "wf_buf b" using pool.held_wf [OF inv h] .
  let ?b1 = "b\<lparr>buf_data := mem_write (buf_data b) (buf_len b) bs\<rparr>"
  let ?b2 = "?b1\<lparr>buf_len := buf_len b + int (length bs)\<rparr>"
  have w: "buf_write b (buf_len b) bs = Inr ?b1" using wf room by (simp add: buf_write_def wf_buf_def)
  have b2: "wf_buf ?b2" "capacity ?b2 = capacity b" "content ?b2 = content b @ bs" "buf_head ?b2 = 0"
    using content_append [OF wf, of bs] wf room head by (auto simp: wf_buf_def)
  have "rb_ready (put (Ptr a) ?b2 s) (Ptr a)"
    using put_held [OF inv h b2(1,2)] b2(4) by (simp add: rb_ready_def)
  then show ?thesis using put_held [OF inv h b2(1,2)] b2(3) w by (simp add: Let_def)
qed

section \<open>\<open>send_data\<close>, \<open>write2fd\<close>, \<open>read_data\<close>\<close>

lemma send_data_ok:
  assumes inv: "pool_inv s" and h: "rb_holds s p d" and r: "rb_ready s p"
    and res: "send_data data p s = Inr (ret, q, s')"
  shows "if ret = 0 then pool_inv s' \<and> q \<noteq> NULL \<and> rb_holds s' q (d @ data) \<and> rb_ready s' q \<and> others_kept s p s' q
    else ret = - 1 \<and> q = p \<and> s' = s \<and> 8388608 < int (length data) + int (length d)"
proof -
  obtain ok q1 s1 where rv: "reserve (int (length data)) p s = Inr (ok, q1, s1)"
    using res by (auto simp: send_data_def rbind_eq_Inr)
  note rok = reserve_ok [OF inv h r rv]
  show ?thesis
  proof (cases ok)
    case False
    with rok rv res show ?thesis by (auto simp: send_data_def)
  next
    case True
    then obtain a b where b: "q1 = Ptr a" "pool.held s1 a b" "pool_inv s1" "buf_head b = 0" "content b = d"
        "buf_len b + int (length data) \<le> capacity b" "others_kept s p s1 q1"
      using rok by auto
    obtain b1 where b1: "buf_write b (buf_len b) data = Inr b1"
      and post: "let s' = put (Ptr a) (b1\<lparr>buf_len := buf_len b + int (length data)\<rparr>) s1
         in pool_inv s' \<and> rb_holds s' (Ptr a) (content b @ data) \<and> rb_ready s' (Ptr a) \<and>
            others_kept s1 (Ptr a) s' (Ptr a)"
      using append_held [OF b(3,2,4,6)] by blast
    have "ret = 0 \<and> q = q1 \<and> s' = put (Ptr a) (b1\<lparr>buf_len := buf_len b + int (length data)\<rparr>) s1"
      using res rv True b(1,2) b1 by (auto simp: send_data_def deref_Ptr held_bufs)
    then show ?thesis using post b by (auto simp: Let_def intro: others_kept_trans)
  qed
qed

lemma send_data_fault:
  assumes inv: "pool_inv s" and h: "rb_holds s p d" and r: "rb_ready s p"
    and res: "send_data data p s = Inl e"
  shows "e = SignedOverflow \<or> (\<exists>n. alloc_buf n s = Inl e)"
proof (cases "reserve (int (length data)) p s")
  case (Inl e')
  with res have "reserve (int (length data)) p s = Inl e" by (simp add: send_data_def)
  from reserve_fault [OF inv h r this] show ?thesis .
next
  case (Inr t)
  obtain ok q1 s1 where t: "t = (ok, q1, s1)" by (cases t)
  have ok: ok using res Inr t by (auto simp: send_data_def split: if_splits)
  then obtain a b where b: "q1 = Ptr a" "pool.held s1 a b" "pool_inv s1" "buf_head b = 0"
      "buf_len b + int (length data) \<le> capacity b"
    using reserve_ok [OF inv h r Inr [unfolded t]] by auto
  from append_held [OF b(3,2,4,5)] res ok Inr t b(1,2) show ?thesis
    by (auto simp: send_data_def deref_Ptr held_bufs)
qed

lemma write2fd_ok:
  assumes inv: "pool_inv s" and h: "rb_holds s p d" and r: "rb_ready s p" and p: "p \<noteq> NULL"
    and w: "write_retry ws = Inr (w, ws')" and n: "\<And>n. w = Wr n \<Longrightarrow> 0 \<le> n \<and> n \<le> int (length d)"
  shows "\<exists>s'. write2fd ws p s = Inr (case w of Wr n \<Rightarrow> n | WrEagain \<Rightarrow> 0 | _ \<Rightarrow> - 1, ws', s') \<and> pool_inv s' \<and>
    rb_holds s' p (case w of Wr n \<Rightarrow> drop (nat n) d | _ \<Rightarrow> d) \<and> rb_ready s' p \<and> others_kept s p s' p"
  using h
proof (cases rule: rb_holds_cases)
  case (buf a b)
  have wf: "wf_buf b" using pool.held_wf [OF inv buf(2)] .
  then have len: "buf_len b = int (length d)" using buf(3) by (auto simp: wf_buf_def)
  have head: "buf_head b = 0" using r buf by (auto simp: rb_ready_def held_bufs)
  have dr: "deref s p = Inr b" using buf by (simp add: deref_Ptr held_bufs)
  show ?thesis
  proof (cases "\<exists>n. w = Wr n \<and> 0 < n")
    case True
    then obtain n where wn: "w = Wr n" "0 < n" by blast
    with n have n': "0 \<le> n" "n \<le> buf_len b" using len by auto
    obtain b' where b': "io_buf_adjust (io_buf_pop b n) = Inr b'" "content b' = content (io_buf_pop b n)"
        "wf_buf b'" "buf_head b' = 0" "capacity b' = capacity (io_buf_pop b n)"
      using io_buf_adjust_ok [OF wf_pop [OF wf n']] by blast
    have cap: "capacity b' = capacity b" using b'(5) by (simp add: io_buf_pop_def)
    have "content b' = drop (nat n) d" using b'(2) content_pop [OF n'(1)] buf(3) by simp
    moreover have "rb_ready (put p b' s) p"
      using put_held [OF inv buf(2) b'(3) cap] b'(4) buf(1) by (simp add: rb_ready_def)
    ultimately show ?thesis
      using put_held [OF inv buf(2) b'(3) cap] p dr head w wn b'(1) buf(1) by (simp add: write2fd_def)
  next
    case False
    have "write2fd ws p s = Inr (case w of Wr n \<Rightarrow> n | WrEagain \<Rightarrow> 0 | _ \<Rightarrow> - 1, ws', s)"
      using p dr head w False by (auto simp: write2fd_def split: wr_ret.splits)
    moreover have "(case w of Wr n \<Rightarrow> drop (nat n) d | _ \<Rightarrow> d) = d"
      using False n by (auto split: wr_ret.splits)
    ultimately show ?thesis using inv h r by simp
  qed
qed (use p in simp)

text \<open>Data that would exceed the largest buffer is refused.\<close>

lemma held_capacity: "pool_inv s \<Longrightarrow> pool.held s a b \<Longrightarrow> capacity b \<le> 8388608"
  using pool_inv_buf [of s a b] by (auto simp: held_bufs mem_caps_def)

lemma send_data_too_big:
  assumes inv: "pool_inv s" and h: "rb_holds s p d" and r: "rb_ready s p"
    and big: "8388608 < int (length data) + int (length d)" "in_int (int (length data) + int (length d))"
  shows "send_data data p s = Inr (- 1, p, s)"
  using h
proof (cases rule: rb_holds_cases)
  case null
  then have "alloc_buf (int (length data)) s = Inr (NULL, s)"
    using big(1) by (simp add: alloc_buf_def alloc_index_def)
  with null show ?thesis by (simp add: send_data_def reserve_def reserve_with_def)
next
  case (buf a b)
  have wf: "wf_buf b" using pool.held_wf [OF inv buf(2)] .
  then have len: "buf_len b = int (length d)" using buf(3) by (auto simp: wf_buf_def)
  have head: "buf_head b = 0" using r buf by (auto simp: rb_ready_def held_bufs)
  have "capacity b - buf_len b < int (length data)" using held_capacity [OF inv buf(2)] big(1) len by simp
  moreover have "alloc_buf (int (length data) + buf_len b) s = Inr (NULL, s)"
    using big(1) len by (simp add: alloc_buf_def alloc_index_def)
  ultimately show ?thesis using buf(1,2) head big(2) len
    by (simp add: send_data_def reserve_def reserve_with_def held_bufs cint_add_def)
qed

text \<open>After a partial \<open>pop\<close> the window no longer starts at the front, and \<open>write2fd\<close> asserts that it does.\<close>

lemma rb_pop_not_ready:
  assumes "rb_holds s p d" and "rb_ready s p" and "rb_pop n p s = Inr (q, s')" and "0 < n" and "n < int (length d)"
  shows "\<not> rb_ready s' q"
proof -
  obtain a b where b: "p = Ptr a" "bufs s a = Some b" "content b = d"
    using assms(1,4,5) by (auto simp: rb_holds_def)
  have head: "buf_head b = 0" using assms(2) b by (simp add: rb_ready_def)
  have "length d = nat (buf_len b)" unfolding b(3) [symmetric] by simp
  then have "int (length d) \<le> buf_len b \<or> length d = 0" by linarith
  then have "buf_len (io_buf_pop b n) \<noteq> 0" using assms(4,5) by (auto simp: io_buf_pop_def)
  then have "q = p" "s' = put p (io_buf_pop b n) s"
    using assms(3) b by (auto simp: rb_pop_def deref_Ptr Let_def split: if_splits)
  then show ?thesis using b(1) head assms(4) by (simp add: rb_ready_def put_def set_buf_def io_buf_pop_def)
qed

lemma write2fd_not_ready:
  assumes "rb_holds s p d" and "\<not> rb_ready s p"
  shows "write2fd ws p s = Inl AssertFail"
  using assms by (auto simp: rb_holds_def rb_ready_def write2fd_def deref_Ptr)

text \<open>\<open>read_data\<close> when \<open>FIONREAD\<close> has told how many bytes there are, and when it said none.\<close>

lemma read_data_ok:
  assumes inv: "pool_inv s" and h: "rb_holds s p d" and r: "rb_ready s p"
    and rv: "reserve n p s = Inr (True, q1, s1)" and rd: "read_retry rs = Inr (x, rs')"
  obtains a b where "q1 = Ptr a" "pool.held s1 a b" "buf_len b = int (length d)" "buf_len b + n \<le> capacity b"
    "others_kept s p s1 q1" "pool_inv s1" "rb_holds s1 q1 d" "rb_ready s1 q1"
    "case x of
      Rd bs \<Rightarrow>
        (if capacity b < buf_len b + int (length bs) then read_data (Some n) rs p s = Inl OutOfBounds
         else if bs \<noteq> [] \<and> n \<noteq> 0 \<and> int (length bs) \<noteq> n then read_data (Some n) rs p s = Inl AssertFail
         else \<exists>s'. read_data (Some n) rs p s = Inr (int (length bs), rs', q1, s') \<and> pool_inv s' \<and>
                rb_holds s' q1 (d @ bs) \<and> rb_ready s' q1 \<and> others_kept s p s' q1)
    | _ \<Rightarrow> read_data (Some n) rs p s = Inr (- 1, rs', q1, s1)"
proof -
  obtain a b where b: "q1 = Ptr a" "pool.held s1 a b" "pool_inv s1" "buf_head b = 0" "content b = d"
      "buf_len b = int (length d)" "buf_len b + n \<le> capacity b" "others_kept s p s1 q1"
    using reserve_ok [OF inv h r rv] unfolding if_True by (elim exE conjE) (rule that; assumption)
  have hr: "rb_holds s1 q1 d" "rb_ready s1 q1" using b by (auto simp: rb_holds_def rb_ready_def held_bufs)
  have dr: "deref s1 q1 = Inr b" using b by (simp add: deref_Ptr held_bufs)
  show ?thesis
  proof (rule that [OF b(1,2,6,7,8,3) hr])
    show "case x of
      Rd bs \<Rightarrow>
        (if capacity b < buf_len b + int (length bs) then read_data (Some n) rs p s = Inl OutOfBounds
         else if bs \<noteq> [] \<and> n \<noteq> 0 \<and> int (length bs) \<noteq> n then read_data (Some n) rs p s = Inl AssertFail
         else \<exists>s'. read_data (Some n) rs p s = Inr (int (length bs), rs', q1, s') \<and> pool_inv s' \<and>
                rb_holds s' q1 (d @ bs) \<and> rb_ready s' q1 \<and> others_kept s p s' q1)
      | _ \<Rightarrow> read_data (Some n) rs p s = Inr (- 1, rs', q1, s1)"
    proof (cases x)
      case (Rd bs)
      show ?thesis
      proof (cases "capacity b < buf_len b + int (length bs)")
        case True
        then show ?thesis using Rd rv rd dr by (simp add: read_data_def buf_write_def)
      next
        case False
        then have room: "buf_len b + int (length bs) \<le> capacity b" by simp
        obtain b1 where b1: "buf_write b (buf_len b) bs = Inr b1"
          and post: "let s' = put (Ptr a) (b1\<lparr>buf_len := buf_len b + int (length bs)\<rparr>) s1
             in pool_inv s' \<and> rb_holds s' (Ptr a) (content b @ bs) \<and> rb_ready s' (Ptr a) \<and>
                others_kept s1 (Ptr a) s' (Ptr a)"
          using append_held [OF b(3,2,4) room] by blast
        have "others_kept s p (put q1 (b1\<lparr>buf_len := buf_len b + int (length bs)\<rparr>) s1) q1"
          using post others_kept_trans [OF b(8)] b(1) by (auto simp: Let_def)
        then show ?thesis using Rd rv rd dr False b1 post b hr by (auto simp: read_data_def Let_def)
      qed
    qed (use rv rd dr in \<open>simp_all add: read_data_def\<close>)
  qed
qed

text \<open>A pool with one held buffer, for the witnesses: three bytes put into the grown pool.\<close>

lemmas pool_eval = send_data_def reserve_def reserve_with_def alloc_buf_def alloc_index_def pool_head_def
  drained_pool_def mem_caps_def new_io_buf_def empty_pool_def MEM_LIMIT_def deref_def io_buf_new_def buf_write_def
  put_def set_buf_def

definition demo_pool :: pool_st where
  "demo_pool = (case send_data [1, 2, 3] NULL drained_pool of Inr (_, _, s) \<Rightarrow> s | Inl _ \<Rightarrow> drained_pool)"

lemma demo_send: "send_data [1, 2, 3] NULL drained_pool = Inr (0, Ptr 0, demo_pool)"
proof -
  have "\<exists>s. send_data [1, 2, 3] NULL drained_pool = Inr (0, Ptr 0, s)"
    by (simp add: pool_eval)
  then show ?thesis by (auto simp: demo_pool_def)
qed

lemma demo_pool_ok:
  "pool_inv demo_pool" "rb_holds demo_pool (Ptr 0) [1, 2, 3]" "rb_ready demo_pool (Ptr 0)"
  using send_data_ok [OF drained_pool_inv _ _ demo_send, of "[]"] by simp_all

lemma demo_buf: "\<exists>b. bufs demo_pool 0 = Some b \<and> capacity b = 4096 \<and> buf_len b = 3 \<and> buf_head b = 0"
  by (simp add: demo_pool_def pool_eval)

lemma demo_reserve: "n \<le> 4093 \<Longrightarrow> reserve n (Ptr 0) demo_pool = Inr (True, Ptr 0, demo_pool)"
  using demo_buf by (auto simp: reserve_def reserve_with_def)

lemma demo_run: "\<exists>r. send_data [4] (Ptr 0) demo_pool = Inr r"
  using demo_buf demo_reserve [of 1] by (auto simp: send_data_def deref_def buf_write_def)

section \<open>Properties\<close>

text \<open>
  \<open>output_buf::send_data\<close>. On success the buffer holds its old data followed by the new data; it
  fails with \<open>-1\<close>, and then nothing has changed, only if the whole would exceed the largest buffer;
  buffers held by others are not touched. It can stop only by an integer overflow of the size or as
  the pool's own allocation does.
\<close>

theorem send_data_spec:
  assumes "pool_inv s" and "rb_holds s p d" and "rb_ready s p"
  shows "case send_data data p s of
      Inr (ret, q, s') \<Rightarrow>
        ret = 0 \<and> q \<noteq> NULL \<and> pool_inv s' \<and> rb_holds s' q (d @ data) \<and> rb_ready s' q \<and> others_kept s p s' q \<or>
        ret = - 1 \<and> q = p \<and> s' = s \<and> 8388608 < int (length d) + int (length data)
    | Inl e \<Rightarrow> e = SignedOverflow \<or> (\<exists>n. alloc_buf n s = Inl e)"
proof (cases "send_data data p s")
  case (Inr t)
  then obtain ret q s' where "send_data data p s = Inr (ret, q, s')" by (cases t) auto
  from send_data_ok [OF assms this] this show ?thesis by (auto split: if_splits)
qed (use send_data_fault [OF assms] in simp)

lemma send_data_spec_witness:
  "\<exists>ret q s'. send_data [4] (Ptr 0) demo_pool = Inr (ret, q, s') \<and> ret = 0 \<and> rb_holds s' q [1, 2, 3, 4]"
proof -
  have "\<exists>r. send_data [4] (Ptr 0) demo_pool = Inr r"
    using demo_run by blast
  then show ?thesis using send_data_spec [OF demo_pool_ok, of "[4]"] by auto
qed

text \<open>
  \<open>output_buf::write2fd\<close> on a buffer with data \<open>d\<close>, whatever prefix the kernel accepts: it returns the number of
  bytes written, \<open>0\<close> if the socket would block, \<open>-1\<close> on an error; exactly the written prefix is dropped
  and the rest stays at the front of the buffer.
\<close>

theorem write2fd_spec:
  assumes "pool_inv s" and "rb_holds s p d" and "rb_ready s p" and "p \<noteq> NULL"
    and "write_retry ws = Inr (w, ws')" and "\<And>n. w = Wr n \<Longrightarrow> 0 \<le> n \<and> n \<le> int (length d)"
  shows "\<exists>ret s'. write2fd ws p s = Inr (ret, ws', s') \<and>
    ret = (case w of Wr n \<Rightarrow> n | WrEagain \<Rightarrow> 0 | _ \<Rightarrow> - 1) \<and>
    pool_inv s' \<and> rb_holds s' p (drop (nat ret) d) \<and> rb_ready s' p \<and> others_kept s p s' p"
proof -
  have "drop (nat (case w of Wr n \<Rightarrow> n | WrEagain \<Rightarrow> 0 | _ \<Rightarrow> - 1)) d = (case w of Wr n \<Rightarrow> drop (nat n) d | _ \<Rightarrow> d)"
    by (simp split: wr_ret.splits)
  then show ?thesis using write2fd_ok [OF assms] by auto
qed

lemma write2fd_spec_witness:
  "\<exists>s'. write2fd [WrEintr, Wr 2] (Ptr 0) demo_pool = Inr (2, [], s') \<and> rb_holds s' (Ptr 0) [3]"
  using write2fd_spec [OF demo_pool_ok, of "[WrEintr, Wr 2]" "Wr 2" "[]"] by auto

text \<open>
  C38: \<open>input_buf::read_data\<close> after \<open>FIONREAD\<close> reported \<open>n\<close> bytes and \<open>reserve\<close> found a buffer. If \<open>n\<close> bytes arrive they are appended to the data;
  at end of file nothing changes. But when \<open>n\<close> is \<open>0\<close> the code asks for up to 4096 bytes although it
  has reserved room for none: it is correct exactly if what arrives fits in the free room of the
  current buffer, and else \<open>read\<close> writes past its end.
\<close>

theorem read_data_spec:
  assumes "pool_inv s" and "rb_holds s p d" and "rb_ready s p"
    and "reserve n p s = Inr (True, q, s1)"
    and "read_retry rs = Inr (Rd bs, rs')" and "int (length bs) \<le> read_count n"
  shows "\<exists>a b. q = Ptr a \<and> bufs s1 a = Some b \<and> int (length d) + n \<le> capacity b \<and>
    (if capacity b < int (length d) + int (length bs) then n = 0 \<and> read_data (Some n) rs p s = Inl OutOfBounds
     else if n \<noteq> 0 \<and> bs \<noteq> [] \<and> int (length bs) \<noteq> n then read_data (Some n) rs p s = Inl AssertFail
     else \<exists>s'. read_data (Some n) rs p s = Inr (int (length bs), rs', q, s') \<and> pool_inv s' \<and>
            rb_holds s' q (d @ bs) \<and> rb_ready s' q \<and> others_kept s p s' q)"
proof -
  have n: "int (length bs) \<le> n \<or> n = 0" using assms(6) by (auto simp: read_count_def)
  show ?thesis
    by (rule read_data_ok [OF assms(1-5)], rule exI, rule exI) (use n in \<open>auto simp: held_bufs\<close>)
qed

lemma read_data_spec_witness:
  "\<exists>s'. read_data (Some 2) [Rd [8, 9]] (Ptr 0) demo_pool = Inr (2, [], Ptr 0, s') \<and>
     rb_holds s' (Ptr 0) [1, 2, 3, 8, 9]"
proof -
  obtain q s1 where "reserve 2 (Ptr 0) demo_pool = Inr (True, q, s1)" "q = Ptr 0"
    using demo_reserve [of 2] by simp
  then show ?thesis using read_data_spec [OF demo_pool_ok, of 2 q s1 "[Rd [8, 9]]" "[8, 9]" "[]"]
    by (auto simp: read_count_def)
qed

text \<open>The overflow: \<open>FIONREAD\<close> says \<open>0\<close>, then the 4096 bytes asked for arrive in a buffer that has 4093 free.\<close>

lemma read_overflow_example:
  "read_data (Some 0) [Rd (replicate 4096 7)] (Ptr 0) demo_pool = Inl OutOfBounds"
proof -
  obtain b where "bufs demo_pool 0 = Some b" "capacity b = 4096" "buf_len b = 3" "buf_head b = 0"
    using demo_buf by blast
  then show ?thesis
    by (simp add: read_data_def reserve_def reserve_with_def deref_def buf_write_def)
qed

end
