(* ===== verification/Message.thy ===== *)
theory Message
  imports Lars_Base
begin

text \<open>
  The message format of the reactor and its dispatch table (\<open>lars_reactors/include/message.h\<close>): a
  message is a header of two \<open>int\<close>s, copied with \<open>memcpy\<close> (so in the byte order of the machine,
  little-endian here), followed by \<open>msglen\<close> bytes. Several messages, or a part of one, may arrive in
  one \<open>read\<close>; \<open>parse\<close> is the specification of how a byte stream splits into messages.
\<close>

section \<open>The header\<close>

record msg_head =
  msgid :: int
  msglen :: int

definition MESSAGE_HEAD_LEN :: int where "MESSAGE_HEAD_LEN = 8"

definition MESSAGE_LENGTH_LIMIT :: int where "MESSAGE_LENGTH_LIMIT = 65535 - MESSAGE_HEAD_LEN"

definition le32 :: "u32 \<Rightarrow> u8 list" where
  "le32 w = [ucast w, ucast (drop_bit 8 w), ucast (drop_bit 16 w), ucast (drop_bit 24 w)]"

definition un32 :: "u8 list \<Rightarrow> u32" where
  "un32 bs = word_of_int (uint (bs ! 0) + 256 * uint (bs ! 1) + 65536 * uint (bs ! 2) + 16777216 * uint (bs ! 3))"

definition encode_head :: "msg_head \<Rightarrow> u8 list" where
  "encode_head h = le32 (word_of_int (msgid h)) @ le32 (word_of_int (msglen h))"

text \<open>\<open>memcpy(&head, data, MESSAGE_HEAD_LEN)\<close>, of at least eight bytes.\<close>

definition decode_head :: "u8 list \<Rightarrow> msg_head" where
  "decode_head d = \<lparr>msgid = sint (un32 (take 4 d)), msglen = sint (un32 (take 4 (drop 4 d)))\<rparr>"

lemma length_le32 [simp]: "length (le32 w) = 4"
  by (simp add: le32_def)

lemma length_encode_head [simp]: "length (encode_head h) = 8"
  by (simp add: encode_head_def)

lemma uint_bytes:
  "uint (ucast (w :: u32) :: u8) = uint w mod 256"
  "uint (ucast (drop_bit 8 (w :: u32)) :: u8) = uint w div 256 mod 256"
  "uint (ucast (drop_bit 16 (w :: u32)) :: u8) = uint w div 65536 mod 256"
  "uint (ucast (drop_bit 24 (w :: u32)) :: u8) = uint w div 16777216 mod 256"
  by (simp_all add: unsigned_ucast_eq take_bit_eq_mod drop_bit_eq_div uint_div)

lemma four_digits:
  assumes "0 \<le> x" and "x < 4294967296"
  shows "x mod 256 + 256 * (x div 256 mod 256) + 65536 * (x div 65536 mod 256) +
    16777216 * (x div 16777216 mod 256) = (x :: int)"
proof -
  let ?y = "x div 256" let ?z = "?y div 256" let ?u = "?z div 256"
  have e: "x div 65536 = ?z" "x div 16777216 = ?u" by (simp_all add: div_mult2_eq [symmetric])
  have "0 \<le> x div 16777216" "x div 16777216 < 256" using assms by linarith+
  then have u: "?u mod 256 = ?u" unfolding e(2) by (rule mod_pos_pos_trivial)
  have "256 * ?u + ?z mod 256 = ?z" "256 * ?z + ?y mod 256 = ?y" "256 * ?y + x mod 256 = x" by simp_all
  then have "x mod 256 + 256 * (?y mod 256 + 256 * (?z mod 256 + 256 * ?u)) = x"
    by (metis add.commute)
  moreover have "a + 256 * b + 65536 * c + 16777216 * d = a + 256 * (b + 256 * (c + 256 * d))" for a b c d :: int
    by simp
  ultimately show ?thesis unfolding e u by (simp only:)
qed

lemma le32_nth:
  "le32 w ! 0 = ucast w" "le32 w ! 1 = ucast (drop_bit 8 w)" "le32 w ! 2 = ucast (drop_bit 16 w)"
  "le32 w ! 3 = ucast (drop_bit 24 w)"
  by (simp_all add: le32_def)

lemma un32_le32 [simp]: "un32 (le32 w) = w"
proof -
  have lt: "uint w < 4294967296" using uint_lt2p [of w] by simp
  have "uint (le32 w ! 0) + 256 * uint (le32 w ! 1) + 65536 * uint (le32 w ! 2) + 16777216 * uint (le32 w ! 3) = uint w"
    unfolding le32_nth unfolding uint_bytes(2-4) unfolding uint_bytes(1) by (rule four_digits [OF _ lt]) simp
  then have "un32 (le32 w) = word_of_int (uint w)" unfolding un32_def by (simp only:)
  then show ?thesis by simp
qed

lemma sint_of_int_32: "in_int x \<Longrightarrow> sint (word_of_int x :: 32 word) = x"
  by (simp add: in_int_def int_word_sint)

lemma in_int_sint [simp]: "in_int (sint (w :: 32 word))"
  using sint_range_size [of w] by (simp add: in_int_def word_size)

lemma decode_encode_head:
  "in_int (msgid h) \<Longrightarrow> in_int (msglen h) \<Longrightarrow> decode_head (encode_head h @ rest) = h"
  by (simp add: decode_head_def encode_head_def sint_of_int_32)

section \<open>\<open>msg_router\<close>\<close>

text \<open>Message numbers to callbacks and their arguments; the two hash maps always have the same keys.\<close>

record ('cb, 'a) msg_router =
  router :: "int \<Rightarrow> 'cb option"
  args :: "int \<Rightarrow> 'a option"

definition msg_router_new :: "('cb, 'a) msg_router" where
  "msg_router_new = \<lparr>router = (\<lambda>_. None), args = (\<lambda>_. None)\<rparr>"

definition register_msg_router ::
  "int \<Rightarrow> 'cb \<Rightarrow> 'a \<Rightarrow> ('cb, 'a) msg_router \<Rightarrow> int \<times> ('cb, 'a) msg_router" where
  "register_msg_router i cb ud r =
     (if router r i \<noteq> None then (- 1, r)
      else (0, r\<lparr>router := (router r)(i \<mapsto> cb), args := (args r)(i \<mapsto> ud)\<rparr>))"

text \<open>
  \<open>call\<close>; \<open>run\<close> is the call through the function pointer. \<open>_args[msgid]\<close> of a key that is not there
  would insert \<open>NULL\<close>, which \<open>None\<close> stands for.
\<close>

definition router_call ::
  "('cb \<Rightarrow> u8 list option \<Rightarrow> int \<Rightarrow> int \<Rightarrow> 'c \<Rightarrow> 'a option \<Rightarrow> 'w \<Rightarrow> 'w res) \<Rightarrow> ('cb, 'a) msg_router \<Rightarrow>
   int \<Rightarrow> int \<Rightarrow> u8 list option \<Rightarrow> 'c \<Rightarrow> 'w \<Rightarrow> 'w res" where
  "router_call run r i len data conn w =
     (case router r i of
        None \<Rightarrow> Inr w
      | Some cb \<Rightarrow> run cb data len i conn (args r i) w)"

definition router_ok :: "('cb, 'a) msg_router \<Rightarrow> bool" where
  "router_ok r \<longleftrightarrow> dom (args r) = dom (router r)"

lemma router_ok_new [simp]: "router_ok msg_router_new"
  by (simp add: router_ok_def msg_router_new_def)

lemma router_ok_register [inv_intros]:
  "router_ok r \<Longrightarrow> router_ok (snd (register_msg_router i cb ud r))"
  by (auto simp: router_ok_def register_msg_router_def)

section \<open>Splitting a byte stream into messages\<close>

type_synonym msg = "int \<times> u8 list"   \<comment> \<open>\<open>msgid\<close> and body\<close>

definition bad_head :: "msg_head \<Rightarrow> bool" where
  "bad_head h \<longleftrightarrow> msglen h > MESSAGE_LENGTH_LIMIT \<or> msglen h < 0"

definition msg_ok :: "msg \<Rightarrow> bool" where
  "msg_ok m \<longleftrightarrow> in_int (fst m) \<and> int (length (snd m)) \<le> MESSAGE_LENGTH_LIMIT"

definition encode_msg :: "msg \<Rightarrow> u8 list" where
  "encode_msg m = encode_head \<lparr>msgid = fst m, msglen = int (length (snd m))\<rparr> @ snd m"

text \<open>The messages complete in \<open>d\<close>, the bytes left over, and whether a malformed header stops it.\<close>

function parse :: "u8 list \<Rightarrow> msg list \<times> u8 list \<times> bool" where
  "parse d =
     (if length d < 8 then ([], d, False)
      else let h = decode_head d
           in if bad_head h then ([], d, True)
              else if length d < 8 + nat (msglen h) then ([], d, False)
              else let (ms, r, bad) = parse (drop (8 + nat (msglen h)) d)
                   in ((msgid h, take (nat (msglen h)) (drop 8 d)) # ms, r, bad))"
  by auto
termination by (relation "measure length") auto

declare parse.simps [simp del]

lemma parse_short: "length d < 8 \<Longrightarrow> parse d = ([], d, False)"
  by (simp add: parse.simps)

lemma parse_step:
  assumes "8 \<le> length d" and "\<not> bad_head (decode_head d)" and "8 + nat (msglen (decode_head d)) \<le> length d"
  shows "parse d = (let h = decode_head d; (ms, r, bad) = parse (drop (8 + nat (msglen h)) d)
     in ((msgid h, take (nat (msglen h)) (drop 8 d)) # ms, r, bad))"
  using assms by (subst parse.simps) (simp add: Let_def)

lemma parse_stop:
  "length d < 8 \<or> bad_head (decode_head d) \<or> length d < 8 + nat (msglen (decode_head d)) \<Longrightarrow>
   parse d = ([], d, 8 \<le> length d \<and> bad_head (decode_head d))"
  by (subst parse.simps) (auto simp: Let_def)

lemma parse_Nil:
  assumes "parse d = ([], r, bad)"
  shows "r = d \<and> (length d < 8 \<or> bad_head (decode_head d) \<or> length d < 8 + nat (msglen (decode_head d))) \<and>
    bad = (8 \<le> length d \<and> bad_head (decode_head d))"
proof (cases "length d < 8 \<or> bad_head (decode_head d) \<or> length d < 8 + nat (msglen (decode_head d))")
  case True
  with parse_stop [OF True] assms show ?thesis by auto
next
  case False
  with parse_step [of d] assms show ?thesis by (auto simp: Let_def split: prod.splits)
qed

lemma parse_Cons:
  assumes "parse d = (m # ms, r, bad)"
  shows "8 \<le> length d \<and> \<not> bad_head (decode_head d) \<and> 8 + nat (msglen (decode_head d)) \<le> length d \<and>
    m = (msgid (decode_head d), take (nat (msglen (decode_head d))) (drop 8 d)) \<and>
    parse (drop (8 + nat (msglen (decode_head d))) d) = (ms, r, bad)"
proof (cases "length d < 8 \<or> bad_head (decode_head d) \<or> length d < 8 + nat (msglen (decode_head d))")
  case True
  with parse_stop [OF True] assms show ?thesis by auto
next
  case False
  with parse_step [of d] assms show ?thesis by (auto simp: Let_def split: prod.splits)
qed

lemma decode_head_append: "8 \<le> length d \<Longrightarrow> decode_head (d @ e) = decode_head d"
  by (simp add: decode_head_def)

lemma parse_append:
  "parse (d @ e) = (case parse d of
     (ms, r, True) \<Rightarrow> (ms, r @ e, True)
   | (ms, r, False) \<Rightarrow> (case parse (r @ e) of (ms', r', bad) \<Rightarrow> (ms @ ms', r', bad)))"
proof (induction d rule: parse.induct)
  case (1 d)
  show ?case
  proof (cases "length d < 8 \<or> \<not> bad_head (decode_head d) \<and> length d < 8 + nat (msglen (decode_head d))")
    case True
    then have "parse d = ([], d, False)" by (subst parse.simps) (auto simp: Let_def)
    then show ?thesis by (simp split: prod.splits)
  next
    case False
    then have l: "8 \<le> length d" by simp
    note hd = decode_head_append [OF l, of e]
    show ?thesis
    proof (cases "bad_head (decode_head d)")
      case True
      with l hd show ?thesis by (simp add: parse_stop)
    next
      case good: False
      with False have le: "8 + nat (msglen (decode_head d)) \<le> length d" by auto
      have st: "parse (d @ e) = (let h = decode_head d; (ms, r, bad) = parse (drop (8 + nat (msglen h)) d @ e)
        in ((msgid h, take (nat (msglen h)) (drop 8 d)) # ms, r, bad))"
        using parse_step [of "d @ e"] l hd good le by (simp add: Let_def)
      show ?thesis
        using 1 [OF _ refl] l good le parse_step [OF l good le]
        by (auto simp: st Let_def split: prod.splits bool.splits)
    qed
  qed
qed

lemma parse_idem: "parse d = (ms, r, False) \<Longrightarrow> parse r = ([], r, False)"
proof (induction d arbitrary: ms rule: parse.induct)
  case (1 d)
  show ?case
  proof (cases "length d < 8 \<or> bad_head (decode_head d) \<or> length d < 8 + nat (msglen (decode_head d))")
    case True
    with parse_stop [OF this] 1(2) show ?thesis by auto
  next
    case False
    then show ?thesis using 1(1) [OF _ refl] 1(2) parse_step [of d]
      by (auto simp: Let_def split: prod.splits)
  qed
qed

lemma decode_encode_msg:
  assumes "msg_ok m"
  shows "decode_head (encode_msg m @ rest) = \<lparr>msgid = fst m, msglen = int (length (snd m))\<rparr>"
    and "\<not> bad_head \<lparr>msgid = fst m, msglen = int (length (snd m))\<rparr>"
proof -
  have "in_int (int (length (snd m)))" using assms
    by (auto simp: msg_ok_def in_int_def MESSAGE_LENGTH_LIMIT_def MESSAGE_HEAD_LEN_def)
  then show "decode_head (encode_msg m @ rest) = \<lparr>msgid = fst m, msglen = int (length (snd m))\<rparr>"
    using assms decode_encode_head [of "\<lparr>msgid = fst m, msglen = int (length (snd m))\<rparr>" "snd m @ rest"]
    by (simp add: encode_msg_def msg_ok_def)
  show "\<not> bad_head \<lparr>msgid = fst m, msglen = int (length (snd m))\<rparr>"
    using assms by (simp add: bad_head_def msg_ok_def)
qed

lemma length_encode_msg [simp]: "length (encode_msg m) = 8 + length (snd m)"
  by (simp add: encode_msg_def)

lemma parse_encode_msg:
  "msg_ok m \<Longrightarrow> parse (encode_msg m @ rest) = (case parse rest of (ms, r, bad) \<Rightarrow> (m # ms, r, bad))"
  using decode_encode_msg(1) [of m rest] decode_encode_msg(2) [of m]
  by (subst parse_step) (auto simp: encode_msg_def Let_def split: prod.splits)

lemma parse_partial:
  assumes "msg_ok m" and "encode_msg m = part @ unsent" and "unsent \<noteq> []"
  shows "parse part = ([], part, False)"
proof (cases "length part < 8")
  case False
  then have "decode_head part = decode_head (encode_msg m @ [])"
    using decode_head_append [of part unsent] assms(2) by simp
  then have "decode_head part = \<lparr>msgid = fst m, msglen = int (length (snd m))\<rparr>"
    using decode_encode_msg(1) [OF assms(1), of "[]"] by simp
  moreover have "length part < 8 + length (snd m)"
    using assms(3) length_encode_msg [of m] unfolding assms(2) by (cases unsent) auto
  ultimately show ?thesis using decode_encode_msg(2) [OF assms(1)] parse_stop [of part] by simp
qed (simp add: parse_short)

lemma parse_encode_msgs:
  "\<forall>m \<in> set ms. msg_ok m \<Longrightarrow>
   parse (concat (map encode_msg ms) @ rest) = (case parse rest of (ms', r, bad) \<Rightarrow> (ms @ ms', r, bad))"
  by (induction ms) (auto simp: parse_encode_msg split: prod.splits)

text \<open>The bytes end with a message of length zero: after its header nothing is left.\<close>

definition ends_empty :: "u8 list \<Rightarrow> bool" where
  "ends_empty d \<longleftrightarrow> (case parse d of (ms, r, bad) \<Rightarrow> ms \<noteq> [] \<and> snd (last ms) = [] \<and> r = [])"

section \<open>Properties\<close>

text \<open>
  A header put together by \<open>send_message\<close> is read back unchanged by \<open>memcpy\<close> into a \<open>msg_head\<close>.
\<close>

theorem head_roundtrip:
  assumes "in_int (msgid h)" and "in_int (msglen h)"
  shows "decode_head (encode_head h @ rest) = h \<and> length (encode_head h) = nat MESSAGE_HEAD_LEN"
  using decode_encode_head [OF assms] by (simp add: MESSAGE_HEAD_LEN_def)

lemma head_roundtrip_witness: "decode_head (encode_head \<lparr>msgid = - 3, msglen = 65000\<rparr>) = \<lparr>msgid = - 3, msglen = 65000\<rparr>"
  using head_roundtrip [of "\<lparr>msgid = - 3, msglen = 65000\<rparr>" "[]"] by (simp add: in_int_def)

end
