(* ===== verification/Framed_Conn.thy ===== *)
theory Framed_Conn
  imports Reactor_Buf Message
begin

text \<open>
  What \<open>tcp_conn\<close> and \<open>tcp_client\<close> have in common, which their sources spell out twice: reading the
  socket into \<open>ibuf\<close> and handing the complete messages to the callbacks, and queueing a message in
  \<open>obuf\<close>. The code is written over a world \<open>'w\<close> with the connection's buffer pointer, the pool, and a
  function that stores both back; the two classes instantiate it.
\<close>

section \<open>Operations on the buffer of a connection\<close>

definition w_pop ::
  "('w \<Rightarrow> ptr) \<Rightarrow> ('w \<Rightarrow> pool_st) \<Rightarrow> (ptr \<Rightarrow> pool_st \<Rightarrow> 'w \<Rightarrow> 'w) \<Rightarrow> int \<Rightarrow> 'w \<Rightarrow> 'w res" where
  "w_pop buf_of pool_of put_buf n w =
     rbind (rb_pop n (buf_of w) (pool_of w)) (\<lambda>(p, s). Inr (put_buf p s w))"

text \<open>
  The \<open>while\<close> loop of \<open>do_read\<close>. \<open>call\<close> gets the message number, the length and the bytes at
  \<open>ibuf.data()\<close> (\<open>None\<close> for \<open>NULL\<close>). The fuel bounds the number of messages handled.
\<close>

fun frame_loop ::
  "nat \<Rightarrow> ('w \<Rightarrow> ptr) \<Rightarrow> ('w \<Rightarrow> pool_st) \<Rightarrow> (ptr \<Rightarrow> pool_st \<Rightarrow> 'w \<Rightarrow> 'w) \<Rightarrow>
   (int \<Rightarrow> int \<Rightarrow> u8 list option \<Rightarrow> 'w \<Rightarrow> 'w res) \<Rightarrow> ('w \<Rightarrow> 'w res) \<Rightarrow> 'w \<Rightarrow> 'w res" where
  "frame_loop fuel buf_of pool_of put_buf call clean_up w =
     rbind (rb_length (buf_of w) (pool_of w)) (\<lambda>len.
       if \<not> MESSAGE_HEAD_LEN \<le> len then Inr w
       else rbind (rb_data (buf_of w) (pool_of w)) (\<lambda>d.
         case d of
           None \<Rightarrow> Inl NullDeref
         | Some bytes \<Rightarrow>
             (let head = decode_head bytes
              in if bad_head head then clean_up w
                 else if len < MESSAGE_HEAD_LEN + msglen head then Inr w
                 else case fuel of
                        0 \<Rightarrow> Inl Blocked
                      | Suc fuel' \<Rightarrow>
                          rbind (w_pop buf_of pool_of put_buf MESSAGE_HEAD_LEN w) (\<lambda>w1.
                          rbind (rb_data (buf_of w1) (pool_of w1)) (\<lambda>dat.
                          rbind (call (msgid head) (msglen head)
                                   (map_option (take (nat (msglen head))) dat) w1) (\<lambda>w2.
                          rbind (w_pop buf_of pool_of put_buf (msglen head) w2)
                            (frame_loop fuel' buf_of pool_of put_buf call clean_up)))))))"

declare frame_loop.simps [simp del]

definition read_frames ::
  "nat \<Rightarrow> ('w \<Rightarrow> ptr) \<Rightarrow> ('w \<Rightarrow> pool_st) \<Rightarrow> (ptr \<Rightarrow> pool_st \<Rightarrow> 'w \<Rightarrow> 'w) \<Rightarrow>
   (int \<Rightarrow> int \<Rightarrow> u8 list option \<Rightarrow> 'w \<Rightarrow> 'w res) \<Rightarrow> ('w \<Rightarrow> 'w res) \<Rightarrow>
   int option \<Rightarrow> rd_ret list \<Rightarrow> 'w \<Rightarrow> 'w res" where
  "read_frames fuel buf_of pool_of put_buf call clean_up fionread rs w =
     rbind (read_data fionread rs (buf_of w) (pool_of w)) (\<lambda>(ret, _, p, s).
       let w1 = put_buf p s w
       in if ret = - 1 then clean_up w1
          else rbind (if ret = 0 then clean_up w1 else Inr w1) (\<lambda>w2.
               rbind (frame_loop fuel buf_of pool_of put_buf call clean_up w2) (\<lambda>w3.
               rbind (rb_adjust (buf_of w3) (pool_of w3)) (\<lambda>s'. Inr (put_buf (buf_of w3) s' w3)))))"

text \<open>
  \<open>send_message\<close>; \<open>arm\<close> adds the write event. When the body does not fit, the header is taken back
  with \<open>pop\<close>, which takes bytes from the front.
\<close>

definition send_framed ::
  "('w \<Rightarrow> ptr) \<Rightarrow> ('w \<Rightarrow> pool_st) \<Rightarrow> (ptr \<Rightarrow> pool_st \<Rightarrow> 'w \<Rightarrow> 'w) \<Rightarrow> ('w \<Rightarrow> 'w) \<Rightarrow>
   u8 list \<Rightarrow> int \<Rightarrow> 'w \<Rightarrow> (int \<times> 'w) res" where
  "send_framed buf_of pool_of put_buf arm data i w =
     rbind (rb_length (buf_of w) (pool_of w)) (\<lambda>len.
       let active_epollout = (len = 0);
           head = \<lparr>msgid = i, msglen = int (length data)\<rparr>
       in rbind (send_data (encode_head head) (buf_of w) (pool_of w)) (\<lambda>(ret, p, s).
            let w1 = put_buf p s w
            in if ret \<noteq> 0 then Inr (- 1, w1)
               else rbind (send_data data (buf_of w1) (pool_of w1)) (\<lambda>(ret2, p2, s2).
                 let w2 = put_buf p2 s2 w1
                 in if ret2 \<noteq> 0 then
                      rbind (w_pop buf_of pool_of put_buf MESSAGE_HEAD_LEN w2) (\<lambda>w3. Inr (- 1, w3))
                    else Inr (0, if active_epollout then arm w2 else w2))))"

section \<open>The interface\<close>

text \<open>A connection's buffer as seen through its world: what is stored is what is read.\<close>

locale conn_buffer =
  fixes buf_of :: "'w \<Rightarrow> ptr" and pool_of :: "'w \<Rightarrow> pool_st" and put_buf :: "ptr \<Rightarrow> pool_st \<Rightarrow> 'w \<Rightarrow> 'w"
  assumes buf_put [simp]: "buf_of (put_buf p s w) = p"
    and pool_put [simp]: "pool_of (put_buf p s w) = s"
    and put_put [simp]: "put_buf p s (put_buf p' s' w) = put_buf p s w"
    and put_same [simp]: "put_buf (buf_of w) (pool_of w) w = w"
begin

definition holds :: "'w \<Rightarrow> u8 list \<Rightarrow> bool" where
  "holds w d \<longleftrightarrow> pool_inv (pool_of w) \<and> rb_holds (pool_of w) (buf_of w) d"

lemma holds_length: "holds w d \<Longrightarrow> rb_length (buf_of w) (pool_of w) = Inr (int (length d))"
  by (simp add: holds_def rb_length_ok)

lemma holds_data: "holds w d \<Longrightarrow> rb_data (buf_of w) (pool_of w) = Inr (if buf_of w = NULL then None else Some d)"
  by (simp add: holds_def rb_data_ok)

lemma holds_NULL: "holds w d \<Longrightarrow> buf_of w = NULL \<Longrightarrow> d = []"
  by (simp add: holds_def)

lemma w_pop_ok:
  assumes "holds w d" and "buf_of w \<noteq> NULL" and "0 \<le> n" and "n \<le> int (length d)"
  shows "\<exists>p s. w_pop buf_of pool_of put_buf n w = Inr (put_buf p s w) \<and> holds (put_buf p s w) (drop (nat n) d) \<and>
    (p = NULL \<longleftrightarrow> n = int (length d))"
proof -
  obtain q s' where "rb_pop n (buf_of w) (pool_of w) = Inr (q, s')" "pool_inv s'" "rb_holds s' q (drop (nat n) d)"
      "q = (if n = int (length d) then NULL else buf_of w)"
    using rb_pop_ok [of "pool_of w" "buf_of w" d n] assms by (auto simp: holds_def)
  then show ?thesis using assms(2)
    by (intro exI [of _ q] exI [of _ s']) (auto simp: w_pop_def holds_def)
qed

lemma w_pop_NULL: "buf_of w = NULL \<Longrightarrow> w_pop buf_of pool_of put_buf n w = Inl AssertFail"
  by (simp add: w_pop_def rb_pop_NULL)

text \<open>
  What the loop needs of the message callbacks: for a good message they return, leave \<open>ibuf\<close> alone and keep
  the pool well-formed. \<open>view\<close> is the part of the world they work on, \<open>upd\<close> what a message does to it.
\<close>

definition acts_ok ::
  "(int \<Rightarrow> int \<Rightarrow> u8 list option \<Rightarrow> 'w \<Rightarrow> 'w res) \<Rightarrow> (msg \<Rightarrow> bool) \<Rightarrow> (msg \<Rightarrow> 'v \<Rightarrow> 'v) \<Rightarrow> ('w \<Rightarrow> 'v) \<Rightarrow> bool" where
  "acts_ok call good upd view \<longleftrightarrow>
     (\<forall>p s w. view (put_buf p s w) = view w) \<and>
     (\<forall>i body w d. good (i, body) \<longrightarrow> holds w d \<longrightarrow> (buf_of w = NULL \<longrightarrow> body = []) \<longrightarrow>
        (\<exists>w'. call i (int (length body)) (if buf_of w = NULL then None else Some body) w = Inr w' \<and>
              holds w' d \<and> buf_of w' = buf_of w \<and> view w' = upd (i, body) (view w)))"

text \<open>Callbacks that keep a log \<open>seen\<close> of the calls; only the accepted message numbers have one.\<close>

definition handler_ok ::
  "(int \<Rightarrow> int \<Rightarrow> u8 list option \<Rightarrow> 'w \<Rightarrow> 'w res) \<Rightarrow> (int \<Rightarrow> bool) \<Rightarrow> ('w \<Rightarrow> msg list) \<Rightarrow> bool" where
  "handler_ok call accepts seen \<longleftrightarrow>
     acts_ok call (\<lambda>_. True) (\<lambda>m ms. ms @ (if accepts (fst m) then [m] else [])) seen"

lemma acts_okD:
  assumes "acts_ok call good upd view"
  shows "view (put_buf p s w) = view w"
    and "\<lbrakk>good (i, body); holds v d; buf_of v = NULL \<Longrightarrow> body = []\<rbrakk> \<Longrightarrow>
      \<exists>w'. call i (int (length body)) (if buf_of v = NULL then None else Some body) v = Inr w' \<and>
        holds w' d \<and> buf_of w' = buf_of v \<and> view w' = upd (i, body) (view v)"
  using assms unfolding acts_ok_def by blast+

lemma handler_okI:
  assumes "\<And>p s w. seen (put_buf p s w) = seen w"
    and "\<And>i body w d. holds w d \<Longrightarrow> buf_of w = NULL \<longrightarrow> body = [] \<Longrightarrow>
      \<exists>w'. call i (int (length body)) (if buf_of w = NULL then None else Some body) w = Inr w' \<and>
        holds w' d \<and> buf_of w' = buf_of w \<and> seen w' = seen w @ (if accepts i then [(i, body)] else [])"
  shows "handler_ok call accepts seen"
  unfolding handler_ok_def acts_ok_def fst_conv using assms by blast

lemma fold_log: "fold (\<lambda>m ms. ms @ (if P m then [m] else [])) xs ys = ys @ filter P xs"
  by (induction xs arbitrary: ys) simp_all

lemma frame_loop_stop:
  assumes "holds w d" and "parse d = ([], r, bad)"
  shows "frame_loop fuel buf_of pool_of put_buf call clean_up w = (if bad then clean_up w else Inr w)"
proof (cases "length d < 8")
  case True
  with assms show ?thesis
    by (simp add: frame_loop.simps holds_length MESSAGE_HEAD_LEN_def parse_short)
next
  case False
  then have "buf_of w \<noteq> NULL" using holds_NULL [OF assms(1)] by auto
  then have data: "rb_data (buf_of w) (pool_of w) = Inr (Some d)" using holds_data [OF assms(1)] by simp
  have "bad_head (decode_head d) \<or> length d < 8 + nat (msglen (decode_head d))" "bad = bad_head (decode_head d)"
    using parse_Nil [OF assms(2)] False by auto
  with data False show ?thesis
    by (auto simp: frame_loop.simps holds_length [OF assms(1)] MESSAGE_HEAD_LEN_def Let_def bad_head_def)
qed

lemma frame_loop_step:
  assumes h: "holds w d" and "acts_ok call good upd view" and p: "parse d = (m # ms, r, bad)" and "good m"
  shows "\<exists>w'. holds w' (drop (8 + length (snd m)) d) \<and> view w' = upd m (view w) \<and>
    parse (drop (8 + length (snd m)) d) = (ms, r, bad) \<and>
    frame_loop (Suc fuel) buf_of pool_of put_buf call clean_up w =
      (if length d = 8 then Inl AssertFail else frame_loop fuel buf_of pool_of put_buf call clean_up w')"
proof -
  let ?h = "decode_head d" let ?n = "nat (msglen ?h)"
  have len: "8 \<le> length d" and good: "\<not> bad_head ?h" and le: "8 + ?n \<le> length d"
    using parse_Cons [OF p] by auto
  have n: "int ?n = msglen ?h" using good by (simp add: bad_head_def)
  have m: "m = (msgid ?h, take ?n (drop 8 d))" "length (snd m) = ?n"
    "parse (drop (8 + length (snd m)) d) = (ms, r, bad)"
    using parse_Cons [OF p] by auto
  have nn: "buf_of w \<noteq> NULL" using holds_NULL [OF h] len by auto
  have data: "rb_data (buf_of w) (pool_of w) = Inr (Some d)" using holds_data [OF h] nn by simp
  obtain q s where w1: "w_pop buf_of pool_of put_buf 8 w = Inr (put_buf q s w)"
      "holds (put_buf q s w) (drop 8 d)" "q = NULL \<longleftrightarrow> length d = 8"
    using w_pop_ok [OF h nn, of 8] len by auto
  let ?w1 = "put_buf q s w"
  have dat: "rb_data (buf_of ?w1) (pool_of ?w1) = Inr (if q = NULL then None else Some (drop 8 d))"
    using holds_data [OF w1(2)] by simp
  have nl: "q = NULL \<longrightarrow> take ?n (drop 8 d) = []" using w1(3) by simp
  obtain w2 where w2: "call (msgid ?h) (msglen ?h) (if q = NULL then None else Some (take ?n (drop 8 d))) ?w1 = Inr w2"
      "holds w2 (drop 8 d)" "buf_of w2 = q" "view w2 = upd m (view w)"
    using acts_okD(2) [OF assms(2) assms(4) [unfolded m(1)] w1(2)] acts_okD(1) [OF assms(2)] nl m(2) n
    by (auto simp: m(1))
  have unf: "frame_loop (Suc fuel) buf_of pool_of put_buf call clean_up w =
      rbind (w_pop buf_of pool_of put_buf (msglen ?h) w2) (frame_loop fuel buf_of pool_of put_buf call clean_up)"
    using len good le n data w1(1) dat w2(1)
    by (subst frame_loop.simps) (auto simp: holds_length [OF h] MESSAGE_HEAD_LEN_def Let_def)
  show ?thesis
  proof (cases "q = NULL")
    case True
    then have "length d = 8" "?n = 0" using w1(3) le by auto
    moreover have "holds w2 (drop (8 + length (snd m)) d)" using w2(2) m(2) \<open>?n = 0\<close> by simp
    ultimately show ?thesis using unf w_pop_NULL [of w2] w2(3,4) True m(3) by auto
  next
    case False
    then obtain q' s' where w3: "w_pop buf_of pool_of put_buf (msglen ?h) w2 = Inr (put_buf q' s' w2)"
        "holds (put_buf q' s' w2) (drop (nat (msglen ?h)) (drop 8 d))"
      using w_pop_ok [OF w2(2), of "msglen ?h"] w2(3) le n good by (auto simp: bad_head_def)
    have "view (put_buf q' s' w2) = upd m (view w)" using assms(2) w2(4) by (simp add: acts_ok_def)
    moreover have "length d \<noteq> 8" using w1(3) False by simp
    ultimately show ?thesis using unf w3 m by (auto simp: add.commute)
  qed
qed

text \<open>The loop hands over exactly the messages of the specification \<open>parse\<close> and keeps the rest.\<close>

lemma frame_loop_parse:
  assumes "holds w d" and "acts_ok call good upd view" and "parse d = (ms, r, bad)" and "\<not> ends_empty d"
    and "length ms \<le> fuel" and "\<forall>m \<in> set ms. good m"
  shows "\<exists>w'. holds w' r \<and> view w' = fold upd ms (view w) \<and>
    frame_loop fuel buf_of pool_of put_buf call clean_up w = (if bad then clean_up w' else Inr w')"
  using assms
proof (induction ms arbitrary: w d fuel)
  case Nil
  have "holds w r" using Nil(1) parse_Nil [OF Nil(3)] by simp
  then show ?case using frame_loop_stop [OF Nil(1,3)] by (intro exI [of _ w]) simp
next
  case (Cons m ms)
  then obtain fuel' where fuel: "fuel = Suc fuel'" by (cases fuel) auto
  obtain w' where w': "holds w' (drop (8 + length (snd m)) d)" "view w' = upd m (view w)"
      "parse (drop (8 + length (snd m)) d) = (ms, r, bad)"
      "frame_loop fuel buf_of pool_of put_buf call clean_up w =
      (if length d = 8 then Inl AssertFail else frame_loop fuel' buf_of pool_of put_buf call clean_up w')"
    using frame_loop_step [OF Cons.prems(1,2,3) Cons.prems(6) [rule_format, OF list.set_intros(1)]] unfolding fuel by blast
  have ne: "length d \<noteq> 8" "\<not> ends_empty (drop (8 + length (snd m)) d)"
    using Cons.prems(3,4) parse_Cons [OF Cons.prems(3)] w'(3) by (auto simp: ends_empty_def parse_short)
  have "length ms \<le> fuel'" using Cons.prems(5) fuel by simp
  then obtain w2 where "holds w2 r" "view w2 = fold upd ms (view w')"
      "frame_loop fuel' buf_of pool_of put_buf call clean_up w' = (if bad then clean_up w2 else Inr w2)"
    using Cons.IH [OF w'(1) Cons.prems(2) w'(3) ne(2)] Cons.prems(6) by auto
  with w'(2,4) ne(1) show ?case by (intro exI [of _ w2]) simp
qed

text \<open>A message of length zero at the end of the buffer aborts the process.\<close>

lemma frame_loop_ends_empty:
  assumes "holds w d" and "acts_ok call good upd view" and "parse d = (ms, r, bad)" and "ends_empty d"
    and "length ms \<le> fuel" and "\<forall>m \<in> set ms. good m"
  shows "frame_loop fuel buf_of pool_of put_buf call clean_up w = Inl AssertFail"
  using assms
proof (induction ms arbitrary: w d fuel)
  case Nil
  then show ?case by (simp add: ends_empty_def)
next
  case (Cons m ms)
  then obtain fuel' where fuel: "fuel = Suc fuel'" by (cases fuel) auto
  obtain w' where w': "holds w' (drop (8 + length (snd m)) d)" "view w' = upd m (view w)"
      "parse (drop (8 + length (snd m)) d) = (ms, r, bad)"
      "frame_loop fuel buf_of pool_of put_buf call clean_up w =
      (if length d = 8 then Inl AssertFail else frame_loop fuel' buf_of pool_of put_buf call clean_up w')"
    using frame_loop_step [OF Cons.prems(1,2,3) Cons.prems(6) [rule_format, OF list.set_intros(1)]] unfolding fuel by blast
  show ?case
  proof (cases "length d = 8")
    case False
    have "ms \<noteq> []"
    proof
      assume "ms = []"
      then have "drop (8 + length (snd m)) d = []" "snd m = []"
        using w'(3) parse_Nil [of "drop (8 + length (snd m)) d" r bad] Cons.prems(3,4)
        by (auto simp: ends_empty_def)
      with False parse_Cons [OF Cons.prems(3)] show False by simp
    qed
    then have "ends_empty (drop (8 + length (snd m)) d)" using Cons.prems(3,4) w'(3) by (auto simp: ends_empty_def)
    with Cons.IH [OF w'(1) Cons.prems(2) w'(3)] Cons.prems(5,6) fuel w'(4) False show ?thesis by simp
  qed (use w'(4) in simp)
qed

text \<open>\<open>do_read\<close> when bytes arrive that fit.\<close>

lemma read_frames_acts:
  assumes h: "holds w d" and rdy: "rb_ready (pool_of w) (buf_of w)" and call: "acts_ok call good upd view"
    and res: "reserve n (buf_of w) (pool_of w) = Inr (True, q, s1)"
    and rd: "read_retry rs = Inr (Rd bs, rs')" and bs: "bs \<noteq> []" "int (length bs) = n"
    and p: "parse (d @ bs) = (ms, r, False)" and ne: "\<not> ends_empty (d @ bs)" and fuel: "length ms \<le> fuel"
    and good: "\<forall>m \<in> set ms. good m"
  shows "\<exists>w'. read_frames fuel buf_of pool_of put_buf call clean_up (Some n) rs w = Inr w' \<and>
    holds w' r \<and> rb_ready (pool_of w') (buf_of w') \<and> view w' = fold upd ms (view w)"
proof -
  obtain s2 where rdd: "read_data (Some n) rs (buf_of w) (pool_of w) = Inr (n, rs', q, s2)"
      "pool_inv s2" "rb_holds s2 q (d @ bs)"
    using read_data_ok [OF _ _ rdy res rd] h bs unfolding holds_def
    by (auto split: if_splits)
  let ?w1 = "put_buf q s2 w"
  have h1: "holds ?w1 (d @ bs)" using rdd by (simp add: holds_def)
  obtain w3 where w3: "holds w3 r" "view w3 = fold upd ms (view w)"
      "frame_loop fuel buf_of pool_of put_buf call clean_up ?w1 = Inr w3"
    using frame_loop_parse [OF h1 call p ne fuel good, of clean_up] call unfolding acts_ok_def if_False by auto
  obtain s4 where s4: "rb_adjust (buf_of w3) (pool_of w3) = Inr s4" "pool_inv s4" "rb_holds s4 (buf_of w3) r"
      "rb_ready s4 (buf_of w3)"
    using rb_adjust_ok w3(1) unfolding holds_def by blast
  have "n > 0" using bs by auto
  then have "read_frames fuel buf_of pool_of put_buf call clean_up (Some n) rs w = Inr (put_buf (buf_of w3) s4 w3)"
    using rdd(1) w3(3) s4(1) by (simp add: read_frames_def Let_def)
  then show ?thesis using s4 w3(2) call by (auto simp: holds_def acts_ok_def)
qed

lemma read_frames_ok:
  assumes "holds w d" and "rb_ready (pool_of w) (buf_of w)" and call: "handler_ok call accepts seen"
    and "reserve n (buf_of w) (pool_of w) = Inr (True, q, s1)"
    and "read_retry rs = Inr (Rd bs, rs')" and "bs \<noteq> []" and "int (length bs) = n"
    and "parse (d @ bs) = (ms, r, False)" and "\<not> ends_empty (d @ bs)" and "length ms \<le> fuel"
  shows "\<exists>w'. read_frames fuel buf_of pool_of put_buf call clean_up (Some n) rs w = Inr w' \<and>
    holds w' r \<and> rb_ready (pool_of w') (buf_of w') \<and> seen w' = seen w @ filter (\<lambda>m. accepts (fst m)) ms"
  using read_frames_acts [OF assms(1,2) call [unfolded handler_ok_def] assms(4-10), of clean_up]
  by (simp add: fold_log)

text \<open>
  \<open>do_read\<close> when what has arrived is not yet a message, and when it completes one: the callback runs with the
  body still in the buffer, and afterwards the buffer is given back.
\<close>

lemma read_frames_data:
  assumes h: "holds w d" and rdy: "rb_ready (pool_of w) (buf_of w)"
    and res: "reserve (int (length bs)) (buf_of w) (pool_of w) = Inr (True, q, s1)" and bs: "bs \<noteq> []"
  obtains p s where "read_data (Some (int (length bs))) [Rd bs] (buf_of w) (pool_of w) = Inr (int (length bs), [], p, s)"
    "holds (put_buf p s w) (d @ bs)" "rb_ready s p" "others_kept (pool_of w) (buf_of w) s p"
proof -
  have rd: "read_retry [Rd bs] = Inr (Rd bs, [])" by simp
  have h': "pool_inv (pool_of w)" "rb_holds (pool_of w) (buf_of w) d" using h by (simp_all add: holds_def)
  show thesis
    by (rule read_data_ok [OF h' rdy res rd]) (use bs in \<open>auto simp: holds_def intro: that\<close>)
qed

lemma read_frames_part:
  assumes "holds w d" and "rb_ready (pool_of w) (buf_of w)"
    and "reserve (int (length bs)) (buf_of w) (pool_of w) = Inr (True, q, s1)" and "bs \<noteq> []"
    and p: "parse (d @ bs) = ([], r, False)"
  shows "\<exists>p s. read_frames fuel buf_of pool_of put_buf call clean_up (Some (int (length bs))) [Rd bs] w = Inr (put_buf p s w) \<and>
    pool_inv s \<and> rb_holds s p (d @ bs) \<and> rb_ready s p \<and> others_kept (pool_of w) (buf_of w) s p"
proof -
  obtain p s where r: "read_data (Some (int (length bs))) [Rd bs] (buf_of w) (pool_of w) = Inr (int (length bs), [], p, s)"
      "holds (put_buf p s w) (d @ bs)" "others_kept (pool_of w) (buf_of w) s p"
    using read_frames_data [OF assms(1-4)] by blast
  obtain s4 where s4: "rb_adjust p s = Inr s4" "pool_inv s4" "rb_holds s4 p (d @ bs)" "rb_ready s4 p" "others_kept s p s4 p"
    using rb_adjust_ok [of s p "d @ bs"] r(2) unfolding holds_def by auto
  then have "read_frames fuel buf_of pool_of put_buf call clean_up (Some (int (length bs))) [Rd bs] w = Inr (put_buf p s4 w)"
    using frame_loop_stop [OF r(2) p] r(1) assms(4) by (simp add: read_frames_def Let_def)
  then show ?thesis using s4 others_kept_trans [OF r(3) s4(5)] by blast
qed

lemma read_frames_one:
  assumes "holds w d" and "rb_ready (pool_of w) (buf_of w)"
    and "reserve (int (length bs)) (buf_of w) (pool_of w) = Inr (True, q, s1)" and "bs \<noteq> []"
    and m: "d @ bs = encode_msg m" "msg_ok m" "snd m \<noteq> []"
  shows "\<exists>p s. pool_inv s \<and> rb_holds s p (snd m) \<and> p \<noteq> NULL \<and> others_kept (pool_of w) (buf_of w) s p \<and>
    (let r = read_frames (Suc fuel) buf_of pool_of put_buf call clean_up (Some (int (length bs))) [Rd bs] w in
     (\<forall>e. call (fst m) (int (length (snd m))) (Some (snd m)) (put_buf p s w) = Inl e \<longrightarrow> r = Inl e) \<and>
     (\<forall>w2. call (fst m) (int (length (snd m))) (Some (snd m)) (put_buf p s w) = Inr w2 \<longrightarrow> holds w2 (snd m) \<longrightarrow> buf_of w2 = p \<longrightarrow>
        (\<exists>s2. r = Inr (put_buf NULL s2 w2) \<and> pool_inv s2 \<and> others_kept (pool_of w2) p s2 NULL)))"
proof -
  obtain p s where r: "read_data (Some (int (length bs))) [Rd bs] (buf_of w) (pool_of w) = Inr (int (length bs), [], p, s)"
      "holds (put_buf p s w) (encode_msg m)" "others_kept (pool_of w) (buf_of w) s p"
    using read_frames_data [OF assms(1-4)] unfolding m(1) by blast
  let ?w1 = "put_buf p s w" let ?n = "int (length (snd m))"
  have dec: "decode_head (encode_msg m) = \<lparr>msgid = fst m, msglen = ?n\<rparr>" "\<not> bad_head (decode_head (encode_msg m))"
    using decode_encode_msg(1) [OF m(2), of "[]"] decode_encode_msg(2) [OF m(2)] by simp_all
  have len: "int (length (encode_msg m)) = 8 + ?n" by (simp add: length_encode_msg)
  then have "encode_msg m \<noteq> []" using m(3) by force
  then have nn: "p \<noteq> NULL" using holds_NULL [OF r(2)] by auto
  obtain s2 where s2: "rb_pop 8 p s = Inr (p, s2)" "pool_inv s2" "rb_holds s2 p (snd m)" "others_kept s p s2 p"
    using rb_pop_ok [of s p "encode_msg m" 8] r(2) nn len m(3) by (auto simp: holds_def encode_msg_def)
  let ?w2 = "put_buf p s2 w"
  have h2: "holds ?w2 (snd m)" using s2 by (simp add: holds_def)
  let ?call = "call (fst m) ?n (Some (snd m)) ?w2"
  have step: "frame_loop (Suc fuel) buf_of pool_of put_buf call clean_up ?w1 =
      rbind ?call (\<lambda>w2. rbind (w_pop buf_of pool_of put_buf ?n w2) (frame_loop fuel buf_of pool_of put_buf call clean_up))"
    using holds_length [OF r(2)] holds_data [OF r(2)] holds_data [OF h2] nn s2(1) dec len
    by (subst frame_loop.simps) (simp add: MESSAGE_HEAD_LEN_def Let_def w_pop_def)
  let ?r = "read_frames (Suc fuel) buf_of pool_of put_buf call clean_up (Some (int (length bs))) [Rd bs] w"
  have run: "?r = rbind (frame_loop (Suc fuel) buf_of pool_of put_buf call clean_up ?w1)
      (\<lambda>w3. rbind (rb_adjust (buf_of w3) (pool_of w3)) (\<lambda>s'. Inr (put_buf (buf_of w3) s' w3)))"
    using r(1) assms(4) by (simp add: read_frames_def Let_def)
  have "\<exists>s3. ?r = Inr (put_buf NULL s3 v) \<and> pool_inv s3 \<and> others_kept (pool_of v) p s3 NULL"
    if v: "?call = Inr v" "holds v (snd m)" "buf_of v = p" for v
  proof -
    obtain s3 where s3: "rb_pop ?n p (pool_of v) = Inr (NULL, s3)" "pool_inv s3" "others_kept (pool_of v) p s3 NULL"
      using rb_pop_ok [of "pool_of v" p "snd m" ?n] v nn by (auto simp: holds_def)
    have "holds (put_buf NULL s3 v) []" using s3(2) by (simp add: holds_def)
    from frame_loop_stop [OF this, of "[]" False fuel call clean_up]
    have "frame_loop fuel buf_of pool_of put_buf call clean_up (put_buf NULL s3 v) = Inr (put_buf NULL s3 v)"
      by (simp add: parse_short)
    then have "?r = Inr (put_buf NULL s3 v)" unfolding run step using v(1,3) s3(1)
      by (simp add: w_pop_def rb_adjust_def)
    then show ?thesis using s3(2,3) by blast
  qed
  moreover have "?call = Inl e \<Longrightarrow> ?r = Inl e" for e unfolding run step by simp
  ultimately show ?thesis using s2(2,3) nn others_kept_trans [OF r(3) s2(4)]
    unfolding Let_def by (intro exI [of _ p] exI [of _ s2]) blast
qed

text \<open>\<open>send_message\<close> when it succeeds, and when the header fits but the body does not.\<close>

lemma send_framed_ok:
  assumes h: "holds w d" and rdy: "rb_ready (pool_of w) (buf_of w)"
    and run: "send_framed buf_of pool_of put_buf arm data i w = Inr (0, w')"
  shows "\<exists>p s. w' = (if d = [] then arm (put_buf p s w) else put_buf p s w) \<and> pool_inv s \<and>
    rb_holds s p (d @ encode_msg (i, data)) \<and> rb_ready s p \<and> others_kept (pool_of w) (buf_of w) s p"
proof -
  let ?h = "encode_head \<lparr>msgid = i, msglen = int (length data)\<rparr>"
  from h have h': "pool_inv (pool_of w)" "rb_holds (pool_of w) (buf_of w) d" by (simp_all add: holds_def)
  obtain p1 s1 where sd1: "send_data ?h (buf_of w) (pool_of w) = Inr (0, p1, s1)"
    using run holds_length [OF h] by (auto simp: send_framed_def rbind_eq_Inr Let_def split: if_splits)
  have one: "pool_inv s1" "rb_holds s1 p1 (d @ ?h)" "rb_ready s1 p1"
    and kept: "others_kept (pool_of w) (buf_of w) s1 p1"
    using send_data_ok [OF h' rdy sd1] by simp_all
  obtain p2 s2 where sd2: "send_data data p1 s1 = Inr (0, p2, s2)"
      "w' = (if d = [] then arm (put_buf p2 s2 w) else put_buf p2 s2 w)"
    using run holds_length [OF h] sd1
    by (auto simp: send_framed_def rbind_eq_Inr Let_def split: if_splits)
  then show ?thesis using send_data_ok [OF one sd2(1)] others_kept_trans [OF kept]
    by (intro exI [of _ p2] exI [of _ s2]) (simp add: encode_msg_def)
qed

text \<open>Small amounts are never refused: if the call returns, it has sent, or has found a buffer to read into.\<close>

lemma send_framed_small:
  assumes h: "holds w d" and rdy: "rb_ready (pool_of w) (buf_of w)"
    and run: "send_framed buf_of pool_of put_buf arm data i w = Inr (r, w')" and small: "length d + 8 + length data \<le> 8388608"
  shows "r = 0"
proof (rule ccontr)
  assume r: "r \<noteq> 0"
  let ?h = "encode_head \<lparr>msgid = i, msglen = int (length data)\<rparr>"
  from h have h': "pool_inv (pool_of w)" "rb_holds (pool_of w) (buf_of w) d" by (simp_all add: holds_def)
  obtain r1 p1 s1 where sd1: "send_data ?h (buf_of w) (pool_of w) = Inr (r1, p1, s1)"
    using run holds_length [OF h] by (auto simp: send_framed_def rbind_eq_Inr Let_def)
  have r1: "r1 = 0" using send_data_ok [OF h' rdy sd1] small by (auto split: if_splits)
  then have one: "pool_inv s1" "rb_holds s1 p1 (d @ ?h)" "rb_ready s1 p1" using send_data_ok [OF h' rdy sd1] by simp_all
  obtain r2 p2 s2 where sd2: "send_data data p1 s1 = Inr (r2, p2, s2)"
    using run holds_length [OF h] sd1 r1 by (auto simp: send_framed_def rbind_eq_Inr Let_def)
  have "r2 = 0" using send_data_ok [OF one sd2] small by (auto split: if_splits)
  with run holds_length [OF h] sd1 sd2 r1 r show False by (simp add: send_framed_def Let_def)
qed

lemma read_reserved:
  assumes h: "holds w d" and rdy: "rb_ready (pool_of w) (buf_of w)"
    and run: "read_frames fuel buf_of pool_of put_buf call clean_up (Some (int (length bs))) rs w = Inr w'"
    and small: "length d + length bs \<le> 8388608"
  shows "\<exists>q s1. reserve (int (length bs)) (buf_of w) (pool_of w) = Inr (True, q, s1)"
proof -
  obtain ok q s1 where r: "reserve (int (length bs)) (buf_of w) (pool_of w) = Inr (ok, q, s1)"
    using run by (auto simp: read_frames_def read_data_def rbind_eq_Inr)
  have "pool_inv (pool_of w)" "rb_holds (pool_of w) (buf_of w) d" using h by (simp_all add: holds_def)
  from reserve_ok [OF this rdy r] small have ok by (cases ok) auto
  with r show ?thesis by auto
qed

lemma send_framed_body_fails:
  assumes h: "holds w d" and rdy: "rb_ready (pool_of w) (buf_of w)" and ne: "d \<noteq> []"
    and sd1: "send_data (encode_head \<lparr>msgid = i, msglen = int (length data)\<rparr>) (buf_of w) (pool_of w) = Inr (0, p1, s1)"
    and big: "8388608 < int (length data) + int (length d) + 8" "in_int (int (length data) + int (length d) + 8)"
  shows "\<exists>w'. send_framed buf_of pool_of put_buf arm data i w = Inr (- 1, w') \<and>
    holds w' (drop 8 (d @ encode_head \<lparr>msgid = i, msglen = int (length data)\<rparr>)) \<and>
    buf_of w' \<noteq> NULL \<and> \<not> rb_ready (pool_of w') (buf_of w')"
proof -
  let ?h = "encode_head \<lparr>msgid = i, msglen = int (length data)\<rparr>"
  from h have h': "pool_inv (pool_of w)" "rb_holds (pool_of w) (buf_of w) d" by (simp_all add: holds_def)
  have one: "pool_inv s1" "p1 \<noteq> NULL" "rb_holds s1 p1 (d @ ?h)" "rb_ready s1 p1"
    using send_data_ok [OF h' rdy sd1] by simp_all
  have sd2: "send_data data p1 s1 = Inr (- 1, p1, s1)"
    using send_data_too_big [OF one(1,3,4), of data] big by (simp add: algebra_simps)
  let ?w1 = "put_buf p1 s1 w"
  have h1: "holds ?w1 (d @ ?h)" using one by (simp add: holds_def)
  obtain q s where pop: "w_pop buf_of pool_of put_buf 8 ?w1 = Inr (put_buf q s w)"
      "holds (put_buf q s w) (drop 8 (d @ ?h))" "q = NULL \<longleftrightarrow> 8 = int (length (d @ ?h))"
    using w_pop_ok [OF h1, of 8] one(2) by auto
  then obtain q' s' where rp: "rb_pop 8 p1 s1 = Inr (q', s')" "put_buf q' s' w = put_buf q s w"
    by (auto simp: w_pop_def rbind_eq_Inr)
  have qs: "q' = q" "s' = s" using buf_put [of q' s' w] pool_put [of q' s' w] rp(2) by (simp_all del: buf_put pool_put) simp_all
  have "\<not> rb_ready s q" using rb_pop_not_ready [OF one(3,4) rp(1)] ne qs by (cases d) auto
  moreover have "q \<noteq> NULL" using pop(3) ne by (cases d) auto
  ultimately show ?thesis using holds_length [OF h] sd1 sd2 pop(1,2)
    by (auto simp: send_framed_def Let_def MESSAGE_HEAD_LEN_def)
qed

end

end
