(* ===== verification/Event_Loop.thy ===== *)
theory Event_Loop
  imports Lars_Base
begin

unbundle bit_operations_syntax

text \<open>
  \<open>event_loop\<close> (\<open>lars_reactors/include/event_base.h\<close>, \<open>event_loop.h\<close>, \<open>src/event_loop.cpp\<close>): the table of
  watched descriptors, its copy in the kernel's epoll instance, the dispatch of one batch of fired
  events, and the list of deferred tasks. A callback is a code \<open>'cb\<close> with an argument \<open>'a\<close> (\<open>None\<close> is
  \<open>NULL\<close>); what calling it does is a parameter of the dispatch, over a world \<open>'w\<close> that contains the loop.
\<close>

definition EPOLLIN :: i32 where "EPOLLIN = 1"
definition EPOLLOUT :: i32 where "EPOLLOUT = 4"
definition EPOLLERR :: i32 where "EPOLLERR = 8"
definition EPOLLHUP :: i32 where "EPOLLHUP = 16"

record ('cb, 'a) io_event =
  ev_mask :: i32
  read_cb :: "'cb option"
  write_cb :: "'cb option"
  rcb_args :: "'a option"
  wcb_args :: "'a option"

definition io_event_new :: "('cb, 'a) io_event" where
  "io_event_new = \<lparr>ev_mask = 0, read_cb = None, write_cb = None, rcb_args = None, wcb_args = None\<rparr>"

text \<open>\<open>epoll_set\<close> is the kernel's interest list, \<open>task_cap\<close> the allocated size of the vector of tasks.\<close>

record ('cb, 'a, 't) loop_st =
  io_evs :: "int \<Rightarrow> ('cb, 'a) io_event option"
  listen_fds :: "int set"
  epoll_set :: "int \<Rightarrow> i32 option"
  ready_tasks :: "('t \<times> 'a option) list"
  task_cap :: nat

definition event_loop_new :: "('cb, 'a, 't) loop_st" where
  "event_loop_new =
     \<lparr>io_evs = (\<lambda>_. None), listen_fds = {}, epoll_set = (\<lambda>_. None), ready_tasks = [], task_cap = 0\<rparr>"

text \<open>The constructor with the result of \<open>epoll_create1\<close>.\<close>

definition event_loop_init :: "int \<Rightarrow> ('cb, 'a, 't) loop_st res" where
  "event_loop_init epfd = (if epfd = - 1 then Inl (Exit 1) else Inr event_loop_new)"

section \<open>Watching descriptors\<close>

datatype ctl_op = CtlAdd | CtlMod

text \<open>
  \<open>epoll_ctl\<close> adds a descriptor that is not in the list and modifies one that is; \<open>kernel_ok\<close> is
  \<open>False\<close> where the kernel refuses the call for another reason (a bad descriptor, no memory).
\<close>

definition epoll_ctl :: "bool \<Rightarrow> ctl_op \<Rightarrow> int \<Rightarrow> i32 \<Rightarrow> (int \<Rightarrow> i32 option) \<Rightarrow> (int \<Rightarrow> i32 option) option" where
  "epoll_ctl kernel_ok op fd m k =
     (if kernel_ok \<and> (k fd = None) = (op = CtlAdd) then Some (k(fd \<mapsto> m)) else None)"

definition add_io_event ::
  "bool \<Rightarrow> int \<Rightarrow> 'cb \<Rightarrow> i32 \<Rightarrow> 'a option \<Rightarrow> ('cb, 'a, 't) loop_st \<Rightarrow> ('cb, 'a, 't) loop_st" where
  "add_io_event kernel_ok fd proc msk a s =
     (let op = (case io_evs s fd of None \<Rightarrow> CtlAdd | Some _ \<Rightarrow> CtlMod);
          final_mask = (case io_evs s fd of None \<Rightarrow> msk | Some ev \<Rightarrow> ev_mask ev OR msk);
          ev0 = (case io_evs s fd of None \<Rightarrow> io_event_new | Some ev \<Rightarrow> ev);
          ev1 = (if msk AND EPOLLIN \<noteq> 0 then ev0\<lparr>read_cb := Some proc, rcb_args := a\<rparr>
                 else if msk AND EPOLLOUT \<noteq> 0 then ev0\<lparr>write_cb := Some proc, wcb_args := a\<rparr>
                 else ev0);
          s1 = s\<lparr>io_evs := (io_evs s)(fd \<mapsto> ev1\<lparr>ev_mask := final_mask\<rparr>)\<rparr>
      in case epoll_ctl kernel_ok op fd final_mask (epoll_set s) of
           None \<Rightarrow> s1
         | Some k \<Rightarrow> s1\<lparr>epoll_set := k, listen_fds := insert fd (listen_fds s)\<rparr>)"

definition del_io_event :: "int \<Rightarrow> ('cb, 'a, 't) loop_st \<Rightarrow> ('cb, 'a, 't) loop_st" where
  "del_io_event fd s =
     (case io_evs s fd of
        None \<Rightarrow> s
      | Some _ \<Rightarrow> s\<lparr>io_evs := (io_evs s)(fd := None), listen_fds := listen_fds s - {fd},
                   epoll_set := (epoll_set s)(fd := None)\<rparr>)"

definition del_io_event_mask :: "bool \<Rightarrow> int \<Rightarrow> i32 \<Rightarrow> ('cb, 'a, 't) loop_st \<Rightarrow> ('cb, 'a, 't) loop_st" where
  "del_io_event_mask kernel_ok fd msk s =
     (case io_evs s fd of
        None \<Rightarrow> s
      | Some ev \<Rightarrow>
          (let o_mask = ev_mask ev AND NOT msk;
               s1 = s\<lparr>io_evs := (io_evs s)(fd \<mapsto> ev\<lparr>ev_mask := o_mask\<rparr>)\<rparr>
           in if o_mask = 0 then del_io_event fd s1
              else case epoll_ctl kernel_ok CtlMod fd o_mask (epoll_set s) of
                     None \<Rightarrow> s1
                   | Some k \<Rightarrow> s1\<lparr>epoll_set := k\<rparr>))"

section \<open>Tasks\<close>

text \<open>\<open>push_back\<close> on the vector: a full vector is reallocated at twice its size.\<close>

definition add_task :: "'t \<Rightarrow> 'a option \<Rightarrow> ('cb, 'a, 't) loop_st \<Rightarrow> ('cb, 'a, 't) loop_st" where
  "add_task f a s =
     s\<lparr>ready_tasks := ready_tasks s @ [(f, a)],
       task_cap := (if length (ready_tasks s) < task_cap s then task_cap s else max 1 (2 * task_cap s))\<rparr>"

text \<open>
  The iteration of \<open>execute_ready_tasks\<close>: a task that adds one may reallocate the vector, and then the
  iterator of the loop dangles. The fuel is the capacity: without a reallocation the index stays
  below it.
\<close>

fun run_tasks ::
  "nat \<Rightarrow> ('w \<Rightarrow> ('cb, 'a, 't) loop_st) \<Rightarrow> ('t \<Rightarrow> 'a option \<Rightarrow> 'w \<Rightarrow> 'w res) \<Rightarrow> nat \<Rightarrow> 'w \<Rightarrow> 'w res" where
  "run_tasks fuel loop_of run i w =
     (if length (ready_tasks (loop_of w)) \<le> i then Inr w
      else case fuel of
             0 \<Rightarrow> Inl Blocked
           | Suc fuel' \<Rightarrow>
               rbind (case ready_tasks (loop_of w) ! i of (f, a) \<Rightarrow> run f a w) (\<lambda>w'.
                 if task_cap (loop_of w') = task_cap (loop_of w) then run_tasks fuel' loop_of run (Suc i) w'
                 else Inl UseAfterFree))"

definition execute_ready_tasks ::
  "('w \<Rightarrow> ('cb, 'a, 't) loop_st) \<Rightarrow> (('cb, 'a, 't) loop_st \<Rightarrow> 'w \<Rightarrow> 'w) \<Rightarrow> ('t \<Rightarrow> 'a option \<Rightarrow> 'w \<Rightarrow> 'w res) \<Rightarrow> 'w \<Rightarrow> 'w res" where
  "execute_ready_tasks loop_of set_loop run w =
     rbind (run_tasks (task_cap (loop_of w)) loop_of run 0 w) (\<lambda>w'.
       Inr (set_loop (loop_of w'\<lparr>ready_tasks := []\<rparr>) w'))"

declare run_tasks.simps [simp del]

section \<open>Dispatch\<close>

text \<open>
  One fired event. \<open>find\<close> is not compared with \<open>end()\<close>, so a descriptor that an earlier callback of the
  same batch has deleted makes \<open>ev_it->second\<close> undefined; a missing callback is called all the same.
\<close>

definition call_cb :: "('cb \<Rightarrow> int \<Rightarrow> 'a option \<Rightarrow> 'w \<Rightarrow> 'w res) \<Rightarrow> 'cb option \<Rightarrow> int \<Rightarrow> 'a option \<Rightarrow> 'w \<Rightarrow> 'w res" where
  "call_cb run cb fd a w = (case cb of None \<Rightarrow> Inl NullDeref | Some c \<Rightarrow> run c fd a w)"

definition dispatch_one ::
  "('w \<Rightarrow> ('cb, 'a, 't) loop_st) \<Rightarrow> (('cb, 'a, 't) loop_st \<Rightarrow> 'w \<Rightarrow> 'w) \<Rightarrow>
   ('cb \<Rightarrow> int \<Rightarrow> 'a option \<Rightarrow> 'w \<Rightarrow> 'w res) \<Rightarrow> int \<times> i32 \<Rightarrow> 'w \<Rightarrow> 'w res" where
  "dispatch_one loop_of set_loop run fired w =
     (case fired of (fd, events) \<Rightarrow>
       case io_evs (loop_of w) fd of
         None \<Rightarrow> Inl EndIterator
       | Some ev \<Rightarrow>
           if events AND EPOLLIN \<noteq> 0 then call_cb run (read_cb ev) fd (rcb_args ev) w
           else if events AND EPOLLOUT \<noteq> 0 then call_cb run (write_cb ev) fd (wcb_args ev) w
           else if events AND (EPOLLHUP OR EPOLLERR) \<noteq> 0 then
             (if read_cb ev \<noteq> None then call_cb run (read_cb ev) fd (rcb_args ev) w
              else if write_cb ev \<noteq> None then call_cb run (write_cb ev) fd (wcb_args ev) w
              else Inr (set_loop (del_io_event fd (loop_of w)) w))
           else Inr w)"

fun dispatch_all ::
  "('w \<Rightarrow> ('cb, 'a, 't) loop_st) \<Rightarrow> (('cb, 'a, 't) loop_st \<Rightarrow> 'w \<Rightarrow> 'w) \<Rightarrow>
   ('cb \<Rightarrow> int \<Rightarrow> 'a option \<Rightarrow> 'w \<Rightarrow> 'w res) \<Rightarrow> (int \<times> i32) list \<Rightarrow> 'w \<Rightarrow> 'w res" where
  "dispatch_all loop_of set_loop run [] w = Inr w"
| "dispatch_all loop_of set_loop run (f # fs) w =
     rbind (dispatch_one loop_of set_loop run f w) (dispatch_all loop_of set_loop run fs)"

text \<open>One turn of the endless loop of \<open>event_process\<close>: the batch \<open>epoll_wait\<close> returned, then the tasks.\<close>

definition event_turn ::
  "('w \<Rightarrow> ('cb, 'a, 't) loop_st) \<Rightarrow> (('cb, 'a, 't) loop_st \<Rightarrow> 'w \<Rightarrow> 'w) \<Rightarrow>
   ('cb \<Rightarrow> int \<Rightarrow> 'a option \<Rightarrow> 'w \<Rightarrow> 'w res) \<Rightarrow> ('t \<Rightarrow> 'a option \<Rightarrow> 'w \<Rightarrow> 'w res) \<Rightarrow> (int \<times> i32) list \<Rightarrow> 'w \<Rightarrow> 'w res" where
  "event_turn loop_of set_loop run run_task fired w =
     rbind (dispatch_all loop_of set_loop run fired w) (execute_ready_tasks loop_of set_loop run_task)"

text \<open>\<open>event_process\<close> for a sequence of batches; \<open>epoll_wait\<close> blocks when the kernel has no more.\<close>

fun event_process ::
  "('w \<Rightarrow> ('cb, 'a, 't) loop_st) \<Rightarrow> (('cb, 'a, 't) loop_st \<Rightarrow> 'w \<Rightarrow> 'w) \<Rightarrow>
   ('cb \<Rightarrow> int \<Rightarrow> 'a option \<Rightarrow> 'w \<Rightarrow> 'w res) \<Rightarrow> ('t \<Rightarrow> 'a option \<Rightarrow> 'w \<Rightarrow> 'w res) \<Rightarrow>
   (int \<times> i32) list list \<Rightarrow> 'w \<Rightarrow> 'w res" where
  "event_process loop_of set_loop run run_task [] w = Inr w"
| "event_process loop_of set_loop run run_task (b # bs) w =
     rbind (event_turn loop_of set_loop run run_task b w) (event_process loop_of set_loop run run_task bs)"

section \<open>The invariant\<close>

text \<open>
  The three views of the watched descriptors agree, every mask asks for something, and a direction
  that is asked for has its callback.
\<close>

definition ev_ok :: "('cb, 'a) io_event \<Rightarrow> bool" where
  "ev_ok ev \<longleftrightarrow> ev_mask ev \<noteq> 0 \<and> (ev_mask ev AND EPOLLIN \<noteq> 0 \<longrightarrow> read_cb ev \<noteq> None) \<and>
     (ev_mask ev AND EPOLLOUT \<noteq> 0 \<longrightarrow> write_cb ev \<noteq> None)"

definition loop_inv :: "('cb, 'a, 't) loop_st \<Rightarrow> bool" where
  "loop_inv s \<longleftrightarrow>
     listen_fds s = dom (io_evs s) \<and>
     (\<forall>fd. epoll_set s fd = map_option ev_mask (io_evs s fd)) \<and>
     (\<forall>fd ev. io_evs s fd = Some ev \<longrightarrow> ev_ok ev) \<and>
     length (ready_tasks s) \<le> task_cap s"

lemma loop_inv_new [simp]: "loop_inv event_loop_new"
  by (auto simp: event_loop_new_def loop_inv_def)

lemma AND_OR_distrib_0: "(a OR b) AND (c :: i32) \<noteq> 0 \<longleftrightarrow> a AND c \<noteq> 0 \<or> b AND c \<noteq> 0"
  by (simp add: bit.conj_disj_distrib2 or_eq_0_iff)

text \<open>The masks the program uses: one direction at a time.\<close>

definition one_way :: "i32 \<Rightarrow> bool" where
  "one_way m \<longleftrightarrow> m = EPOLLIN \<or> m = EPOLLOUT"

lemma one_way_simps [simp]:
  "EPOLLIN AND EPOLLIN \<noteq> 0" "EPOLLOUT AND EPOLLOUT \<noteq> 0" "EPOLLIN AND EPOLLOUT = 0" "EPOLLOUT AND EPOLLIN = 0"
  "EPOLLIN \<noteq> 0" "EPOLLOUT \<noteq> 0"
  by (simp_all add: EPOLLIN_def EPOLLOUT_def)

lemma add_io_event_inv [inv_intros]:
  assumes "loop_inv s" and "one_way m"
  shows "loop_inv (add_io_event True fd cb m a s)"
proof -
  have k: "epoll_set s fd = map_option ev_mask (io_evs s fd)" using assms(1) by (simp add: loop_inv_def)
  have ok: "\<And>ev. io_evs s fd = Some ev \<Longrightarrow> ev_ok ev" using assms(1) by (auto simp: loop_inv_def)
  show ?thesis
    using assms k ok
    by (cases "io_evs s fd")
      (auto simp: add_io_event_def epoll_ctl_def Let_def loop_inv_def ev_ok_def io_event_new_def one_way_def
        AND_OR_distrib_0 or_eq_0_iff split: if_splits)
qed

lemma del_io_event_inv [inv_intros]: "loop_inv s \<Longrightarrow> loop_inv (del_io_event fd s)"
  by (auto simp: del_io_event_def loop_inv_def split: option.splits if_splits)

lemma clear_mask_simps [simp]:
  "(x AND NOT EPOLLIN) AND EPOLLIN = 0" "(x AND NOT EPOLLOUT) AND EPOLLOUT = 0"
  "(x AND NOT EPOLLIN) AND EPOLLOUT = x AND EPOLLOUT" "(x AND NOT EPOLLOUT) AND EPOLLIN = x AND EPOLLIN"
proof -
  have "NOT EPOLLIN AND EPOLLOUT = EPOLLOUT" "NOT EPOLLOUT AND EPOLLIN = EPOLLIN"
    by (simp_all add: EPOLLIN_def EPOLLOUT_def)
  then show "(x AND NOT EPOLLIN) AND EPOLLOUT = x AND EPOLLOUT" "(x AND NOT EPOLLOUT) AND EPOLLIN = x AND EPOLLIN"
    by (simp_all add: and.assoc)
qed (simp_all add: and.assoc)

lemma del_io_event_mask_inv [inv_intros]:
  assumes "loop_inv s" and "one_way m"
  shows "loop_inv (del_io_event_mask True fd m s)"
proof (cases "io_evs s fd")
  case (Some ev)
  have "epoll_set s fd \<noteq> None" "ev_ok ev" using assms(1) Some by (auto simp: loop_inv_def)
  with assms Some show ?thesis
    by (auto simp: del_io_event_mask_def del_io_event_def epoll_ctl_def Let_def loop_inv_def ev_ok_def
        one_way_def split: if_splits)
qed (use assms in \<open>simp add: del_io_event_mask_def\<close>)

lemma add_task_inv [inv_intros]: "loop_inv s \<Longrightarrow> loop_inv (add_task f a s)"
  by (auto simp: add_task_def loop_inv_def)

section \<open>What the operations do to one descriptor\<close>

lemma io_evs_add_other: "fd' \<noteq> fd \<Longrightarrow> io_evs (add_io_event k fd cb m a s) fd' = io_evs s fd'"
  by (auto simp: add_io_event_def Let_def split: option.splits)

lemma io_evs_del_other: "fd' \<noteq> fd \<Longrightarrow> io_evs (del_io_event fd s) fd' = io_evs s fd'"
  by (auto simp: del_io_event_def split: option.splits)

lemma io_evs_del_same [simp]: "io_evs (del_io_event fd s) fd = None"
  by (auto simp: del_io_event_def split: option.splits)

lemma io_evs_del_mask_other: "fd' \<noteq> fd \<Longrightarrow> io_evs (del_io_event_mask k fd m s) fd' = io_evs s fd'"
  by (auto simp: del_io_event_mask_def Let_def io_evs_del_other split: option.splits)

lemma tasks_add_io [simp]:
  "ready_tasks (add_io_event k fd cb m a s) = ready_tasks s" "task_cap (add_io_event k fd cb m a s) = task_cap s"
  by (auto simp: add_io_event_def Let_def split: option.splits)

lemma tasks_del_io [simp]:
  "ready_tasks (del_io_event fd s) = ready_tasks s" "task_cap (del_io_event fd s) = task_cap s"
  by (auto simp: del_io_event_def split: option.splits)

text \<open>The callback and argument \<open>dispatch_one\<close> uses for a readable or writable event.\<close>

definition handler_of :: "('cb, 'a) io_event \<Rightarrow> i32 \<Rightarrow> ('cb option \<times> 'a option)" where
  "handler_of ev events =
     (if events AND EPOLLIN \<noteq> 0 then (read_cb ev, rcb_args ev) else (write_cb ev, wcb_args ev))"

lemma run_tasks_done: "length (ready_tasks (loop_of w)) \<le> i \<Longrightarrow> run_tasks fuel loop_of run i w = Inr w"
  by (simp add: run_tasks.simps)

lemma run_tasks_quiet:
  assumes quiet: "\<And>f a w w'. run f a w = Inr w' \<Longrightarrow> loop_of w' = loop_of w"
    and "\<forall>(f, a) \<in> set (drop i (ready_tasks (loop_of w))). \<forall>w. \<exists>w'. run f a w = Inr w'"
    and "length (ready_tasks (loop_of w)) \<le> i + fuel"
  shows "run_tasks fuel loop_of run i w =
    fold (\<lambda>(f, a) m. rbind m (run f a)) (drop i (ready_tasks (loop_of w))) (Inr w)"
  using assms(2,3)
proof (induction fuel arbitrary: i w)
  case 0
  then show ?case by (simp add: run_tasks_done)
next
  case (Suc fuel)
  show ?case
  proof (cases "length (ready_tasks (loop_of w)) \<le> i")
    case False
    obtain f a where fa: "ready_tasks (loop_of w) ! i = (f, a)" by (cases "ready_tasks (loop_of w) ! i")
    have dr: "drop i (ready_tasks (loop_of w)) = (f, a) # drop (Suc i) (ready_tasks (loop_of w))"
      using False fa by (simp add: Cons_nth_drop_Suc [symmetric])
    then obtain w' where w': "run f a w = Inr w'" using Suc.prems(1) by fastforce
    have "loop_of w' = loop_of w" using quiet [OF w'] .
    then show ?thesis using Suc.IH [of "Suc i" w'] Suc.prems False fa dr w'
      by (simp add: run_tasks.simps)
  qed (simp add: run_tasks_done)
qed

lemma execute_ready_tasks_quiet:
  assumes "\<And>f a w w'. run f a w = Inr w' \<Longrightarrow> loop_of w' = loop_of w"
    and "\<forall>(f, a) \<in> set (ready_tasks (loop_of w)). \<forall>w. \<exists>w'. run f a w = Inr w'"
    and "length (ready_tasks (loop_of w)) \<le> task_cap (loop_of w)"
  shows "execute_ready_tasks loop_of set_loop run w =
    rbind (fold (\<lambda>(f, a) m. rbind m (run f a)) (ready_tasks (loop_of w)) (Inr w))
      (\<lambda>w'. Inr (set_loop (loop_of w'\<lparr>ready_tasks := []\<rparr>) w'))"
  using run_tasks_quiet [of run loop_of 0 w "task_cap (loop_of w)"] assms
  by (simp add: execute_ready_tasks_def)

text \<open>What the kernel reports: readiness that the interest list asks for.\<close>

definition kernel_fired :: "('cb, 'a, 't) loop_st \<Rightarrow> int \<times> i32 \<Rightarrow> bool" where
  "kernel_fired s fired \<longleftrightarrow>
     (case fired of (fd, events) \<Rightarrow>
       \<exists>m. epoll_set s fd = Some m \<and> events AND (EPOLLIN OR EPOLLOUT) \<noteq> 0 \<and>
         (events AND EPOLLIN \<noteq> 0 \<longrightarrow> m AND EPOLLIN \<noteq> 0) \<and> (events AND EPOLLOUT \<noteq> 0 \<longrightarrow> m AND EPOLLOUT \<noteq> 0))"

lemma kernel_fired_handler:
  assumes "loop_inv s" and "kernel_fired s (fd, events)"
  shows "\<exists>ev cb. io_evs s fd = Some ev \<and> fst (handler_of ev events) = Some cb \<and>
    (events AND EPOLLIN \<noteq> 0 \<or> events AND EPOLLOUT \<noteq> 0)"
proof -
  from assms obtain ev where ev: "io_evs s fd = Some ev" "ev_ok ev"
      "events AND EPOLLIN \<noteq> 0 \<longrightarrow> ev_mask ev AND EPOLLIN \<noteq> 0"
      "events AND EPOLLOUT \<noteq> 0 \<longrightarrow> ev_mask ev AND EPOLLOUT \<noteq> 0"
    by (fastforce simp: kernel_fired_def loop_inv_def)
  moreover have "events AND EPOLLIN \<noteq> 0 \<or> events AND EPOLLOUT \<noteq> 0"
    using assms(2) by (auto simp: kernel_fired_def bit.conj_disj_distrib)
  ultimately show ?thesis by (auto simp: ev_ok_def handler_of_def)
qed

lemma dispatch_one_handler:
  assumes "io_evs (loop_of w) fd = Some ev" and "fst (handler_of ev events) = Some cb"
    and "events AND EPOLLIN \<noteq> 0 \<or> events AND EPOLLOUT \<noteq> 0"
  shows "dispatch_one loop_of set_loop run (fd, events) w = run cb fd (snd (handler_of ev events)) w"
  using assms by (auto simp: dispatch_one_def handler_of_def call_cb_def split: if_splits)

section \<open>Properties\<close>

text \<open>
  The event table. Registering and removing descriptors keeps \<open>_io_evs\<close>, \<open>listen_fds\<close> and the kernel's
  interest list in agreement; registering a direction for a descriptor keeps the callback of the
  other direction; removing one direction keeps the other or drops the descriptor.
\<close>

theorem event_table_ok:
  assumes "loop_inv s" and "one_way m"
  shows "loop_inv (add_io_event True fd cb m a s) \<and> loop_inv (del_io_event fd s) \<and>
    loop_inv (del_io_event_mask True fd m s) \<and>
    (\<exists>ev. io_evs (add_io_event True fd cb m a s) fd = Some ev \<and> handler_of ev m = (Some cb, a) \<and>
       (\<forall>ev0. io_evs s fd = Some ev0 \<longrightarrow> ev_mask ev = ev_mask ev0 OR m \<and>
          (if m = EPOLLIN then write_cb ev = write_cb ev0 \<and> wcb_args ev = wcb_args ev0
           else read_cb ev = read_cb ev0 \<and> rcb_args ev = rcb_args ev0))) \<and>
    (\<forall>ev0. io_evs s fd = Some ev0 \<longrightarrow>
       io_evs (del_io_event_mask True fd m s) fd =
         (if ev_mask ev0 AND NOT m = 0 then None else Some (ev0\<lparr>ev_mask := ev_mask ev0 AND NOT m\<rparr>)))"
proof -
  have k: "epoll_set s fd = map_option ev_mask (io_evs s fd)" using assms(1) by (simp add: loop_inv_def)
  have "\<exists>ev. io_evs (add_io_event True fd cb m a s) fd = Some ev \<and> handler_of ev m = (Some cb, a) \<and>
       (\<forall>ev0. io_evs s fd = Some ev0 \<longrightarrow> ev_mask ev = ev_mask ev0 OR m \<and>
          (if m = EPOLLIN then write_cb ev = write_cb ev0 \<and> wcb_args ev = wcb_args ev0
           else read_cb ev = read_cb ev0 \<and> rcb_args ev = rcb_args ev0))"
    using assms(2) k
    by (cases "io_evs s fd") (auto simp: add_io_event_def Let_def epoll_ctl_def one_way_def handler_of_def)
  moreover have "io_evs (del_io_event_mask True fd m s) fd =
      (if ev_mask ev0 AND NOT m = 0 then None else Some (ev0\<lparr>ev_mask := ev_mask ev0 AND NOT m\<rparr>))"
    if "io_evs s fd = Some ev0" for ev0
    using that k by (auto simp: del_io_event_mask_def Let_def epoll_ctl_def)
  ultimately show ?thesis using assms by (blast intro: add_io_event_inv del_io_event_inv del_io_event_mask_inv)
qed

lemma event_table_ok_witness:
  "loop_inv (add_io_event True 5 ''rd'' EPOLLIN (Some (1 :: nat)) (event_loop_new :: (string, nat, nat) loop_st))"
  using event_table_ok [of "event_loop_new :: (string, nat, nat) loop_st" EPOLLIN 5 "''rd''" "Some 1"]
  by (simp add: one_way_def)

text \<open>
  One batch of events. If every callback returns and touches only the registration of its own
  descriptor, then each fired event runs, in the order of the batch, the callback and argument that
  were registered for it. \<open>calls\<close> is any log the callbacks keep.
\<close>

theorem dispatch_batch:
  assumes "loop_inv (loop_of w)" and "distinct (map fst fired)" and "\<forall>f \<in> set fired. kernel_fired (loop_of w) f"
    and run: "\<And>c fd a w. \<exists>w'. run c fd a w = Inr w' \<and> calls w' = calls w @ [(c, fd, a)] \<and>
      (\<forall>fd'. fd' \<noteq> fd \<longrightarrow> io_evs (loop_of w') fd' = io_evs (loop_of w) fd')"
  shows "\<exists>w'. dispatch_all loop_of set_loop run fired w = Inr w' \<and>
    calls w' = calls w @ map (\<lambda>(fd, events). case handler_of (the (io_evs (loop_of w) fd)) events of
      (cb, a) \<Rightarrow> (the cb, fd, a)) fired"
proof -
  have "\<exists>w'. dispatch_all loop_of set_loop run fs w1 = Inr w' \<and>
    calls w' = calls w1 @ map (\<lambda>(fd, events). case handler_of (the (io_evs (loop_of w) fd)) events of
      (cb, a) \<Rightarrow> (the cb, fd, a)) fs"
    if "distinct (map fst fs)" "\<forall>f \<in> set fs. kernel_fired (loop_of w) f"
      "\<forall>fd \<in> fst ` set fs. io_evs (loop_of w1) fd = io_evs (loop_of w) fd" for fs w1
    using that
  proof (induction fs arbitrary: w1)
    case (Cons f fs)
    obtain fd events where f: "f = (fd, events)" by (cases f)
    obtain ev cb where ev: "io_evs (loop_of w) fd = Some ev" "fst (handler_of ev events) = Some cb"
        "events AND EPOLLIN \<noteq> 0 \<or> events AND EPOLLOUT \<noteq> 0"
      using kernel_fired_handler [OF assms(1), of fd events] Cons.prems(2) f by auto
    then have "io_evs (loop_of w1) fd = Some ev" using Cons.prems(3) f by simp
    note one = dispatch_one_handler [of loop_of w1, OF this ev(2,3)]
    obtain w2 where w2: "run cb fd (snd (handler_of ev events)) w1 = Inr w2"
        "calls w2 = calls w1 @ [(cb, fd, snd (handler_of ev events))]"
        "\<forall>fd'. fd' \<noteq> fd \<longrightarrow> io_evs (loop_of w2) fd' = io_evs (loop_of w1) fd'"
      using run by blast
    have "\<forall>fd \<in> fst ` set fs. io_evs (loop_of w2) fd = io_evs (loop_of w) fd"
      using w2(3) Cons.prems(1,3) f by force
    with Cons.IH [of w2] Cons.prems obtain w' where
      "dispatch_all loop_of set_loop run fs w2 = Inr w'"
      "calls w' = calls w2 @ map (\<lambda>(fd, events). case handler_of (the (io_evs (loop_of w) fd)) events of
        (cb, a) \<Rightarrow> (the cb, fd, a)) fs" by auto
    with w2 one f ev(1,2) show ?case by (auto split: prod.splits)
  qed simp
  from this [of fired w] assms(2,3) show ?thesis by simp
qed

text \<open>A loop with a log, for the witnesses.\<close>

definition demo_loop :: "(nat, nat, nat) loop_st" where
  "demo_loop = add_task 3 None (add_task 2 None (add_io_event True 6 8 EPOLLOUT (Some 2)
     (add_io_event True 5 7 EPOLLIN (Some 1) event_loop_new)))"

lemma demo_loop_inv: "loop_inv demo_loop"
  by (simp add: demo_loop_def add_task_inv add_io_event_inv one_way_def)

lemma demo_loop_evs:
  "io_evs demo_loop 5 = Some \<lparr>ev_mask = EPOLLIN, read_cb = Some 7, write_cb = None, rcb_args = Some 1, wcb_args = None\<rparr>"
  "io_evs demo_loop 6 = Some \<lparr>ev_mask = EPOLLOUT, read_cb = None, write_cb = Some 8, rcb_args = None, wcb_args = Some 2\<rparr>"
  "epoll_set demo_loop = [5 \<mapsto> EPOLLIN, 6 \<mapsto> EPOLLOUT]"
  "ready_tasks demo_loop = [(2, None), (3, None)]"
  by (simp_all add: demo_loop_def add_task_def add_io_event_def Let_def event_loop_new_def io_event_new_def epoll_ctl_def)

lemma dispatch_batch_witness:
  "\<exists>w'. dispatch_all fst (\<lambda>l w. (l, snd w)) (\<lambda>c fd a w. Inr (fst w, snd w @ [(c, fd, a)]))
     [(6, EPOLLOUT), (5, EPOLLIN)] (demo_loop, []) = Inr w' \<and> snd w' = [(8, 6, Some 2), (7, 5, Some 1)]"
  using dispatch_batch [of fst "(demo_loop, [])" "[(6, EPOLLOUT), (5, EPOLLIN)]"
      "\<lambda>c fd a w. Inr (fst w, snd w @ [(c, fd, a)])" snd "\<lambda>l w. (l, snd w)"]
  by (simp add: demo_loop_inv demo_loop_evs kernel_fired_def handler_of_def bit.conj_disj_distrib)

text \<open>
  The dispatch does not compare \<open>find\<close> with \<open>end()\<close>: when the callback of one event removes a
  descriptor whose event comes later in the same batch, the loop dereferences the end iterator.
\<close>

theorem dispatch_stale_event:
  assumes "io_evs (loop_of w) fd = Some ev" and "events AND EPOLLIN \<noteq> 0" and "read_cb ev = Some cb"
    and "run cb fd (rcb_args ev) w = Inr w'" and "io_evs (loop_of w') fd2 = None"
  shows "dispatch_all loop_of set_loop run ((fd, events) # (fd2, events2) # fs) w = Inl EndIterator"
  using assms by (simp add: dispatch_one_def call_cb_def)

lemma dispatch_stale_event_witness:
  "dispatch_all id (\<lambda>l _. l) (\<lambda>(c :: nat) fd (a :: nat option) w. Inr (del_io_event 6 w))
     [(5, EPOLLIN), (6, EPOLLIN)]
     (add_io_event True 6 1 EPOLLIN None (add_io_event True 5 1 EPOLLIN None
        (event_loop_new :: (nat, nat, nat) loop_st))) = Inl EndIterator"
  by (rule dispatch_stale_event [where ev = "\<lparr>ev_mask = EPOLLIN, read_cb = Some 1, write_cb = None,
        rcb_args = None, wcb_args = None\<rparr>"])
    (simp add: add_io_event_def Let_def event_loop_new_def io_event_new_def epoll_ctl_def del_io_event_def)+

text \<open>
  C37: \<open>execute_ready_tasks\<close> runs the deferred tasks once each, in the order they were added, and then
  empties the list, provided that no task touches the loop.
\<close>

theorem ready_tasks_once:
  assumes "\<And>f a w w'. run f a w = Inr w' \<Longrightarrow> loop_of w' = loop_of w" and "\<And>f a w. \<exists>w'. run f a w = Inr w'"
    and "loop_inv (loop_of w)" and "\<And>l w. loop_of (set_loop l w) = l"
  shows "\<exists>w'. fold (\<lambda>(f, a) m. rbind m (run f a)) (ready_tasks (loop_of w)) (Inr w) = Inr w' \<and>
    execute_ready_tasks loop_of set_loop run w = Inr (set_loop (loop_of w\<lparr>ready_tasks := []\<rparr>) w')"
proof -
  have "\<exists>w'. fold (\<lambda>(f, a) m. rbind m (run f a)) ts (Inr w1) = Inr w' \<and> loop_of w' = loop_of w1" for ts w1
  proof (induction ts arbitrary: w1)
    case (Cons t ts)
    obtain f a where t: "t = (f, a)" by (cases t)
    obtain w2 where "run f a w1 = Inr w2" using assms(2) by blast
    with Cons.IH [of w2] assms(1) [of f a w1 w2] t show ?case by simp
  qed simp
  then obtain w' where w': "fold (\<lambda>(f, a) m. rbind m (run f a)) (ready_tasks (loop_of w)) (Inr w) = Inr w'"
      "loop_of w' = loop_of w" by blast
  with execute_ready_tasks_quiet [of run loop_of w set_loop] assms(1-3) show ?thesis
    by (auto simp: loop_inv_def)
qed

lemma ready_tasks_once_witness:
  "execute_ready_tasks fst (\<lambda>l w. (l, snd w)) (\<lambda>f a w. Inr (fst w, snd w @ [f])) (demo_loop, [])
   = Inr (demo_loop\<lparr>ready_tasks := []\<rparr>, [2, 3])"
  using ready_tasks_once [of "\<lambda>f a w. Inr (fst w, snd w @ [f])" fst "(demo_loop, [])" "\<lambda>l w. (l, snd w)"]
  by (simp add: demo_loop_inv demo_loop_evs)

end
