(* ===== verification/Thread_Queue.thy ===== *)
theory Thread_Queue
  imports Event_Loop
begin

text \<open>
  \<open>thread_queue<T>\<close> (\<open>lars_reactors/include/thread_queue.h\<close>): the queue through which the main thread
  hands work to the threads of the pool. Its \<open>eventfd\<close> makes the consumer's event loop wake up.
  Both operations run under the queue's mutex, so a concurrent run is an interleaving of whole
  \<open>send\<close> and \<open>recv\<close> steps.
\<close>

record 'm tqueue =
  evfd :: int
  ev_counter :: nat      \<comment> \<open>the value of the eventfd; readable iff not zero\<close>
  q_items :: "'m list"
  q_loop :: "nat option" \<comment> \<open>\<open>_loop\<close>\<close>

definition thread_queue_new :: "int \<Rightarrow> 'm tqueue res" where
  "thread_queue_new fd =
     (if fd = - 1 then Inl (Exit 1)
      else Inr \<lparr>evfd = fd, ev_counter = 0, q_items = [], q_loop = None\<rparr>)"

text \<open>A non-blocking eventfd refuses to count beyond \<open>2 ^ 64 - 2\<close>.\<close>

definition send :: "'m \<Rightarrow> 'm tqueue \<Rightarrow> 'm tqueue res" where
  "send task q =
     (if ev_counter q + 1 \<le> 18446744073709551614
      then Inr (q\<lparr>q_items := q_items q @ [task], ev_counter := ev_counter q + 1\<rparr>)
      else Inl (Exit 1))"

text \<open>\<open>recv\<close> resets the counter (the read fails harmlessly on zero) and takes all items.\<close>

definition recv :: "'m tqueue \<Rightarrow> 'm list \<times> 'm tqueue" where
  "recv q = (q_items q, q\<lparr>q_items := [], ev_counter := 0\<rparr>)"

definition set_queue_loop :: "nat \<Rightarrow> 'm tqueue \<Rightarrow> 'm tqueue" where
  "set_queue_loop l q = q\<lparr>q_loop := Some l\<rparr>"

text \<open>The level-triggered event the consumer's epoll sees.\<close>

definition readable :: "'m tqueue \<Rightarrow> bool" where
  "readable q \<longleftrightarrow> ev_counter q \<noteq> 0"

section \<open>The interface of a mailbox\<close>

text \<open>
  What the consumer relies on: a message that has been put is in the box, behind the older ones; taking
  returns all of them and empties the box; a box with messages signals.
\<close>

locale mailbox =
  fixes put :: "'m \<Rightarrow> 'b \<Rightarrow> 'b res"
    and take_all :: "'b \<Rightarrow> 'm list \<times> 'b"
    and items :: "'b \<Rightarrow> 'm list"
    and signals :: "'b \<Rightarrow> bool"
    and box_ok :: "'b \<Rightarrow> bool"
  assumes put_items: "put m b = Inr b' \<Longrightarrow> items b' = items b @ [m]"
    and put_ok: "box_ok b \<Longrightarrow> put m b = Inr b' \<Longrightarrow> box_ok b'"
    and take_items: "fst (take_all b) = items b" "items (snd (take_all b)) = []"
    and take_ok: "box_ok b \<Longrightarrow> box_ok (snd (take_all b))"
    and ok_signals: "box_ok b \<Longrightarrow> items b \<noteq> [] \<Longrightarrow> signals b"
begin

text \<open>
  A concurrent run: \<open>Some m\<close> is a \<open>put\<close>, \<open>None\<close> a \<open>take_all\<close>. The result is what has been taken, batch
  by batch, and the box.
\<close>

fun box_run :: "'m option list \<Rightarrow> 'b \<Rightarrow> ('m list list \<times> 'b) res" where
  "box_run [] b = Inr ([], b)"
| "box_run (Some m # ss) b = rbind (put m b) (box_run ss)"
| "box_run (None # ss) b =
     (let (ms, b1) = take_all b in rbind (box_run ss b1) (\<lambda>(out, b2). Inr (ms # out, b2)))"

lemma box_run_fifo:
  "box_run ss b = Inr (out, b') \<Longrightarrow> box_ok b \<Longrightarrow>
   concat out @ items b' = items b @ List.map_filter id ss \<and> box_ok b' \<and> (items b' \<noteq> [] \<longrightarrow> signals b')"
proof (induction ss arbitrary: b out)
  case Nil
  then show ?case using ok_signals by (simp add: List.map_filter_def)
next
  case (Cons s ss)
  show ?case
  proof (cases s)
    case None
    obtain ms b1 where tk: "take_all b = (ms, b1)" by (cases "take_all b")
    with Cons.prems None obtain out' where "box_run ss b1 = Inr (out', b')" "out = ms # out'"
      by (auto simp: rbind_eq_Inr)
    with Cons.IH [of b1 out'] tk take_items [of b] take_ok [OF Cons.prems(2)] None show ?thesis
      by (simp add: List.map_filter_def)
  next
    case (Some m)
    with Cons.prems obtain b1 where b1: "put m b = Inr b1" "box_run ss b1 = Inr (out, b')"
      by (auto simp: rbind_eq_Inr)
    with Cons.IH [OF b1(2)] put_ok [OF Cons.prems(2) b1(1)] put_items [OF b1(1)] Some show ?thesis
      by (simp add: List.map_filter_def)
  qed
qed

end

definition queue_ok :: "'m tqueue \<Rightarrow> bool" where
  "queue_ok q \<longleftrightarrow> ev_counter q = length (q_items q)"

interpretation tq: mailbox send recv q_items readable queue_ok
proof unfold_locales
  show "send m q = Inr q' \<Longrightarrow> q_items q' = q_items q @ [m]" for m and q q' :: "'a tqueue"
    by (auto simp: send_def split: if_splits)
  show "queue_ok q \<Longrightarrow> send m q = Inr q' \<Longrightarrow> queue_ok q'" for m and q q' :: "'a tqueue"
    by (auto simp: send_def queue_ok_def split: if_splits)
qed (auto simp: recv_def queue_ok_def readable_def)

lemma send_ok: "ev_counter q < 18446744073709551614 \<Longrightarrow> \<exists>q'. send m q = Inr q'"
  by (simp add: send_def)

section \<open>Interleavings of producers and the consumer\<close>

inductive queue_step :: "'m tqueue \<times> 'm list \<times> 'm list \<Rightarrow> 'm tqueue \<times> 'm list \<times> 'm list \<Rightarrow> bool" where
  step_send: "send m q = Inr q' \<Longrightarrow> queue_step (q, sent, got) (q', sent @ [m], got)"
| step_recv: "recv q = (ms, q') \<Longrightarrow> readable q \<Longrightarrow> queue_step (q, sent, got) (q', sent, got @ ms)"

inductive_cases queue_stepE: "queue_step (q, sent, got) (q', sent', got')"

lemma queue_step_inv:
  assumes "queue_step (q, sent, got) (q', sent', got')" and "queue_ok q" and "sent = got @ q_items q"
  shows "queue_ok q' \<and> sent' = got' @ q_items q'"
  using assms tq.put_ok [of q _ q'] tq.put_items [of _ q q']
  by (auto elim!: queue_stepE simp: recv_def queue_ok_def)

text \<open>
  C19: no task is lost, duplicated or reordered between the threads, and no wake-up is lost: in every
  interleaving of \<open>send\<close>s by any thread with \<open>recv\<close>s by the consumer, what has been received followed by
  what is in the queue is what has been sent, and while something is in the queue its eventfd is readable.
\<close>

theorem queue_fifo:
  assumes "thread_queue_new fd = Inr q0" and "queue_step\<^sup>*\<^sup>* (q0, [], []) (q, sent, got)"
  shows "sent = got @ q_items q \<and> (q_items q \<noteq> [] \<longleftrightarrow> readable q)"
proof -
  have "queue_ok (fst c) \<and> fst (snd c) = snd (snd c) @ q_items (fst c)"
    if "queue_step\<^sup>*\<^sup>* (q0, [], []) c" for c
    using that
  proof (induction rule: rtranclp_induct)
    case base
    show ?case using assms(1) by (auto simp: thread_queue_new_def queue_ok_def split: if_splits)
  next
    case (step c c')
    then show ?case using queue_step_inv by (metis prod.collapse)
  qed
  from this [OF assms(2)] show ?thesis by (auto simp: queue_ok_def readable_def)
qed

lemma queue_fifo_witness:
  "\<exists>q. queue_step\<^sup>*\<^sup>* (\<lparr>evfd = 9, ev_counter = 0, q_items = [], q_loop = None\<rparr>, [], []) (q, [1, 2, 3 :: nat], [1, 2]) \<and>
     q_items q = [3] \<and> readable q"
proof -
  let ?q = "\<lambda>c xs. \<lparr>evfd = 9, ev_counter = c, q_items = xs, q_loop = None\<rparr> :: nat tqueue"
  have "queue_step (?q 0 [], [], []) (?q 1 [1], [] @ [1], [])" by (rule step_send) (simp add: send_def)
  moreover have "queue_step (?q 1 [1], [1], []) (?q 2 [1, 2], [1] @ [2], [])" by (rule step_send) (simp add: send_def)
  moreover have "queue_step (?q 2 [1, 2], [1, 2], []) (?q 0 [], [1, 2], [] @ [1, 2])"
    by (rule step_recv) (simp_all add: recv_def readable_def)
  moreover have "queue_step (?q 0 [], [1, 2], [1, 2]) (?q 1 [3], [1, 2] @ [3], [1, 2])"
    by (rule step_send) (simp add: send_def)
  ultimately have r: "queue_step\<^sup>*\<^sup>* (?q 0 [], [], []) (?q 1 [3], [1, 2, 3], [1, 2])"
    by (auto intro: converse_rtranclp_into_rtranclp)
  have "thread_queue_new 9 = Inr (?q 0 [])" by (simp add: thread_queue_new_def)
  from queue_fifo [OF this r] r show ?thesis by auto
qed

end
