(* ===== verification/Net_State.thy ===== *)
theory Net_State
  imports Framed_Conn Thread_Queue
begin

text \<open>
  The state the reactor's classes share: the buffer pool, one event loop per thread (number \<open>0\<close> is the
  main thread's), the \<open>tcp_conn\<close> objects, the static members of \<open>tcp_server\<close> and the queues of its
  thread pool. \<open>app\<close> is the state of the application, which only its callbacks touch. Callbacks are
  named by the functions the code registers; their \<open>void*\<close> argument is an address.
\<close>

datatype io_cb =
    conn_rd_callback | conn_wt_callback | accept_callback | deal_task_cb
  | read_callback | write_callback | connection_succ | new_dns_request_cb

datatype task_msg = NEW_CONN int | NEW_TASK nat "addr option"

record tcp_conn =
  connfd :: int
  conn_loop :: nat
  ibuf :: ptr
  obuf :: ptr

type_synonym loop_t = "(io_cb, addr, nat) loop_st"

record 'u net =
  net_pool :: pool_st
  loops :: "nat \<Rightarrow> loop_t"
  tcps :: "addr \<Rightarrow> tcp_conn"
  fresh_conn :: addr
  conns :: "addr option list"      \<comment> \<open>\<open>tcp_server::conns\<close>\<close>
  curr_conns :: int                \<comment> \<open>\<open>_curr_conns\<close>\<close>
  max_conns :: int
  queues :: "task_msg tqueue list" \<comment> \<open>\<open>_queues\<close> of the thread pool, empty without a pool\<close>
  tp_index :: int                  \<comment> \<open>\<open>_index\<close>\<close>
  closed :: "int list"             \<comment> \<open>descriptors closed so far\<close>
  app :: 'u

definition upd_loop :: "nat \<Rightarrow> (loop_t \<Rightarrow> loop_t) \<Rightarrow> 'u net \<Rightarrow> 'u net" where
  "upd_loop l f n = n\<lparr>loops := (loops n)(l := f (loops n l))\<rparr>"

definition upd_conn :: "addr \<Rightarrow> (tcp_conn \<Rightarrow> tcp_conn) \<Rightarrow> 'u net \<Rightarrow> 'u net" where
  "upd_conn c f n = n\<lparr>tcps := (tcps n)(c := f (tcps n c))\<rparr>"

definition close_fd :: "int \<Rightarrow> 'u net \<Rightarrow> 'u net" where
  "close_fd fd n = n\<lparr>closed := closed n @ [fd]\<rparr>"

definition ibuf_of :: "addr \<Rightarrow> 'u net \<Rightarrow> ptr" where "ibuf_of c n = ibuf (tcps n c)"
definition obuf_of :: "addr \<Rightarrow> 'u net \<Rightarrow> ptr" where "obuf_of c n = obuf (tcps n c)"

definition put_ibuf :: "addr \<Rightarrow> ptr \<Rightarrow> pool_st \<Rightarrow> 'u net \<Rightarrow> 'u net" where
  "put_ibuf c p s n = (upd_conn c (\<lambda>t. t\<lparr>ibuf := p\<rparr>) n)\<lparr>net_pool := s\<rparr>"

definition put_obuf :: "addr \<Rightarrow> ptr \<Rightarrow> pool_st \<Rightarrow> 'u net \<Rightarrow> 'u net" where
  "put_obuf c p s n = (upd_conn c (\<lambda>t. t\<lparr>obuf := p\<rparr>) n)\<lparr>net_pool := s\<rparr>"

lemma loops_upd_loop [simp]: "loops (upd_loop l f n) = (loops n)(l := f (loops n l))"
  by (simp add: upd_loop_def)

lemma upd_loop_simps [simp]:
  "net_pool (upd_loop l f n) = net_pool n" "tcps (upd_loop l f n) = tcps n" "conns (upd_loop l f n) = conns n"
  "curr_conns (upd_loop l f n) = curr_conns n" "closed (upd_loop l f n) = closed n" "app (upd_loop l f n) = app n"
  "max_conns (upd_loop l f n) = max_conns n" "queues (upd_loop l f n) = queues n"
  "tp_index (upd_loop l f n) = tp_index n" "fresh_conn (upd_loop l f n) = fresh_conn n"
  by (simp_all add: upd_loop_def)

lemma put_ibuf_simps [simp]:
  "net_pool (put_ibuf c p s n) = s" "loops (put_ibuf c p s n) = loops n" "conns (put_ibuf c p s n) = conns n"
  "curr_conns (put_ibuf c p s n) = curr_conns n" "closed (put_ibuf c p s n) = closed n" "app (put_ibuf c p s n) = app n"
  "tcps (put_ibuf c p s n) = (tcps n)(c := tcps n c\<lparr>ibuf := p\<rparr>)" "obuf_of c' (put_ibuf c p s n) = obuf_of c' n"
  by (simp_all add: put_ibuf_def upd_conn_def obuf_of_def)

lemma put_obuf_simps [simp]:
  "net_pool (put_obuf c p s n) = s" "loops (put_obuf c p s n) = loops n" "conns (put_obuf c p s n) = conns n"
  "curr_conns (put_obuf c p s n) = curr_conns n" "closed (put_obuf c p s n) = closed n" "app (put_obuf c p s n) = app n"
  "tcps (put_obuf c p s n) = (tcps n)(c := tcps n c\<lparr>obuf := p\<rparr>)" "ibuf_of c' (put_obuf c p s n) = ibuf_of c' n"
  by (simp_all add: put_obuf_def upd_conn_def ibuf_of_def)

text \<open>Both buffers of every connection are buffers in the sense of \<open>conn_buffer\<close>.\<close>

interpretation ib: conn_buffer "ibuf_of c" net_pool "put_ibuf c" for c
  by unfold_locales (simp_all add: ibuf_of_def put_ibuf_def upd_conn_def)

interpretation ob: conn_buffer "obuf_of c" net_pool "put_obuf c" for c
  by unfold_locales (simp_all add: obuf_of_def put_obuf_def upd_conn_def)

section \<open>The table of connections\<close>

definition increase_conn :: "int \<Rightarrow> addr \<Rightarrow> 'u net \<Rightarrow> 'u net res" where
  "increase_conn fd c n =
     (if 0 \<le> fd \<and> fd < int (length (conns n))
      then Inr (n\<lparr>conns := (conns n)[nat fd := Some c], curr_conns := curr_conns n + 1\<rparr>)
      else Inl OutOfBounds)"

definition decrease_conn :: "int \<Rightarrow> 'u net \<Rightarrow> 'u net res" where
  "decrease_conn fd n =
     (if 0 \<le> fd \<and> fd < int (length (conns n))
      then Inr (n\<lparr>conns := (conns n)[nat fd := None], curr_conns := curr_conns n - 1\<rparr>)
      else Inl OutOfBounds)"

definition get_conn_num :: "'u net \<Rightarrow> int" where
  "get_conn_num n = curr_conns n"

text \<open>The number of occupied entries, which \<open>_curr_conns\<close> is meant to be.\<close>

definition online :: "'u net \<Rightarrow> nat" where
  "online n = length (filter (\<lambda>x. x \<noteq> None) (conns n))"

lemma filter_update_None:
  "i < length xs \<Longrightarrow> xs ! i \<noteq> None \<Longrightarrow>
   int (length (filter (\<lambda>x. x \<noteq> None) (xs[i := None]))) = int (length (filter (\<lambda>x. x \<noteq> None) xs)) - 1"
  by (induction xs arbitrary: i) (force split: nat.splits simp: nth_Cons)+

lemma filter_update_Some:
  "i < length xs \<Longrightarrow> xs ! i = None \<Longrightarrow>
   length (filter (\<lambda>x. x \<noteq> None) (xs[i := Some c])) = length (filter (\<lambda>x. x \<noteq> None) xs) + 1"
  by (induction xs arbitrary: i) (auto split: nat.splits simp: nth_Cons)

lemma increase_conn_online:
  "increase_conn fd c n = Inr n' \<Longrightarrow> curr_conns n = int (online n) \<Longrightarrow> conns n ! nat fd = None \<Longrightarrow>
   curr_conns n' = int (online n') \<and> conns n' ! nat fd = Some c"
  using filter_update_Some [of "nat fd" "conns n" c]
  by (auto simp: increase_conn_def online_def split: if_splits)

lemma decrease_conn_online:
  "decrease_conn fd n = Inr n' \<Longrightarrow> curr_conns n = int (online n) \<Longrightarrow> conns n ! nat fd \<noteq> None \<Longrightarrow>
   curr_conns n' = int (online n') \<and> conns n' ! nat fd = None"
  using filter_update_None [of "nat fd" "conns n"]
  by (auto simp: decrease_conn_def online_def nat_less_iff split: if_splits)

text \<open>The connection in the table under a descriptor.\<close>

definition conn_of :: "int \<Rightarrow> 'u net \<Rightarrow> addr option" where
  "conn_of fd n = (if 0 \<le> fd \<and> fd < int (length (conns n)) then conns n ! nat fd else None)"

end
