(* ===== verification/Tcp_Conn.thy ===== *)
theory Tcp_Conn
  imports Net_State
begin

text \<open>
  \<open>tcp_conn\<close> (\<open>lars_reactors/src/tcp_conn.cpp\<close>): one accepted connection. The static members of
  \<open>tcp_server\<close> that it uses and the application sets (the two hooks, the message router and what its
  callbacks do) are an environment \<open>srv_env\<close>. All operations of the kernel that are not part of the
  claim succeed; what \<open>read\<close>, \<open>write\<close> and \<open>ioctl\<close> return is an argument.
\<close>

record 'u srv_env =
  conn_start_cb :: "(addr \<Rightarrow> 'u net \<Rightarrow> 'u net res) option"
  conn_close_cb :: "(addr \<Rightarrow> 'u net \<Rightarrow> 'u net res) option"
  srv_router :: "(nat, nat) msg_router"
  run_msg_cb :: "nat \<Rightarrow> u8 list option \<Rightarrow> int \<Rightarrow> int \<Rightarrow> addr \<Rightarrow> nat option \<Rightarrow> 'u net \<Rightarrow> 'u net res"

definition run_hook :: "(addr \<Rightarrow> 'u net \<Rightarrow> 'u net res) option \<Rightarrow> addr \<Rightarrow> 'u net \<Rightarrow> 'u net res" where
  "run_hook h c n = (case h of None \<Rightarrow> Inr n | Some f \<Rightarrow> f c n)"

text \<open>The constructor: hook first, then the read event, then the entry in \<open>conns\<close>.\<close>

definition tcp_conn_new :: "'u srv_env \<Rightarrow> int \<Rightarrow> nat \<Rightarrow> 'u net \<Rightarrow> (addr \<times> 'u net) res" where
  "tcp_conn_new env fd l n =
     (let c = fresh_conn n;
          n0 = n\<lparr>fresh_conn := Suc c,
                 tcps := (tcps n)(c := \<lparr>connfd = fd, conn_loop = l, ibuf = NULL, obuf = NULL\<rparr>)\<rparr>
      in rbind (run_hook (conn_start_cb env) c n0) (\<lambda>n1.
         rbind (increase_conn fd c (upd_loop l (add_io_event True fd conn_rd_callback EPOLLIN (Some c)) n1)) (\<lambda>n2.
           Inr (c, n2))))"

definition clean_buf :: "('u net \<Rightarrow> ptr) \<Rightarrow> (ptr \<Rightarrow> pool_st \<Rightarrow> 'u net \<Rightarrow> 'u net) \<Rightarrow> 'u net \<Rightarrow> 'u net res" where
  "clean_buf buf_of put_buf n = rbind (rb_clear (buf_of n) (net_pool n)) (\<lambda>(p, s). Inr (put_buf p s n))"

definition clean_conn :: "'u srv_env \<Rightarrow> addr \<Rightarrow> 'u net \<Rightarrow> 'u net res" where
  "clean_conn env c n =
     rbind (run_hook (conn_close_cb env) c n) (\<lambda>n1.
     rbind (decrease_conn (connfd (tcps n1 c)) n1) (\<lambda>n2.
     let n3 = upd_loop (conn_loop (tcps n2 c)) (del_io_event (connfd (tcps n2 c))) n2
     in rbind (clean_buf (ibuf_of c) (put_ibuf c) n3) (\<lambda>n4.
        rbind (clean_buf (obuf_of c) (put_obuf c) n4) (\<lambda>n5.
          Inr (close_fd (connfd (tcps n5 c)) n5)))))"

text \<open>
  \<open>do_read\<close>; the fuel is the largest number of messages a buffer of 8 MiB can hold.
\<close>

definition max_frames :: nat where "max_frames = 1048576"

definition conn_msg_call :: "'u srv_env \<Rightarrow> addr \<Rightarrow> int \<Rightarrow> int \<Rightarrow> u8 list option \<Rightarrow> 'u net \<Rightarrow> 'u net res" where
  "conn_msg_call env c i len data n = router_call (run_msg_cb env) (srv_router env) i len data c n"

definition do_read :: "'u srv_env \<Rightarrow> addr \<Rightarrow> int option \<Rightarrow> rd_ret list \<Rightarrow> 'u net \<Rightarrow> 'u net res" where
  "do_read env c fionread rs n =
     read_frames max_frames (ibuf_of c) net_pool (put_ibuf c) (conn_msg_call env c) (clean_conn env c) fionread rs n"

definition send_message :: "addr \<Rightarrow> u8 list \<Rightarrow> int \<Rightarrow> 'u net \<Rightarrow> (int \<times> 'u net) res" where
  "send_message c data i n =
     send_framed (obuf_of c) net_pool (put_obuf c)
       (\<lambda>m. upd_loop (conn_loop (tcps m c)) (add_io_event True (connfd (tcps m c)) conn_wt_callback EPOLLOUT (Some c)) m)
       data i n"

text \<open>\<open>do_write\<close>: every pass uses up an outcome of \<open>write\<close>, which bounds the loop.\<close>

lemma write_retry_shorter: "write_retry ws = Inr (w, ws') \<Longrightarrow> length ws' < length ws"
  by (induction ws rule: write_retry.induct) (auto simp: less_Suc_eq)

lemma write2fd_shorter:
  assumes "write2fd ws p s = Inr (r, ws', s')"
  shows "length ws' < length ws"
proof -
  obtain w ws2 where w: "write_retry ws = Inr (w, ws2)"
    using assms by (auto simp: write2fd_def rbind_eq_Inr split: if_splits)
  then have "ws' = ws2" using assms by (cases w) (auto simp: write2fd_def rbind_eq_Inr split: if_splits)
  with write_retry_shorter [OF w] show ?thesis by simp
qed

function do_write :: "'u srv_env \<Rightarrow> addr \<Rightarrow> wr_ret list \<Rightarrow> 'u net \<Rightarrow> 'u net res" where
  "do_write env c ws n =
     (case rb_length (obuf_of c n) (net_pool n) of
        Inl e \<Rightarrow> Inl e
      | Inr len \<Rightarrow>
          if len = 0 then Inr n
          else (case write2fd ws (obuf_of c n) (net_pool n) of
                  Inl e \<Rightarrow> Inl e
                | Inr (write_num, ws', s) \<Rightarrow>
                    (let n1 = put_obuf c (obuf_of c n) s n
                     in if write_num = - 1 then clean_conn env c n1
                        else if write_num = 0 then Inr n1
                        else (case rb_length (obuf_of c n1) (net_pool n1) of
                                Inl e \<Rightarrow> Inl e
                              | Inr len' \<Rightarrow>
                                  do_write env c ws'
                                    (if len' = 0
                                     then upd_loop (conn_loop (tcps n1 c))
                                            (del_io_event_mask True (connfd (tcps n1 c)) EPOLLOUT) n1
                                     else n1)))))"
  by pat_completeness auto
termination by (relation "measure (\<lambda>(env, c, ws, n). length ws)") (auto dest: write2fd_shorter)

declare do_write.simps [simp del]

section \<open>Lemmas\<close>

lemma length_parse: "parse d = (ms, r, bad) \<Longrightarrow> 8 * length ms + length r \<le> length d"
proof (induction ms arbitrary: d)
  case Nil
  then show ?case using parse_Nil by fastforce
next
  case (Cons m ms)
  then show ?case using parse_Cons [OF Cons.prems] Cons.IH by fastforce
qed

lemma holds_bound:
  assumes "pool_inv s" and "rb_holds s p d"
  shows "length d \<le> 8388608"
  using assms(2)
proof (cases rule: rb_holds_cases)
  case (buf a b)
  then have "wf_buf b" "capacity b \<in> set mem_caps" using pool_inv_buf [OF assms(1)] by (auto simp: held_bufs)
  then have "buf_len b \<le> 8388608" by (auto simp: wf_buf_def mem_caps_def)
  with buf(3) show ?thesis by auto
qed simp

lemma frames_fit: "pool_inv s \<Longrightarrow> rb_holds s p d \<Longrightarrow> parse d = (ms, r, bad) \<Longrightarrow> length ms \<le> max_frames"
  using holds_bound [of s p d] length_parse [of d ms r bad] by (simp add: max_frames_def)

lemma clean_buf_ok:
  assumes "conn_buffer buf_of net_pool put_buf" and "pool_inv (net_pool n)" and "rb_holds (net_pool n) (buf_of n) d"
  shows "\<exists>s. clean_buf buf_of put_buf n = Inr (put_buf NULL s n) \<and> pool_inv s \<and> others_kept (net_pool n) (buf_of n) s NULL"
  using rb_clear_ok [OF assms(2,3)] by (auto simp: clean_buf_def)

text \<open>A connection whose buffers are in order: both are held, and they are different.\<close>

definition conn_ok :: "addr \<Rightarrow> 'u net \<Rightarrow> u8 list \<Rightarrow> u8 list \<Rightarrow> bool" where
  "conn_ok c n d e \<longleftrightarrow>
     pool_inv (net_pool n) \<and> rb_holds (net_pool n) (ibuf_of c n) d \<and> rb_holds (net_pool n) (obuf_of c n) e \<and>
     (ibuf_of c n = obuf_of c n \<longrightarrow> ibuf_of c n = NULL) \<and>
     rb_ready (net_pool n) (ibuf_of c n) \<and> rb_ready (net_pool n) (obuf_of c n)"

text \<open>The buffers that are out of the pool.\<close>

definition handed_out :: "pool_st \<Rightarrow> addr set" where
  "handed_out s = {a. bufs s a \<noteq> None \<and> \<not> is_free s a}"

lemma handed_out_back: "others_kept s p s' NULL \<Longrightarrow> handed_out s' = {a \<in> handed_out s. Ptr a \<noteq> p}"
  by (fastforce simp: handed_out_def dest: others_keptD)

text \<open>The close hooks that work on the application's own state, as those of the DNS service do.\<close>

definition hook_local :: "(addr \<Rightarrow> 'u net \<Rightarrow> 'u net res) option \<Rightarrow> addr \<Rightarrow> ('u \<Rightarrow> 'u) \<Rightarrow> bool" where
  "hook_local h c f \<longleftrightarrow> (\<forall>n. run_hook h c n = Inr (n\<lparr>app := f (app n)\<rparr>))"

lemma hook_local_None: "hook_local None c (\<lambda>a. a)"
  by (simp add: hook_local_def run_hook_def)

lemma clean_conn_closes:
  assumes "conn_ok c n d e" and hook: "hook_local (conn_close_cb env) c f"
    and "0 \<le> connfd (tcps n c)" and "connfd (tcps n c) < int (length (conns n))"
  shows "\<exists>n' s. clean_conn env c n = Inr n' \<and> ibuf_of c n' = NULL \<and> obuf_of c n' = NULL \<and> pool_inv (net_pool n') \<and>
    others_kept (net_pool n) (ibuf_of c n) s NULL \<and> others_kept s (obuf_of c n) (net_pool n') NULL \<and>
    conns n' = (conns n)[nat (connfd (tcps n c)) := None] \<and> curr_conns n' = curr_conns n - 1 \<and>
    loops n' = (loops n)(conn_loop (tcps n c) := del_io_event (connfd (tcps n c)) (loops n (conn_loop (tcps n c)))) \<and>
    closed n' = closed n @ [connfd (tcps n c)] \<and> app n' = f (app n)"
proof -
  let ?fd = "connfd (tcps n c)" let ?l = "conn_loop (tcps n c)"
  let ?n2 = "n\<lparr>app := f (app n), conns := (conns n)[nat ?fd := None], curr_conns := curr_conns n - 1\<rparr>"
  let ?n3 = "upd_loop ?l (del_io_event ?fd) ?n2"
  have p: "net_pool ?n3 = net_pool n" "ibuf_of c ?n3 = ibuf_of c n" "obuf_of c ?n3 = obuf_of c n"
    by (simp_all add: ibuf_of_def obuf_of_def)
  obtain s4 where s4: "clean_buf (ibuf_of c) (put_ibuf c) ?n3 = Inr (put_ibuf c NULL s4 ?n3)" "pool_inv s4"
      "others_kept (net_pool n) (ibuf_of c n) s4 NULL"
    using clean_buf_ok [OF ib.conn_buffer_axioms, of ?n3 c d] assms(1) p by (auto simp: conn_ok_def)
  let ?n4 = "put_ibuf c NULL s4 ?n3"
  have "rb_holds s4 (obuf_of c n) e"
    using rb_holds_other [OF s4(3)] assms(1) by (auto simp: conn_ok_def)
  then obtain s5 where s5: "clean_buf (obuf_of c) (put_obuf c) ?n4 = Inr (put_obuf c NULL s5 ?n4)" "pool_inv s5"
      "others_kept s4 (obuf_of c n) s5 NULL"
    using clean_buf_ok [OF ob.conn_buffer_axioms, of ?n4 c e] s4(2) p by auto
  have "clean_conn env c n = Inr (close_fd ?fd (put_obuf c NULL s5 ?n4))"
    using assms(3,4) s4(1) s5(1) hook by (simp add: clean_conn_def hook_local_def decrease_conn_def Let_def)
  then show ?thesis using s4(3) s5(2,3)
    by (intro exI [of _ "close_fd ?fd (put_obuf c NULL s5 ?n4)"] exI [of _ s4]) (simp add: close_fd_def ibuf_of_def obuf_of_def)
qed

lemma clean_conn_ok:
  assumes "conn_ok c n d e" and "conn_close_cb env = None"
    and "0 \<le> connfd (tcps n c)" and "connfd (tcps n c) < int (length (conns n))"
  shows "\<exists>n'. clean_conn env c n = Inr n' \<and> conn_ok c n' [] [] \<and> ibuf_of c n' = NULL \<and> obuf_of c n' = NULL \<and>
    conns n' = (conns n)[nat (connfd (tcps n c)) := None] \<and> curr_conns n' = curr_conns n - 1 \<and>
    loops n' = (loops n)(conn_loop (tcps n c) := del_io_event (connfd (tcps n c)) (loops n (conn_loop (tcps n c)))) \<and>
    closed n' = closed n @ [connfd (tcps n c)] \<and> app n' = app n"
proof -
  have "hook_local (conn_close_cb env) c (\<lambda>a. a)" using assms(2) hook_local_None by simp
  from clean_conn_closes [OF assms(1) this assms(3,4)] show ?thesis by (auto simp: conn_ok_def)
qed

text \<open>Replacing one of the two buffers by one that disturbs nobody.\<close>

lemma kept_apart:
  assumes "others_kept s0 p s q" and "rb_holds s0 r e" and "r \<noteq> p \<or> r = NULL"
  shows "q = r \<Longrightarrow> q = NULL"
proof (rule ccontr)
  assume "q = r" "q \<noteq> NULL"
  then obtain a b where a: "r = Ptr a" "bufs s0 a = Some b" "\<not> is_free s0 a"
    using assms(2) by (auto simp: rb_holds_def)
  then have "Ptr a \<noteq> q" using others_keptD(1) [OF assms(1) a(2,3)] assms(3) by auto
  with a(1) \<open>q = r\<close> show False by simp
qed

lemma conn_ok_put_ibuf:
  assumes ok: "conn_ok c n d e" and "others_kept (net_pool n) (ibuf_of c n) s q" "pool_inv s" "rb_holds s q d'" "rb_ready s q"
  shows "conn_ok c (put_ibuf c q s n) d' e"
proof -
  let ?o = "obuf_of c n"
  have o: "rb_holds (net_pool n) ?o e" "rb_ready (net_pool n) ?o" "?o \<noteq> ibuf_of c n \<or> ?o = NULL"
    using ok by (auto simp: conn_ok_def)
  have "rb_holds s ?o e" "rb_ready s ?o"
    using rb_holds_other [OF assms(2) o(1,3)] rb_ready_other [OF assms(2) o(1,2,3)] by blast+
  with assms kept_apart [OF assms(2) o(1,3)] show ?thesis by (auto simp: conn_ok_def)
qed

lemma conn_ok_put_obuf:
  assumes ok: "conn_ok c n d e" and "others_kept (net_pool n) (obuf_of c n) s q" "pool_inv s" "rb_holds s q e'" "rb_ready s q"
  shows "conn_ok c (put_obuf c q s n) d e'"
proof -
  let ?o = "ibuf_of c n"
  have o: "rb_holds (net_pool n) ?o d" "rb_ready (net_pool n) ?o" "?o \<noteq> obuf_of c n \<or> ?o = NULL"
    using ok by (auto simp: conn_ok_def)
  have "rb_holds s ?o d" "rb_ready s ?o"
    using rb_holds_other [OF assms(2) o(1,3)] rb_ready_other [OF assms(2) o(1,2,3)] by blast+
  with assms kept_apart [OF assms(2) o(1,3)] show ?thesis by (auto simp: conn_ok_def)
qed

lemma conn_ok_cong:
  "net_pool n' = net_pool n \<Longrightarrow> ibuf_of c n' = ibuf_of c n \<Longrightarrow> obuf_of c n' = obuf_of c n \<Longrightarrow>
   conn_ok c n' d e = conn_ok c n d e"
  by (simp add: conn_ok_def)

lemma conn_ok_upd_loop [simp]: "conn_ok c (upd_loop l f n) d e = conn_ok c n d e"
  by (rule conn_ok_cong) (simp_all add: ibuf_of_def obuf_of_def)

lemma frame_loop_NULL:
  "ibuf_of c n = NULL \<Longrightarrow> frame_loop fuel (ibuf_of c) net_pool (put_ibuf c) call cl n = Inr n"
  by (simp add: frame_loop.simps rb_length_def MESSAGE_HEAD_LEN_def)

lemma frame_loop_bad:
  assumes "ib.holds c n d" and "parse d = ([], r, True)"
  shows "frame_loop fuel (ibuf_of c) net_pool (put_ibuf c) call cl n = cl n"
  using ib.frame_loop_stop [OF assms] by simp

text \<open>The callbacks of the application, as \<open>do_read\<close> of connection \<open>c\<close> needs them.\<close>

definition callbacks_ok :: "'u srv_env \<Rightarrow> addr \<Rightarrow> ('u net \<Rightarrow> msg list) \<Rightarrow> bool" where
  "callbacks_ok env c seen \<longleftrightarrow>
     (\<forall>p s m. seen (put_ibuf c p s m) = seen m) \<and>
     (\<forall>cb i body a m d. ib.holds c m d \<longrightarrow> (ibuf_of c m = NULL \<longrightarrow> body = []) \<longrightarrow>
        (\<exists>m'. run_msg_cb env cb (if ibuf_of c m = NULL then None else Some body) (int (length body)) i c a m = Inr m' \<and>
              ib.holds c m' d \<and> ibuf_of c m' = ibuf_of c m \<and> seen m' = seen m @ [(i, body)]))"

definition registered :: "'u srv_env \<Rightarrow> int \<Rightarrow> bool" where
  "registered env i \<longleftrightarrow> router (srv_router env) i \<noteq> None"

lemma callbacks_handler:
  assumes "callbacks_ok env c seen"
  shows "ib.handler_ok c (conn_msg_call env c) (registered env) seen"
proof -
  have "\<exists>w'. conn_msg_call env c i (int (length body)) (if ibuf_of c w = NULL then None else Some body) w = Inr w' \<and>
      ib.holds c w' d \<and> ibuf_of c w' = ibuf_of c w \<and> seen w' = seen w @ (if registered env i then [(i, body)] else [])"
    if "ib.holds c w d" "ibuf_of c w = NULL \<longrightarrow> body = []" for i body w d
  proof (cases "router (srv_router env) i")
    case None
    then show ?thesis using that by (simp add: conn_msg_call_def router_call_def registered_def)
  next
    case (Some cb)
    then show ?thesis using assms that by (simp add: conn_msg_call_def router_call_def registered_def callbacks_ok_def)
  qed
  then show ?thesis using assms by (intro ib.handler_okI) (simp_all add: callbacks_ok_def)
qed

text \<open>One pass of \<open>do_write\<close>, for the outcomes of \<open>write\<close> that accept some bytes or none.\<close>

lemma do_write_empty: "conn_ok c n d [] \<Longrightarrow> do_write env c ws n = Inr n"
  using rb_length_ok [of "net_pool n" "obuf_of c n" "[]"]
  by (subst do_write.simps) (simp add: conn_ok_def)

lemma do_write_pass:
  assumes ok: "conn_ok c n d e" and ne: "e \<noteq> []"
    and w: "write_retry ws = Inr (Wr k, ws')" and k: "0 < k" "k \<le> int (length e)"
  shows "\<exists>n'. conn_ok c n' d (drop (nat k) e) \<and> tcps n' = tcps n \<and>
    loops n' = (if k = int (length e)
      then (loops n)(conn_loop (tcps n c) := del_io_event_mask True (connfd (tcps n c)) EPOLLOUT (loops n (conn_loop (tcps n c))))
      else loops n) \<and>
    do_write env c ws n = do_write env c ws' n'"
proof -
  have o: "pool_inv (net_pool n)" "rb_holds (net_pool n) (obuf_of c n) e" "rb_ready (net_pool n) (obuf_of c n)"
    using ok by (auto simp: conn_ok_def)
  have nn: "obuf_of c n \<noteq> NULL" using o(2) ne by auto
  obtain s where s: "write2fd ws (obuf_of c n) (net_pool n) = Inr (k, ws', s)" "pool_inv s"
      "rb_holds s (obuf_of c n) (drop (nat k) e)" "rb_ready s (obuf_of c n)"
      "others_kept (net_pool n) (obuf_of c n) s (obuf_of c n)"
    using write2fd_ok [OF o nn w] k by auto
  let ?n1 = "put_obuf c (obuf_of c n) s n"
  let ?n2 = "if k = int (length e) then upd_loop (conn_loop (tcps n c)) (del_io_event_mask True (connfd (tcps n c)) EPOLLOUT) ?n1 else ?n1"
  have ok1: "conn_ok c ?n1 d (drop (nat k) e)" using conn_ok_put_obuf [OF ok s(5,2,3,4)] .
  have len1: "rb_length (obuf_of c n) s = Inr (int (length e) - k)"
    using rb_length_ok [OF s(3,2)] k by (simp add: of_nat_diff)
  have t: "tcps ?n1 = tcps n" by (auto simp: obuf_of_def)
  have "do_write env c ws n = do_write env c ws' ?n2"
    using ne rb_length_ok [OF o(2,1)] s(1) len1 k(1)
    by (subst do_write.simps) (auto simp: Let_def)
  then show ?thesis using ok1 t by (intro exI [of _ ?n2]) auto
qed

text \<open>A server with one connection, for the witnesses: three bytes wait in its output buffer.\<close>

definition demo_env :: "msg list srv_env" where
  "demo_env = \<lparr>conn_start_cb = None, conn_close_cb = None,
     srv_router = snd (register_msg_router 1 0 0 msg_router_new),
     run_msg_cb = (\<lambda>cb data len i c a m. Inr (m\<lparr>app := app m @ [(i, case data of None \<Rightarrow> [] | Some b \<Rightarrow> b)]\<rparr>))\<rparr>"

definition demo_net :: "msg list net" where
  "demo_net = \<lparr>net_pool = demo_pool, loops = (\<lambda>_. event_loop_new),
     tcps = (\<lambda>_. \<lparr>connfd = 5, conn_loop = 1, ibuf = NULL, obuf = Ptr 0\<rparr>), fresh_conn = 1,
     conns = replicate 16 None, curr_conns = 1, max_conns = 10, queues = [], tp_index = 0, closed = [], app = []\<rparr>"

lemma demo_net_simps [simp]:
  "net_pool demo_net = demo_pool" "ibuf_of 0 demo_net = NULL" "obuf_of 0 demo_net = Ptr 0"
  "tcps demo_net c = \<lparr>connfd = 5, conn_loop = 1, ibuf = NULL, obuf = Ptr 0\<rparr>" "conns demo_net = replicate 16 None"
  "app demo_net = []" "loops demo_net l = event_loop_new" "closed demo_net = []" "curr_conns demo_net = 1"
  by (simp_all add: demo_net_def ibuf_of_def obuf_of_def)

lemma demo_net_ok: "conn_ok 0 demo_net [] [1, 2, 3]"
  using demo_pool_ok by (simp add: conn_ok_def)

lemma demo_callbacks: "callbacks_ok demo_env c app"
  by (auto simp: callbacks_ok_def demo_env_def ib.holds_def ibuf_of_def)

lemma demo_registered: "registered demo_env i \<longleftrightarrow> i = 1"
  by (simp add: registered_def demo_env_def register_msg_router_def msg_router_new_def)

lemma demo_alloc: "k \<le> 4096 \<Longrightarrow> \<exists>s1. reserve k NULL demo_pool = Inr (True, Ptr 1, s1)"
  by (simp add: demo_pool_def pool_eval)

section \<open>Properties\<close>

text \<open>
  C12: \<open>tcp_conn::do_read\<close>. With unread bytes \<open>d\<close> left from before and \<open>bs\<close> arriving, exactly the messages that
  \<open>parse\<close> finds in \<open>d @ bs\<close> and that have a callback are handed to it, in order, and the incomplete rest stays in \<open>ibuf\<close>.
  The bytes must not end with a message without a body, and the callbacks only log what they are given.
\<close>

theorem do_read_messages:
  assumes "pool_inv (net_pool n)" and "rb_holds (net_pool n) (ibuf_of c n) d" and "rb_ready (net_pool n) (ibuf_of c n)"
    and "callbacks_ok env c seen"
    and "reserve k (ibuf_of c n) (net_pool n) = Inr (True, q, s1)"
    and "read_retry rs = Inr (Rd bs, rs')" and "bs \<noteq> []" and "int (length bs) = k"
    and "parse (d @ bs) = (ms, r, False)" and "\<not> ends_empty (d @ bs)"
  shows "\<exists>n'. do_read env c (Some k) rs n = Inr n' \<and> pool_inv (net_pool n') \<and>
    rb_holds (net_pool n') (ibuf_of c n') r \<and> rb_ready (net_pool n') (ibuf_of c n') \<and>
    seen n' = seen n @ filter (\<lambda>m. registered env (fst m)) ms"
proof -
  have h: "ib.holds c n d" using assms(1,2) by (simp add: ib.holds_def)
  obtain a b where b: "q = Ptr a" "pool.held s1 a b" "buf_len b = int (length d)" "buf_len b + k \<le> capacity b"
      "pool_inv s1" using read_data_ok [OF assms(1-3,5,6)] by metis
  then have "capacity b \<in> set mem_caps" using pool_inv_buf by (auto simp: held_bufs)
  then have "int (length (d @ bs)) \<le> 8388608" using b(3,4) assms(8) by (auto simp: mem_caps_def)
  then have fuel: "length ms \<le> max_frames" using length_parse [OF assms(9)] by (simp add: max_frames_def)
  show ?thesis
    using ib.read_frames_ok [OF h assms(3) callbacks_handler [OF assms(4)] assms(5-10) fuel, of "clean_conn env c"]
    by (auto simp: do_read_def ib.holds_def)
qed

lemma do_read_messages_witness:
  "\<exists>n'. do_read demo_env 0 (Some 20) [Rd (encode_msg (1, [7]) @ encode_msg (2, []) @ [9, 9, 9])] demo_net = Inr n' \<and>
     rb_holds (net_pool n') (ibuf_of 0 n') [9, 9, 9] \<and> app n' = [(1, [7])]"
proof -
  let ?bs = "encode_msg (1, [7]) @ encode_msg (2, []) @ [9, 9, 9]"
  obtain s1 where s1: "reserve 20 NULL demo_pool = Inr (True, Ptr 1, s1)" using demo_alloc [of 20] by auto
  have p: "parse ([] @ ?bs) = ([(1, [7]), (2, [])], [9, 9, 9], False)"
    by (simp add: parse_encode_msg parse_short msg_ok_def in_int_def MESSAGE_LENGTH_LIMIT_def MESSAGE_HEAD_LEN_def)
  then have "\<not> ends_empty ([] @ ?bs)" by (simp add: ends_empty_def)
  with do_read_messages [of demo_net 0 "[]" demo_env app 20 "Ptr 1" s1 "[Rd ?bs]" ?bs "[]", OF _ _ _ _ _ _ _ _ p]
  show ?thesis using s1 demo_callbacks demo_pool_ok(1) by (auto simp: demo_registered)
qed

text \<open>
  \<open>tcp_conn::do_read\<close> aborts the process when the received bytes end with a message whose length is
  zero: popping its header hands the buffer back, and the following \<open>pop(0)\<close> asserts that there is one.
\<close>

theorem do_read_empty_message:
  assumes "pool_inv (net_pool n)" and "rb_holds (net_pool n) (ibuf_of c n) d" and "rb_ready (net_pool n) (ibuf_of c n)"
    and "callbacks_ok env c seen"
    and "reserve k (ibuf_of c n) (net_pool n) = Inr (True, q, s1)"
    and "read_retry rs = Inr (Rd bs, rs')" and "bs \<noteq> []" and "int (length bs) = k"
    and "ends_empty (d @ bs)"
  shows "do_read env c (Some k) rs n = Inl AssertFail"
proof -
  obtain ms r bad where p: "parse (d @ bs) = (ms, r, bad)" by (cases "parse (d @ bs)")
  obtain a b where b: "q = Ptr a" "pool.held s1 a b" "buf_len b = int (length d)" "buf_len b + k \<le> capacity b"
      "pool_inv s1" and
    "\<exists>s'. read_data (Some k) rs (ibuf_of c n) (net_pool n) = Inr (k, rs', q, s') \<and> pool_inv s' \<and> rb_holds s' q (d @ bs)"
    by (rule read_data_ok [OF assms(1-3,5,6)]) (use assms(7,8) in \<open>auto simp: split: if_splits\<close>)
  then obtain s' where s': "read_data (Some k) rs (ibuf_of c n) (net_pool n) = Inr (k, rs', q, s')"
      "pool_inv s'" "rb_holds s' q (d @ bs)" by blast
  have h: "ib.holds c (put_ibuf c q s' n) (d @ bs)" using s'(2,3) by (simp add: ib.holds_def)
  have "length ms \<le> max_frames" using frames_fit [OF s'(2,3) p] .
  from ib.frame_loop_ends_empty [OF h callbacks_handler [OF assms(4), unfolded ib.handler_ok_def] p assms(9) this]
  have "frame_loop max_frames (ibuf_of c) net_pool (put_ibuf c) (conn_msg_call env c) (clean_conn env c)
      (put_ibuf c q s' n) = Inl AssertFail" by simp
  moreover have "k > 0" using assms(7,8) by auto
  ultimately show ?thesis using s'(1) by (simp add: do_read_def read_frames_def Let_def)
qed

lemma do_read_empty_message_witness:
  "do_read demo_env 0 (Some 8) [Rd (encode_msg (2, []))] demo_net = Inl AssertFail"
proof -
  obtain s1 where s1: "reserve 8 NULL demo_pool = Inr (True, Ptr 1, s1)" using demo_alloc [of 8] by auto
  have "parse (encode_msg (2, [])) = ([(2, [])], [], False)"
    using parse_encode_msg [of "(2, [])" "[]"]
    by (simp add: parse_short msg_ok_def in_int_def MESSAGE_LENGTH_LIMIT_def MESSAGE_HEAD_LEN_def)
  then have "ends_empty ([] @ encode_msg (2, []))" by (simp add: ends_empty_def)
  moreover have "encode_msg (2, []) \<noteq> []" using length_encode_msg [of "(2, [])"] by (metis add_is_0 list.size(3) zero_neq_numeral)
  ultimately show ?thesis
    using do_read_empty_message [of demo_net 0 "[]" demo_env app 8 "Ptr 1" s1 "[Rd (encode_msg (2, []))]" "encode_msg (2, [])" "[]"]
      s1 demo_callbacks demo_pool_ok(1) by simp
qed

text \<open>
  C36: \<open>tcp_conn::do_read\<close> closes the connection when \<open>ioctl\<close> or \<open>read\<close> fails, at end of file, and when the first header
  is malformed: its entry in \<open>conns\<close> is removed and counted, the event loop forgets the descriptor, which is
  closed, the connection has no buffer any more, and the buffers out of the pool are those of before but its two, so
  nothing it held is lost. The close hook runs first; it may do what it likes with the application's own state.
\<close>

theorem do_read_closes:
  assumes "conn_ok c n d e" and "hook_local (conn_close_cb env) c f"
    and "0 \<le> connfd (tcps n c)" and "connfd (tcps n c) < int (length (conns n))"
    and "fionread = None \<or>
      (\<exists>k q s1 rs' x. fionread = Some k \<and> reserve k (ibuf_of c n) (net_pool n) = Inr (True, q, s1) \<and>
         read_retry rs = Inr (x, rs') \<and>
         (x = RdErr \<or> x = Rd [] \<or> (\<exists>bs r. x = Rd bs \<and> bs \<noteq> [] \<and> int (length bs) = k \<and> parse (d @ bs) = ([], r, True))))"
  shows "\<exists>n'. do_read env c fionread rs n = Inr n' \<and>
    ibuf_of c n' = NULL \<and> obuf_of c n' = NULL \<and> pool_inv (net_pool n') \<and>
    handed_out (net_pool n') = {a \<in> handed_out (net_pool n). Ptr a \<noteq> ibuf_of c n \<and> Ptr a \<noteq> obuf_of c n} \<and>
    conns n' = (conns n)[nat (connfd (tcps n c)) := None] \<and> curr_conns n' = curr_conns n - 1 \<and>
    io_evs (loops n' (conn_loop (tcps n c))) (connfd (tcps n c)) = None \<and>
    closed n' = closed n @ [connfd (tcps n c)] \<and> app n' = f (app n)"
proof -
  have fin: ?thesis if run: "do_read env c fionread rs n = rbind (clean_conn env c (put_ibuf c p s n)) (\<lambda>w2.
        rbind (frame_loop max_frames (ibuf_of c) net_pool (put_ibuf c) (conn_msg_call env c) (clean_conn env c) w2) (\<lambda>w3.
        rbind (rb_adjust (ibuf_of c w3) (net_pool w3)) (\<lambda>s'. Inr (put_ibuf c (ibuf_of c w3) s' w3)))) \<or>
      do_read env c fionread rs n = clean_conn env c (put_ibuf c p s n) \<or>
      do_read env c fionread rs n = rbind (clean_conn env c (put_ibuf c p s n)) (\<lambda>w3.
        rbind (rb_adjust (ibuf_of c w3) (net_pool w3)) (\<lambda>s'. Inr (put_ibuf c (ibuf_of c w3) s' w3)))"
    and ok: "conn_ok c (put_ibuf c p s n) d' e" and kept: "others_kept (net_pool n) (ibuf_of c n) s p" for p s d'
  proof -
    obtain n' s4 where n': "clean_conn env c (put_ibuf c p s n) = Inr n'" "ibuf_of c n' = NULL" "obuf_of c n' = NULL"
        "pool_inv (net_pool n')" "others_kept s p s4 NULL" "others_kept s4 (obuf_of c n) (net_pool n') NULL"
        "conns n' = (conns n)[nat (connfd (tcps n c)) := None]" "curr_conns n' = curr_conns n - 1"
        "loops n' = (loops n)(conn_loop (tcps n c) := del_io_event (connfd (tcps n c)) (loops n (conn_loop (tcps n c))))"
        "closed n' = closed n @ [connfd (tcps n c)]" "app n' = f (app n)"
      using clean_conn_closes [OF ok assms(2)] assms(3,4) by auto
    have "handed_out (net_pool n') = {a \<in> handed_out (net_pool n). Ptr a \<noteq> ibuf_of c n \<and> Ptr a \<noteq> obuf_of c n}"
      using handed_out_back [OF n'(6)] handed_out_back [OF others_kept_trans [OF kept n'(5)]] by auto
    have "put_ibuf c NULL (net_pool n') n' = n'" using ib.put_same [of c n'] n'(2) by simp
    then have "do_read env c fionread rs n = Inr n'"
      using run n'(1,2) by (auto simp: frame_loop_NULL rb_adjust_def)
    with n' \<open>handed_out (net_pool n') = _\<close> show ?thesis by simp
  qed
  show ?thesis
    using assms(5)
  proof (elim disjE exE conjE)
    assume "fionread = None"
    then show ?thesis
      using fin [of "ibuf_of c n" "net_pool n" d] assms(1)
      by (auto simp: do_read_def read_frames_def read_data_def Let_def)
  next
    fix k q s1 rs' x
    assume fio: "fionread = Some k" and res: "reserve k (ibuf_of c n) (net_pool n) = Inr (True, q, s1)"
      and rr: "read_retry rs = Inr (x, rs')"
    have c0: "pool_inv (net_pool n)" "rb_holds (net_pool n) (ibuf_of c n) d" "rb_ready (net_pool n) (ibuf_of c n)"
      using assms(1) by (auto simp: conn_ok_def)
    note keep = conn_ok_put_ibuf [OF assms(1)]
    note rd = read_data_ok [OF c0 res rr]
    {
      assume x: "x = RdErr"
      have r: "read_data (Some k) rs (ibuf_of c n) (net_pool n) = Inr (- 1, rs', q, s1) \<and>
          others_kept (net_pool n) (ibuf_of c n) s1 q \<and> pool_inv s1 \<and> rb_holds s1 q d \<and> rb_ready s1 q"
        by (rule rd) (use x in simp)
      then have "conn_ok c (put_ibuf c q s1 n) d e" by (intro keep) simp_all
      with r fio show ?thesis by (intro fin [of q s1 d]) (auto simp: do_read_def read_frames_def Let_def)
    next
      assume x: "x = Rd []"
      obtain s where s: "read_data (Some k) rs (ibuf_of c n) (net_pool n) = Inr (0, rs', q, s)" "pool_inv s"
          "rb_holds s q d" "rb_ready s q" "others_kept (net_pool n) (ibuf_of c n) s q"
        by (rule rd) (use x in \<open>auto split: if_splits dest: pool.held_wf simp: wf_buf_def\<close>)
      with fio show ?thesis
        by (intro fin [OF _ keep [OF s(5,2,3,4)] s(5)]) (simp add: do_read_def read_frames_def Let_def)
    next
      fix bs r
      assume x: "x = Rd bs" "bs \<noteq> []" "int (length bs) = k" and bad: "parse (d @ bs) = ([], r, True)"
      obtain s where s: "read_data (Some k) rs (ibuf_of c n) (net_pool n) = Inr (k, rs', q, s)" "pool_inv s"
          "rb_holds s q (d @ bs)" "rb_ready s q" "others_kept (net_pool n) (ibuf_of c n) s q"
        by (rule rd) (use x in \<open>auto split: if_splits\<close>)
      have "ib.holds c (put_ibuf c q s n) (d @ bs)" using s by (simp add: ib.holds_def)
      from frame_loop_bad [OF this bad] s(1) fio x show ?thesis
        by (intro fin [OF _ keep [OF s(5,2,3,4)] s(5)]) (auto simp: do_read_def read_frames_def Let_def)
    }
  qed
qed

lemma do_read_closes_witness:
  "\<exists>n'. do_read demo_env 0 None [] demo_net = Inr n' \<and> closed n' = [5] \<and> curr_conns n' = 0 \<and> handed_out (net_pool n') = {}"
proof -
  have "handed_out demo_pool \<subseteq> {0}" by (auto simp: handed_out_def demo_pool_def pool_eval split: if_splits)
  then show ?thesis
    using do_read_closes [OF demo_net_ok, of demo_env "\<lambda>a. a" None "[]"] hook_local_None [of 0] by (auto simp: demo_env_def)
qed

text \<open>
  \<open>tcp_conn::send_message\<close> appends exactly one encoded message to the output buffer, leaves the input
  buffer alone, and registers the write event if and only if nothing was waiting to be written.
\<close>

theorem send_message_ok:
  assumes "conn_ok c n d e" and "send_message c data i n = Inr (0, n')"
  shows "conn_ok c n' d (e @ encode_msg (i, data)) \<and>
    loops n' = (if e = []
      then (loops n)(conn_loop (tcps n c) :=
             add_io_event True (connfd (tcps n c)) conn_wt_callback EPOLLOUT (Some c) (loops n (conn_loop (tcps n c))))
      else loops n)"
proof -
  have h: "ob.holds c n e" "rb_ready (net_pool n) (obuf_of c n)"
    using assms(1) by (auto simp: conn_ok_def ob.holds_def)
  let ?arm = "\<lambda>m. upd_loop (conn_loop (tcps m c)) (add_io_event True (connfd (tcps m c)) conn_wt_callback EPOLLOUT (Some c)) m"
  obtain p s where ps: "n' = (if e = [] then ?arm (put_obuf c p s n) else put_obuf c p s n)" "pool_inv s"
      "rb_holds s p (e @ encode_msg (i, data))" "rb_ready s p" "others_kept (net_pool n) (obuf_of c n) s p"
    using ob.send_framed_ok [OF h assms(2) [unfolded send_message_def]] by blast
  then have "conn_ok c (put_obuf c p s n) d (e @ encode_msg (i, data))"
    using conn_ok_put_obuf [OF assms(1)] by blast
  with ps(1) show ?thesis by auto
qed

lemma send_message_ok_witness:
  "\<exists>n'. send_message 0 [7] 1 demo_net = Inr (0, n') \<and> conn_ok 0 n' [] ([1, 2, 3] @ encode_msg (1, [7]))"
proof -
  obtain b where b: "bufs demo_pool 0 = Some b" "capacity b = 4096" "buf_len b = 3" "buf_head b = 0"
    using demo_buf by blast
  have "\<exists>n'. send_message 0 [7] 1 demo_net = Inr (0, n')"
    using b demo_reserve [of 8]
    by (simp add: send_message_def send_framed_def rb_length_def deref_def Let_def send_data_def buf_write_def
        put_def set_buf_def reserve_def reserve_with_def)
  then show ?thesis using send_message_ok [OF demo_net_ok] by blast
qed

text \<open>
  When the header fits in the output buffer and the body does not, \<open>send_message\<close> removes eight bytes
  from the front of what is waiting instead of the header it has just appended: the peer loses the
  start of an earlier message and would get a header without body; and the buffer's window no longer
  starts at the front, so the next \<open>do_write\<close> aborts on an assertion.
\<close>

theorem send_message_body_fails:
  assumes "conn_ok c n d e" and "e \<noteq> []"
    and "send_data (encode_head \<lparr>msgid = i, msglen = int (length data)\<rparr>) (obuf_of c n) (net_pool n) = Inr (0, p, s)"
    and "8388608 < int (length data) + int (length e) + 8" and "in_int (int (length data) + int (length e) + 8)"
  shows "\<exists>n'. send_message c data i n = Inr (- 1, n') \<and>
    rb_holds (net_pool n') (obuf_of c n') (drop 8 (e @ encode_head \<lparr>msgid = i, msglen = int (length data)\<rparr>)) \<and>
    do_write env c ws n' = Inl AssertFail"
proof -
  have h: "ob.holds c n e" "rb_ready (net_pool n) (obuf_of c n)"
    using assms(1) by (auto simp: conn_ok_def ob.holds_def)
  obtain n' where n': "send_message c data i n = Inr (- 1, n')"
      "ob.holds c n' (drop 8 (e @ encode_head \<lparr>msgid = i, msglen = int (length data)\<rparr>))"
      "obuf_of c n' \<noteq> NULL" "\<not> rb_ready (net_pool n') (obuf_of c n')"
    using ob.send_framed_body_fails [OF h assms(2-5)] unfolding send_message_def by blast
  have l: "rb_length (obuf_of c n') (net_pool n') \<noteq> Inr 0"
    using ob.holds_length [OF n'(2)] assms(2) by (cases e) auto
  have "write2fd ws (obuf_of c n') (net_pool n') = Inl AssertFail"
    using write2fd_not_ready n'(2,4) unfolding ob.holds_def by blast
  then have "do_write env c ws n' = Inl AssertFail"
    using ob.holds_length [OF n'(2)] l by (subst do_write.simps) auto
  with n' show ?thesis by (auto simp: ob.holds_def)
qed

lemma send_message_body_fails_witness:
  "\<exists>n'. send_message 0 (replicate 8388608 0) 1 demo_net = Inr (- 1, n') \<and>
     do_write demo_env 0 [Wr 1] n' = Inl AssertFail"
proof -
  obtain b where b: "bufs demo_pool 0 = Some b" "capacity b = 4096" "buf_len b = 3" "buf_head b = 0"
    using demo_buf by blast
  obtain p s where "send_data (encode_head \<lparr>msgid = 1, msglen = int (length (replicate 8388608 (0 :: u8)))\<rparr>)
      (obuf_of 0 demo_net) (net_pool demo_net) = Inr (0, p, s)"
    using b demo_reserve [of 8] by (simp add: send_data_def deref_def buf_write_def)
  from send_message_body_fails [OF demo_net_ok _ this, of demo_env "[Wr 1]"] show ?thesis
    by (auto simp: in_int_def)
qed

text \<open>
  \<open>tcp_conn::do_write\<close>, for any way the kernel takes the output in pieces before the socket is full:
  what is written followed by what stays in the buffer is what was waiting, and the write event is
  removed exactly when everything has been written.
\<close>

theorem do_write_drains:
  assumes "conn_ok c n d e" and "e \<noteq> []" and "\<forall>k \<in> set ks. 0 < k" and "sum_list ks \<le> int (length e)"
  shows "\<exists>n'. do_write env c (map Wr ks @ [WrEagain]) n = Inr n' \<and>
    conn_ok c n' d (drop (nat (sum_list ks)) e) \<and>
    loops n' = (if sum_list ks = int (length e)
      then (loops n)(conn_loop (tcps n c) := del_io_event_mask True (connfd (tcps n c)) EPOLLOUT (loops n (conn_loop (tcps n c))))
      else loops n)"
  using assms
proof (induction ks arbitrary: n e)
  case Nil
  have o: "pool_inv (net_pool n)" "rb_holds (net_pool n) (obuf_of c n) e" "rb_ready (net_pool n) (obuf_of c n)"
    using Nil by (auto simp: conn_ok_def)
  then obtain s where s: "write2fd [WrEagain] (obuf_of c n) (net_pool n) = Inr (0, [], s)" "pool_inv s"
      "rb_holds s (obuf_of c n) e" "rb_ready s (obuf_of c n)" "others_kept (net_pool n) (obuf_of c n) s (obuf_of c n)"
    using write2fd_ok [OF o, of "[WrEagain]" WrEagain "[]"] Nil(2) by fastforce
  then have "do_write env c [WrEagain] n = Inr (put_obuf c (obuf_of c n) s n)"
    using rb_length_ok [OF o(2,1)] Nil(2) by (subst do_write.simps) (simp add: Let_def)
  then show ?case using conn_ok_put_obuf [OF Nil(1) s(5,2,3,4)] Nil(2) by auto
next
  case (Cons k ks)
  have k: "0 < k" "k \<le> int (length e)" and nn: "0 \<le> sum_list ks"
    using Cons.prems sum_list_nonneg [of ks] by fastforce+
  obtain n1 where n1: "conn_ok c n1 d (drop (nat k) e)" "tcps n1 = tcps n"
      "loops n1 = (if k = int (length e)
        then (loops n)(conn_loop (tcps n c) := del_io_event_mask True (connfd (tcps n c)) EPOLLOUT (loops n (conn_loop (tcps n c))))
        else loops n)"
      "do_write env c (map Wr (k # ks) @ [WrEagain]) n = do_write env c (map Wr ks @ [WrEagain]) n1"
    using do_write_pass [OF Cons.prems(1,2) _ k, of "map Wr (k # ks) @ [WrEagain]" "map Wr ks @ [WrEagain]"] by auto
  show ?case
  proof (cases "k = int (length e)")
    case True
    have "ks = []"
    proof (cases ks)
      case (Cons a as)
      then have "0 < a" "0 \<le> sum_list as" using Cons.prems(3) sum_list_nonneg [of as] by fastforce+
      with Cons Cons.prems(4) True show ?thesis by simp
    qed
    with True n1 do_write_empty [of c n1 d env] show ?thesis by auto
  next
    case False
    with k have ne: "drop (nat k) e \<noteq> []" by auto
    have sum: "sum_list ks \<le> int (length (drop (nat k) e))" using Cons.prems(4) k by (simp add: of_nat_diff)
    obtain n' where n': "do_write env c (map Wr ks @ [WrEagain]) n1 = Inr n'"
        "conn_ok c n' d (drop (nat (sum_list ks)) (drop (nat k) e))"
        "loops n' = (if sum_list ks = int (length (drop (nat k) e))
          then (loops n)(conn_loop (tcps n c) := del_io_event_mask True (connfd (tcps n c)) EPOLLOUT (loops n (conn_loop (tcps n c))))
          else loops n)"
      using Cons.IH [OF n1(1) ne _ sum] Cons.prems(3) n1(2,3) False by auto
    have "nat (sum_list ks) + nat k = nat (k + sum_list ks)" using k nn by (simp add: nat_add_distrib)
    then show ?thesis using n' n1(4) k by (auto simp: of_nat_diff)
  qed
qed

lemma do_write_drains_witness:
  "\<exists>n'. do_write demo_env 0 [Wr 1, Wr 1, WrEagain] demo_net = Inr n' \<and> conn_ok 0 n' [] [3]"
  using do_write_drains [OF demo_net_ok, of "[1, 1]" demo_env] by auto

end
