(* ===== verification/Tcp_Server.thy ===== *)
theory Tcp_Server
  imports Tcp_Conn
begin

text \<open>
  The thread pool (\<open>lars_reactors/src/thread_pool.cpp\<close>) and the listening side of \<open>tcp_server\<close>
  (\<open>src/tcp_server.cpp\<close>): the main thread accepts connections and hands each one, round robin, to the
  queue of a thread, whose event loop then creates the \<open>tcp_conn\<close>. Loop \<open>0\<close> is the main thread's and
  loop \<open>i + 1\<close> that of thread \<open>i\<close>.
\<close>

section \<open>The thread pool\<close>

text \<open>
  The constructor: one queue and one thread per index. A new thread runs \<open>thread_main\<close>, which makes its
  event loop and watches the queue's eventfd; \<open>fds\<close> are the descriptors \<open>eventfd\<close> returns.
\<close>

definition thread_main :: "nat \<Rightarrow> 'u net \<Rightarrow> 'u net" where
  "thread_main i n =
     (let q = set_queue_loop (Suc i) (queues n ! i);
          n1 = n\<lparr>loops := (loops n)(Suc i := event_loop_new), queues := (queues n)[i := q]\<rparr>
      in upd_loop (Suc i) (add_io_event True (evfd q) deal_task_cb EPOLLIN (Some i)) n1)"

fun start_threads :: "int list \<Rightarrow> 'u net \<Rightarrow> 'u net res" where
  "start_threads [] n = Inr n"
| "start_threads (fd # fds) n =
     rbind (thread_queue_new fd) (\<lambda>q.
       start_threads fds (thread_main (length (queues n)) (n\<lparr>queues := queues n @ [q]\<rparr>)))"

definition thread_pool_new :: "int \<Rightarrow> int list \<Rightarrow> 'u net \<Rightarrow> 'u net res" where
  "thread_pool_new thread_cnt fds n =
     (if thread_cnt \<le> 0 then Inl (Exit 1)
      else start_threads (take (nat thread_cnt) fds) (n\<lparr>queues := [], tp_index := 0\<rparr>))"

text \<open>\<open>get_thread\<close>: the number of the chosen queue; \<open>_queues[_index++]\<close>.\<close>

definition get_thread :: "'u net \<Rightarrow> (nat \<times> 'u net) res" where
  "get_thread n =
     (let n1 = (if tp_index n = int (length (queues n)) then n\<lparr>tp_index := 0\<rparr> else n)
      in if 0 \<le> tp_index n1 \<and> tp_index n1 < int (length (queues n1))
         then Inr (nat (tp_index n1), n1\<lparr>tp_index := tp_index n1 + 1\<rparr>)
         else Inl OutOfBounds)"

definition send_to :: "task_msg \<Rightarrow> nat \<Rightarrow> 'u net \<Rightarrow> 'u net res" where
  "send_to task i n = rbind (send task (queues n ! i)) (\<lambda>q. Inr (n\<lparr>queues := (queues n)[i := q]\<rparr>))"

text \<open>\<open>send_task\<close>: the same task to every thread.\<close>

definition send_task :: "nat \<Rightarrow> addr option \<Rightarrow> 'u net \<Rightarrow> 'u net res" where
  "send_task func a n =
     fold (\<lambda>i m. rbind m (send_to (NEW_TASK func a) i)) [0..<length (queues n)] (Inr n)"

text \<open>The thread's side: \<open>deal_task\<close> takes the whole queue and handles the messages in order.\<close>

definition deal_one :: "'u srv_env \<Rightarrow> nat \<Rightarrow> task_msg \<Rightarrow> 'u net \<Rightarrow> 'u net res" where
  "deal_one env l task n =
     (case task of
        NEW_CONN fd \<Rightarrow> rbind (tcp_conn_new env fd l n) (\<lambda>(c, n1). Inr n1)
      | NEW_TASK func a \<Rightarrow> Inr (upd_loop l (add_task func a) n))"

fun deal_all :: "'u srv_env \<Rightarrow> nat \<Rightarrow> task_msg list \<Rightarrow> 'u net \<Rightarrow> 'u net res" where
  "deal_all env l [] n = Inr n"
| "deal_all env l (t # ts) n = rbind (deal_one env l t n) (deal_all env l ts)"

definition deal_task :: "'u srv_env \<Rightarrow> nat \<Rightarrow> 'u net \<Rightarrow> 'u net res" where
  "deal_task env i n =
     (let (ms, q) = recv (queues n ! i)
      in deal_all env (Suc i) ms (n\<lparr>queues := (queues n)[i := q]\<rparr>))"

section \<open>Accepting connections\<close>

datatype acc_ret = Acc int | AccEintr | AccEmfile | AccEagain | AccErr

text \<open>A connection accepted: refused when there are too many, else given to a thread or served here.\<close>

definition accept_conn :: "'u srv_env \<Rightarrow> int \<Rightarrow> 'u net \<Rightarrow> 'u net res" where
  "accept_conn env fd n =
     (if max_conns n \<le> get_conn_num n then Inr (close_fd fd n)
      else if queues n \<noteq> [] then
        rbind (get_thread n) (\<lambda>(i, n1). send_to (NEW_CONN fd) i n1)
      else rbind (tcp_conn_new env fd 0 n) (\<lambda>(c, n1). Inr n1))"

text \<open>
  \<open>do_accept\<close> on the outcomes of \<open>accept\<close>. \<open>EMFILE\<close> goes round the loop like \<open>EINTR\<close>; when the list is at
  its end the loop is still running.
\<close>

fun do_accept :: "'u srv_env \<Rightarrow> acc_ret list \<Rightarrow> 'u net \<Rightarrow> 'u net res" where
  "do_accept env [] n = Inl Blocked"
| "do_accept env (AccEintr # as) n = do_accept env as n"
| "do_accept env (AccEmfile # as) n = do_accept env as n"
| "do_accept env (AccEagain # as) n = Inr n"
| "do_accept env (AccErr # as) n = Inl (Exit 1)"
| "do_accept env (Acc fd # as) n = accept_conn env fd n"

text \<open>
  The constructor of \<open>tcp_server\<close> after the socket is listening: \<open>thread_cnt\<close> and \<open>max_conn\<close> come from the
  configuration. Without a thread pool the code leaves \<open>_thread_pool\<close> uninitialised. The entries of \<open>conns\<close> are
  not initialised either; the model has \<open>None\<close>, as the library reads no entry before it is first written. A negative
  size makes \<open>new\<close> throw.
\<close>

definition conns_size :: "int \<Rightarrow> int \<Rightarrow> int res" where
  "conns_size max_conn thread_cnt =
     (if in_int (2 * thread_cnt)
      then rbind (cint_add max_conn 5) (\<lambda>m. rbind (cint_add m (2 * thread_cnt)) (\<lambda>size. if size < 0 then Inl Uncaught else Inr size))
      else Inl SignedOverflow)"

definition tcp_server_start :: "int \<Rightarrow> int \<Rightarrow> int \<Rightarrow> int list \<Rightarrow> 'u net \<Rightarrow> 'u net res" where
  "tcp_server_start sockfd thread_cnt max_conn fds n =
     rbind (if 0 < thread_cnt then thread_pool_new thread_cnt fds n else Inr n) (\<lambda>n1.
     rbind (conns_size max_conn thread_cnt) (\<lambda>size.
       let n2 = n1\<lparr>max_conns := max_conn, conns := replicate (nat size) None, curr_conns := 0\<rparr>
       in Inr (upd_loop 0 (add_io_event True sockfd accept_callback EPOLLIN None) n2)))"

section \<open>Lemmas\<close>

text \<open>Round robin: with \<open>k\<close> threads the calls cycle through \<open>0, 1, ..., k - 1\<close>.\<close>

fun get_threads :: "nat \<Rightarrow> 'u net \<Rightarrow> (nat list \<times> 'u net) res" where
  "get_threads 0 n = Inr ([], n)"
| "get_threads (Suc m) n =
     rbind (get_thread n) (\<lambda>(i, n1). rbind (get_threads m n1) (\<lambda>(is, n2). Inr (i # is, n2)))"

lemma get_thread_step:
  assumes "queues n \<noteq> []" and "0 \<le> tp_index n" and "tp_index n \<le> int (length (queues n))"
  shows "get_thread n = Inr (nat (tp_index n) mod length (queues n),
    n\<lparr>tp_index := int (nat (tp_index n) mod length (queues n)) + 1\<rparr>)"
proof -
  have "int (length (queues n)) \<noteq> 0" using assms(1) by simp
  then show ?thesis using assms by (auto simp: get_thread_def Let_def nat_less_iff)
qed

lemma get_threads_cycle:
  assumes "queues n \<noteq> []" and "0 \<le> tp_index n" and "tp_index n \<le> int (length (queues n))"
  shows "\<exists>n'. get_threads m n = Inr (map (\<lambda>j. (nat (tp_index n) + j) mod length (queues n)) [0..<m], n')"
  using assms
proof (induction m arbitrary: n)
  case (Suc m)
  let ?k = "length (queues n)"
  let ?n1 = "n\<lparr>tp_index := int (nat (tp_index n) mod ?k) + 1\<rparr>"
  have k: "0 < ?k" using Suc.prems(1) by simp
  have "\<exists>n'. get_threads m ?n1 = Inr (map (\<lambda>j. (nat (tp_index ?n1) + j) mod length (queues ?n1)) [0..<m], n')"
    using Suc.prems(1) mod_less_divisor [OF k, of "nat (tp_index n)"]
    by (intro Suc.IH) (simp_all del: mod_less_divisor)
  moreover have "(nat (tp_index ?n1) + j) mod length (queues ?n1) = (nat (tp_index n) + Suc j) mod ?k" for j
    using mod_add_left_eq [of "nat (tp_index n)" ?k "Suc j"] by (simp add: nat_add_distrib)
  ultimately show ?case using get_thread_step [OF Suc.prems] by (auto simp: map_upt_Suc simp del: upt_Suc)
qed simp

text \<open>Creating a connection: what the thread that gets \<open>NEW_CONN\<close> ends up with.\<close>

lemma tcp_conn_new_ok:
  assumes "conn_start_cb env = None" and "0 \<le> fd" and "fd < int (length (conns n))"
    and "loop_inv (loops n l)"
  shows "\<exists>n'. tcp_conn_new env fd l n = Inr (fresh_conn n, n') \<and>
    conns n' = (conns n)[nat fd := Some (fresh_conn n)] \<and> curr_conns n' = curr_conns n + 1 \<and>
    tcps n' (fresh_conn n) = \<lparr>connfd = fd, conn_loop = l, ibuf = NULL, obuf = NULL\<rparr> \<and>
    (\<exists>ev. io_evs (loops n' l) fd = Some ev \<and> read_cb ev = Some conn_rd_callback \<and> rcb_args ev = Some (fresh_conn n)) \<and>
    loop_inv (loops n' l) \<and> (\<forall>l'. l' \<noteq> l \<longrightarrow> loops n' l' = loops n l') \<and>
    queues n' = queues n \<and> closed n' = closed n \<and> net_pool n' = net_pool n \<and> max_conns n' = max_conns n \<and>
    fresh_conn n' = Suc (fresh_conn n)"
proof -
  let ?c = "fresh_conn n"
  let ?lp = "add_io_event True fd conn_rd_callback EPOLLIN (Some ?c) (loops n l)"
  let ?n' = "upd_loop l (add_io_event True fd conn_rd_callback EPOLLIN (Some ?c)) (n\<lparr>fresh_conn := Suc ?c,
      tcps := (tcps n)(?c := \<lparr>connfd = fd, conn_loop = l, ibuf = NULL, obuf = NULL\<rparr>)\<rparr>)
      \<lparr>conns := (conns n)[nat fd := Some ?c], curr_conns := curr_conns n + 1\<rparr>"
  have run: "tcp_conn_new env fd l n = Inr (?c, ?n')"
    using assms(1-3) by (simp add: tcp_conn_new_def run_hook_def increase_conn_def Let_def)
  have "\<exists>ev. io_evs ?lp fd = Some ev \<and> read_cb ev = Some conn_rd_callback \<and> rcb_args ev = Some ?c"
    by (auto simp: add_io_event_def Let_def split: option.splits)
  moreover have "loop_inv ?lp" using assms(4) by (simp add: add_io_event_inv one_way_def)
  ultimately show ?thesis using run by simp
qed

lemma send_to_ok:
  assumes "ev_counter (queues n ! i) < 18446744073709551614" and "i < length (queues n)"
  shows "\<exists>q. send_to task i n = Inr (n\<lparr>queues := (queues n)[i := q]\<rparr>) \<and>
    q_items q = q_items (queues n ! i) @ [task] \<and> ev_counter q = ev_counter (queues n ! i) + 1"
  using assms
  by (intro exI [of _ "(queues n ! i)\<lparr>q_items := q_items (queues n ! i) @ [task], ev_counter := ev_counter (queues n ! i) + 1\<rparr>"])
    (simp add: send_to_def send_def)

text \<open>All connections accepted before any thread gets to run.\<close>

fun accept_all :: "'u srv_env \<Rightarrow> int list \<Rightarrow> 'u net \<Rightarrow> 'u net res" where
  "accept_all env [] n = Inr n"
| "accept_all env (fd # fds) n = rbind (accept_conn env fd n) (accept_all env fds)"

definition queued :: "'u net \<Rightarrow> nat" where
  "queued n = sum_list (map (length \<circ> q_items) (queues n))"

lemma accept_conn_queued:
  assumes "curr_conns n < max_conns n" and "queues n \<noteq> []" and "0 \<le> tp_index n" and "tp_index n \<le> int (length (queues n))"
    and "\<forall>q \<in> set (queues n). ev_counter q + k < 18446744073709551614"
  shows "\<exists>n'. accept_conn env fd n = Inr n' \<and> queued n' = queued n + 1 \<and> closed n' = closed n \<and>
    curr_conns n' = curr_conns n \<and> max_conns n' = max_conns n \<and> length (queues n') = length (queues n) \<and>
    0 \<le> tp_index n' \<and> tp_index n' \<le> int (length (queues n')) \<and>
    (\<forall>q \<in> set (queues n'). ev_counter q + k \<le> 18446744073709551614)"
proof -
  let ?k = "length (queues n)" let ?i = "nat (tp_index n) mod ?k"
  let ?n1 = "n\<lparr>tp_index := int ?i + 1\<rparr>"
  have i: "?i < ?k" using assms(2) by simp
  then have "ev_counter (queues ?n1 ! ?i) < 18446744073709551614" using assms(5) by (auto dest!: nth_mem)
  then obtain q where q: "send_to (NEW_CONN fd) ?i ?n1 = Inr (?n1\<lparr>queues := (queues n)[?i := q]\<rparr>)"
      "q_items q = q_items (queues n ! ?i) @ [NEW_CONN fd]" "ev_counter q = ev_counter (queues n ! ?i) + 1"
    using send_to_ok [of ?n1 ?i "NEW_CONN fd"] i by auto
  have "queued (?n1\<lparr>queues := (queues n)[?i := q]\<rparr>) = queued n + 1"
  proof -
    let ?xs = "map (length \<circ> q_items) (queues n)"
    have "?xs ! ?i \<le> sum_list ?xs" using i by (intro elem_le_sum_list) simp
    with i q(2) show ?thesis by (simp add: queued_def map_update sum_list_update)
  qed
  moreover have "ev_counter q' + k \<le> 18446744073709551614" if "q' \<in> set ((queues n)[?i := q])" for q'
  proof -
    from that have "q' = q \<or> q' \<in> set (queues n)" using set_update_subset_insert by fastforce
    moreover have "queues n ! ?i \<in> set (queues n)" using i by simp
    ultimately show ?thesis using assms(5) q(3) by fastforce
  qed
  moreover have "int ?i + 1 \<le> int ?k" using i by linarith
  ultimately show ?thesis
    using assms(1,2) get_thread_step [OF assms(2-4)] q(1)
    by (auto simp: accept_conn_def get_conn_num_def)
qed

section \<open>Properties\<close>

text \<open>
  \<open>thread_pool::get_thread\<close> hands out the queues in turn: starting from any index, \<open>m\<close> calls return
  the queues \<open>index, index + 1, ...\<close> modulo the number of threads, and none is out of range.
\<close>

theorem get_thread_round_robin:
  assumes "queues n \<noteq> []" and "0 \<le> tp_index n" and "tp_index n \<le> int (length (queues n))"
  shows "\<exists>n'. get_threads m n = Inr (map (\<lambda>j. (nat (tp_index n) + j) mod length (queues n)) [0..<m], n')"
  by (rule get_threads_cycle [OF assms])

text \<open>A server with a pool of two threads, for the witnesses.\<close>

definition demo_srv :: "msg list net" where
  "demo_srv = (case thread_pool_new 2 [8, 9] demo_net of Inr n \<Rightarrow> n\<lparr>max_conns := 2\<rparr> | Inl _ \<Rightarrow> demo_net)"

lemma demo_srv_eq:
  "thread_pool_new 2 [8, 9] demo_net = Inr (demo_srv\<lparr>max_conns := 10\<rparr>)"
  "queues demo_srv = [\<lparr>evfd = 8, ev_counter = 0, q_items = [], q_loop = Some 1\<rparr>,
     \<lparr>evfd = 9, ev_counter = 0, q_items = [], q_loop = Some 2\<rparr>]"
  "tp_index demo_srv = 0" "max_conns demo_srv = 2" "curr_conns demo_srv = 1" "closed demo_srv = []"
  "conns demo_srv = replicate 16 None" "fresh_conn demo_srv = 1"
  by (simp_all add: demo_srv_def thread_pool_new_def thread_queue_new_def thread_main_def set_queue_loop_def
      Let_def upd_loop_def demo_net_def numeral_2_eq_2)

lemma demo_srv_loop: "loop_inv (loops demo_srv 1)"
  by (simp add: demo_srv_def thread_pool_new_def thread_queue_new_def thread_main_def set_queue_loop_def
      Let_def upd_loop_def demo_net_def numeral_2_eq_2 add_io_event_inv one_way_def)

lemma get_thread_round_robin_witness:
  "\<exists>n'. get_threads 5 demo_srv = Inr ([0, 1, 0, 1, 0], n')"
proof -
  have "map (\<lambda>j. (nat (tp_index demo_srv) + j) mod length (queues demo_srv)) [0..<5] = [0, 1, 0, 1, 0]"
    by (simp add: demo_srv_eq upt_rec mod_Suc)
  with get_thread_round_robin [of demo_srv 5] show ?thesis by (simp add: demo_srv_eq)
qed

text \<open>
  C27: from \<open>accept\<close> to a served connection. A connection accepted below the limit is put in the queue of
  thread \<open>i\<close>; when that thread deals with its queue, the connection object exists, is entered in \<open>conns\<close>
  and counted, and the thread's own event loop, not the main one, watches it for reading. The queue is empty before and there
  is no start hook.
\<close>

theorem accept_then_serve:
  assumes "curr_conns n < max_conns n" and "queues n \<noteq> []" and "0 \<le> tp_index n" and "tp_index n \<le> int (length (queues n))"
    and "i = nat (tp_index n) mod length (queues n)"
    and "q_items (queues n ! i) = []" and "ev_counter (queues n ! i) = 0"
    and "conn_start_cb env = None" and "0 \<le> fd" and "fd < int (length (conns n))" and "loop_inv (loops n (Suc i))"
  shows "\<exists>n1 n2. accept_conn env fd n = Inr n1 \<and> readable (queues n1 ! i) \<and> curr_conns n1 = curr_conns n \<and>
    deal_task env i n1 = Inr n2 \<and> curr_conns n2 = curr_conns n + 1 \<and>
    conns n2 ! nat fd = Some (fresh_conn n) \<and> connfd (tcps n2 (fresh_conn n)) = fd \<and>
    (\<exists>ev. io_evs (loops n2 (Suc i)) fd = Some ev \<and> read_cb ev = Some conn_rd_callback \<and> rcb_args ev = Some (fresh_conn n)) \<and>
    loops n2 0 = loops n 0 \<and> \<not> readable (queues n2 ! i)"
proof -
  have i: "i < length (queues n)" using assms(2,5) by simp
  let ?n0 = "n\<lparr>tp_index := int i + 1\<rparr>"
  obtain q where q: "send_to (NEW_CONN fd) i ?n0 = Inr (?n0\<lparr>queues := (queues n)[i := q]\<rparr>)"
      "q_items q = [NEW_CONN fd]" "ev_counter q = 1"
    using send_to_ok [of ?n0 i "NEW_CONN fd"] i assms(6,7) by auto
  let ?n1 = "?n0\<lparr>queues := (queues n)[i := q]\<rparr>"
  have acc: "accept_conn env fd n = Inr ?n1"
    using assms(1,2,5) get_thread_step [OF assms(2-4)] q(1) by (simp add: accept_conn_def get_conn_num_def)
  let ?n1' = "?n1\<lparr>queues := (queues n)[i := snd (recv q)]\<rparr>"
  obtain n2 where n2: "tcp_conn_new env fd (Suc i) ?n1' = Inr (fresh_conn n, n2)"
      "conns n2 = (conns n)[nat fd := Some (fresh_conn n)]" "curr_conns n2 = curr_conns n + 1"
      "tcps n2 (fresh_conn n) = \<lparr>connfd = fd, conn_loop = Suc i, ibuf = NULL, obuf = NULL\<rparr>"
      "\<exists>ev. io_evs (loops n2 (Suc i)) fd = Some ev \<and> read_cb ev = Some conn_rd_callback \<and> rcb_args ev = Some (fresh_conn n)"
      "\<forall>l'. l' \<noteq> Suc i \<longrightarrow> loops n2 l' = loops n l'" "queues n2 = (queues n)[i := snd (recv q)]"
    using tcp_conn_new_ok [OF assms(8,9), of ?n1' "Suc i"] assms(10,11) by auto
  have "deal_task env i ?n1 = Inr n2"
    using i q(2) n2(1) by (simp add: deal_task_def recv_def deal_one_def)
  moreover have "nat fd < length (conns n)" using assms(9,10) by linarith
  ultimately show ?thesis using acc n2 q(3) i
    by (intro exI [of _ ?n1] exI [of _ n2]) (simp add: readable_def recv_def)
qed

lemma accept_then_serve_witness:
  "\<exists>n1 n2. accept_conn demo_env 7 demo_srv = Inr n1 \<and> deal_task demo_env 0 n1 = Inr n2 \<and>
     conns n2 ! 7 = Some 1 \<and> curr_conns n2 = 2"
  using accept_then_serve [of demo_srv 0 demo_env 7] demo_srv_loop by (auto simp: demo_srv_eq demo_env_def)

text \<open>
  The limit on connections is checked when one is accepted, but a connection is counted only when its
  thread has created it: as long as the threads do not get to run, any number of connections is
  accepted and queued, whatever the limit.
\<close>

theorem accept_overcommits:
  assumes "curr_conns n < max_conns n" and "queues n \<noteq> []" and "0 \<le> tp_index n" and "tp_index n \<le> int (length (queues n))"
    and "\<forall>q \<in> set (queues n). ev_counter q + length fds \<le> 18446744073709551614"
  shows "\<exists>n'. accept_all env fds n = Inr n' \<and> queued n' = queued n + length fds \<and>
    curr_conns n' = curr_conns n \<and> closed n' = closed n"
  using assms
proof (induction fds arbitrary: n)
  case (Cons fd fds)
  obtain n1 where n1: "accept_conn env fd n = Inr n1" "queued n1 = queued n + 1" "closed n1 = closed n"
      "curr_conns n1 = curr_conns n" "max_conns n1 = max_conns n" "length (queues n1) = length (queues n)"
      "0 \<le> tp_index n1" "tp_index n1 \<le> int (length (queues n1))"
      "\<forall>q \<in> set (queues n1). ev_counter q + length fds \<le> 18446744073709551614"
    using accept_conn_queued [OF Cons.prems(1-4), of "length fds" env fd] Cons.prems(5) by fastforce
  then have "queues n1 \<noteq> []" using Cons.prems(2) by auto
  with Cons.IH [of n1] n1 Cons.prems(1) show ?case by auto
qed simp

lemma accept_overcommits_witness:
  "\<exists>n'. accept_all demo_env [11, 12, 13, 14, 15] demo_srv = Inr n' \<and> queued n' = 5 \<and>
     max_conns demo_srv = 2 \<and> closed n' = []"
  using accept_overcommits [of demo_srv "[11, 12, 13, 14, 15]" demo_env] by (auto simp: demo_srv_eq queued_def)

end
