(* ===== verification/Conn_Outputs.thy ===== *)
theory Conn_Outputs
  imports Tcp_Server
begin

text \<open>
  Several connections at once: what waits in the output buffer of each. Sending on one connection leaves
  the others' buffers alone, because no two connections share a buffer of the pool. Also what sending and
  closing never touch, whatever their outcome.
\<close>

section \<open>What the operations on one connection leave alone\<close>

lemma send_framed_frame:
  assumes "\<And>p s w. f (put_buf p s w) = f w" and "\<And>w. f (arm w) = f w"
    and "send_framed buf_of pool_of put_buf arm data i w = Inr (r, w')"
  shows "f w' = f w"
  using assms by (auto simp: send_framed_def rbind_eq_Inr Let_def w_pop_def split: if_splits)

lemma send_framed_natural:
  assumes "\<And>w. buf_of (g w) = buf_of w" "\<And>w. pool_of (g w) = pool_of w"
    "\<And>p s w. put_buf p s (g w) = g (put_buf p s w)" "\<And>w. arm (g w) = g (arm w)"
  shows "send_framed buf_of pool_of put_buf arm data i (g w) =
    map_sum id (map_prod id g) (send_framed buf_of pool_of put_buf arm data i w)"
  by (simp add: send_framed_def w_pop_def rbind_def Let_def assms split: sum.split prod.split)

lemma clean_buf_frame:
  "(\<And>p s w. f (put_buf p s w) = f w) \<Longrightarrow> clean_buf buf_of put_buf n = Inr n' \<Longrightarrow> f n' = f n"
  by (auto simp: clean_buf_def rbind_eq_Inr)

text \<open>The parts of the state that are the server's and the application's, not the buffers'.\<close>

definition net_frame :: "'u net \<Rightarrow> addr option list \<times> addr \<times> 'u \<times> (addr \<Rightarrow> int) \<times> (addr \<Rightarrow> nat) \<times> task_msg tqueue list" where
  "net_frame n = (conns n, fresh_conn n, app n, (\<lambda>c. connfd (tcps n c)), (\<lambda>c. conn_loop (tcps n c)), queues n)"

lemma net_frame_put [simp]:
  "net_frame (put_ibuf c p s n) = net_frame n" "net_frame (put_obuf c p s n) = net_frame n"
  "net_frame (upd_loop l f n) = net_frame n"
  by (auto simp: net_frame_def put_ibuf_def put_obuf_def upd_conn_def)

lemma net_frame_app: "net_frame (n\<lparr>app := a\<rparr>) = (conns n, fresh_conn n, a, (\<lambda>c. connfd (tcps n c)), (\<lambda>c. conn_loop (tcps n c)), queues n)"
  by (simp add: net_frame_def)

lemma net_frameD:
  assumes "net_frame n' = net_frame n"
  shows "conns n' = conns n" "fresh_conn n' = fresh_conn n" "app n' = app n"
    "connfd (tcps n' c) = connfd (tcps n c)" "conn_loop (tcps n' c) = conn_loop (tcps n c)" "queues n' = queues n"
  using assms by (auto simp: net_frame_def dest: fun_cong [where x = c])

lemma send_message_frame: "send_message c data i n = Inr (r, n') \<Longrightarrow> net_frame n' = net_frame n"
  unfolding send_message_def by (erule send_framed_frame [rotated 2]) simp_all

lemma clean_conn_frame:
  assumes "clean_conn env c n = Inr n'"
  shows "\<exists>n1. run_hook (conn_close_cb env) c n = Inr n1 \<and>
    0 \<le> connfd (tcps n1 c) \<and> connfd (tcps n1 c) < int (length (conns n1)) \<and>
    conns n' = (conns n1)[nat (connfd (tcps n1 c)) := None] \<and> fresh_conn n' = fresh_conn n1 \<and> app n' = app n1 \<and>
    queues n' = queues n1 \<and> (\<forall>c. connfd (tcps n' c) = connfd (tcps n1 c))"
proof -
  obtain n1 n2 n4 n5 where s: "run_hook (conn_close_cb env) c n = Inr n1" "decrease_conn (connfd (tcps n1 c)) n1 = Inr n2"
      "clean_buf (ibuf_of c) (put_ibuf c)
         (upd_loop (conn_loop (tcps n2 c)) (del_io_event (connfd (tcps n2 c))) n2) = Inr n4"
      "clean_buf (obuf_of c) (put_obuf c) n4 = Inr n5" "n' = close_fd (connfd (tcps n5 c)) n5"
    using assms by (auto simp: clean_conn_def rbind_eq_Inr Let_def)
  have "net_frame n4 = net_frame n2" using clean_buf_frame [of net_frame, OF _ s(3)] by simp
  moreover have "net_frame n5 = net_frame n4" using clean_buf_frame [of net_frame, OF _ s(4)] by simp
  ultimately have f: "net_frame n5 = net_frame n2" by simp
  have "conns n' = conns n5" "fresh_conn n' = fresh_conn n5" "app n' = app n5" "queues n' = queues n5" "tcps n' = tcps n5"
    using s(5) by (simp_all add: close_fd_def)
  with s(1,2) net_frameD [OF f] show ?thesis by (auto simp: decrease_conn_def split: if_splits)
qed

section \<open>The output buffers of several connections\<close>

definition bufs_apart :: "addr set \<Rightarrow> 'u net \<Rightarrow> bool" where
  "bufs_apart C n \<longleftrightarrow> (\<forall>c \<in> C. \<forall>c' \<in> C. c \<noteq> c' \<longrightarrow>
     (\<forall>p \<in> {ibuf_of c n, obuf_of c n}. \<forall>q \<in> {ibuf_of c' n, obuf_of c' n}. p = q \<longrightarrow> p = NULL))"

definition net_outs :: "addr set \<Rightarrow> (addr \<Rightarrow> u8 list) \<Rightarrow> 'u net \<Rightarrow> bool" where
  "net_outs C out n \<longleftrightarrow> (\<forall>c \<in> C. \<exists>d. conn_ok c n d (out c)) \<and> bufs_apart C n"

lemma send_message_conn:
  assumes "conn_ok c n d e" and "send_message c data i n = Inr (0, n')"
  shows "\<exists>p. conn_ok c n' d (e @ encode_msg (i, data)) \<and> ibuf_of c n' = ibuf_of c n \<and> obuf_of c n' = p \<and>
    others_kept (net_pool n) (obuf_of c n) (net_pool n') p \<and>
    (\<forall>c'. c' \<noteq> c \<longrightarrow> ibuf_of c' n' = ibuf_of c' n \<and> obuf_of c' n' = obuf_of c' n)"
proof -
  have h: "ob.holds c n e" "rb_ready (net_pool n) (obuf_of c n)"
    using assms(1) by (auto simp: conn_ok_def ob.holds_def)
  let ?arm = "\<lambda>m. upd_loop (conn_loop (tcps m c)) (add_io_event True (connfd (tcps m c)) conn_wt_callback EPOLLOUT (Some c)) m"
  obtain p s where ps: "n' = (if e = [] then ?arm (put_obuf c p s n) else put_obuf c p s n)" "pool_inv s"
      "rb_holds s p (e @ encode_msg (i, data))" "rb_ready s p" "others_kept (net_pool n) (obuf_of c n) s p"
    using ob.send_framed_ok [OF h assms(2) [unfolded send_message_def]] by blast
  then have "conn_ok c (put_obuf c p s n) d (e @ encode_msg (i, data))"
    using conn_ok_put_obuf [OF assms(1)] by blast
  moreover have "conn_ok c n' d (e @ encode_msg (i, data)) = conn_ok c (put_obuf c p s n) d (e @ encode_msg (i, data))"
    unfolding ps(1) by auto
  ultimately show ?thesis using ps(5) unfolding ps(1)
    by (auto simp: ibuf_of_def obuf_of_def)
qed

lemma conn_ok_other:
  assumes "conn_ok c' n d e" and "others_kept (net_pool n) p (net_pool n') q" and "pool_inv (net_pool n')"
    and "ibuf_of c' n' = ibuf_of c' n" "obuf_of c' n' = obuf_of c' n"
    and "ibuf_of c' n = p \<longrightarrow> p = NULL" "obuf_of c' n = p \<longrightarrow> p = NULL"
  shows "conn_ok c' n' d e"
  using assms rb_holds_other [OF assms(2)] rb_ready_other [OF assms(2)]
  unfolding conn_ok_def by metis

lemma send_message_outs:
  assumes outs: "net_outs C out n" and c: "c \<in> C" and run: "send_message c data i n = Inr (0, n')"
  shows "net_outs C (out(c := out c @ encode_msg (i, data))) n'"
proof -
  obtain d where ok: "conn_ok c n d (out c)" using outs c by (auto simp: net_outs_def)
  obtain p where p: "conn_ok c n' d (out c @ encode_msg (i, data))" "ibuf_of c n' = ibuf_of c n" "obuf_of c n' = p"
      "others_kept (net_pool n) (obuf_of c n) (net_pool n') p"
      "\<And>c'. c' \<noteq> c \<Longrightarrow> ibuf_of c' n' = ibuf_of c' n" "\<And>c'. c' \<noteq> c \<Longrightarrow> obuf_of c' n' = obuf_of c' n"
    using send_message_conn [OF ok run] by blast
  have inv: "pool_inv (net_pool n')" using p(1) by (simp add: conn_ok_def)
  have apart: "\<And>c' q. c' \<in> C \<Longrightarrow> c' \<noteq> c \<Longrightarrow> q = ibuf_of c' n \<or> q = obuf_of c' n \<Longrightarrow> q = obuf_of c n \<Longrightarrow> q = NULL"
    using outs c unfolding net_outs_def bufs_apart_def by blast
  have other: "conn_ok c' n' d' e' " if "c' \<in> C" "c' \<noteq> c" "conn_ok c' n d' e'" for c' d' e'
    using conn_ok_other [OF that(3) p(4) inv p(5) [OF that(2)] p(6) [OF that(2)]] apart [OF that(1,2)] by metis
  have new: "p = q \<Longrightarrow> p = NULL" if q: "q = ibuf_of c' n \<or> q = obuf_of c' n" "c' \<in> C" "c' \<noteq> c" for c' q
  proof -
    obtain d' where "conn_ok c' n d' (out c')" using outs q(2) by (auto simp: net_outs_def)
    then obtain e' where "rb_holds (net_pool n) q e'" using q(1) by (auto simp: conn_ok_def)
    then show "p = q \<Longrightarrow> p = NULL" using kept_apart [OF p(4)] apart [OF q(2,3,1)] by metis
  qed
  have "bufs_apart C n'"
    unfolding bufs_apart_def
  proof (intro ballI impI)
    fix c1 c2 p1 p2
    assume a: "c1 \<in> C" "c2 \<in> C" "c1 \<noteq> c2" "p1 \<in> {ibuf_of c1 n', obuf_of c1 n'}" "p2 \<in> {ibuf_of c2 n', obuf_of c2 n'}" "p1 = p2"
    have old: "\<And>c1 c2. c1 \<in> C \<Longrightarrow> c2 \<in> C \<Longrightarrow> c1 \<noteq> c2 \<Longrightarrow>
        \<forall>p \<in> {ibuf_of c1 n, obuf_of c1 n}. \<forall>q \<in> {ibuf_of c2 n, obuf_of c2 n}. p = q \<longrightarrow> p = NULL"
      using outs by (auto simp: net_outs_def bufs_apart_def)
    show "p1 = NULL"
    proof (cases "c1 = c")
      case True
      then have c2: "c2 \<noteq> c" using a(3) by simp
      then have q: "p2 = ibuf_of c2 n \<or> p2 = obuf_of c2 n" using a(5) p(5,6) by auto
      from True a(4) p(2,3) have "p1 = ibuf_of c n \<or> p1 = p" by auto
      then show ?thesis
        using new [OF q a(2) c2] a(6) old [OF a(1,2,3)] True q by auto
    next
      case False
      then have q: "p1 = ibuf_of c1 n \<or> p1 = obuf_of c1 n" using a(4) p(5,6) by auto
      show ?thesis
      proof (cases "c2 = c")
        case True
        then have "p2 = ibuf_of c n \<or> p2 = p" using a(5) p(2,3) by auto
        then show ?thesis using new [OF q a(1) False] a(6) old [OF a(1,2,3)] True q by auto
      next
        case c2: False
        then have "p2 = ibuf_of c2 n \<or> p2 = obuf_of c2 n" using a(5) p(5,6) by auto
        then show ?thesis using a(6) old [OF a(1,2,3)] q by auto
      qed
    qed
  qed
  moreover have "\<exists>d. conn_ok c' n' d ((out(c := out c @ encode_msg (i, data))) c')" if "c' \<in> C" for c'
  proof (cases "c' = c")
    case False
    obtain d' where "conn_ok c' n d' (out c')" using outs \<open>c' \<in> C\<close> by (auto simp: net_outs_def)
    with other [OF \<open>c' \<in> C\<close> False this] False show ?thesis by auto
  qed (use p(1) in auto)
  ultimately show ?thesis by (simp add: net_outs_def)
qed

lemma net_outs_app [simp]: "net_outs C out (n\<lparr>app := a\<rparr>) = net_outs C out n"
  by (simp add: net_outs_def bufs_apart_def conn_ok_def ibuf_of_def obuf_of_def)

text \<open>When there is room for it in the connection's buffer, the message is sent.\<close>

definition out_room :: "addr \<Rightarrow> int \<Rightarrow> 'u net \<Rightarrow> bool" where
  "out_room c k n \<longleftrightarrow> (\<exists>a b. obuf_of c n = Ptr a \<and> bufs (net_pool n) a = Some b \<and> buf_len b + k \<le> capacity b)"

lemma send_data_room:
  assumes "pool_inv s" "rb_holds s (Ptr a) d" "rb_ready s (Ptr a)" "bufs s a = Some b"
    and "buf_len b + int (length data) \<le> capacity b"
  shows "\<exists>s' b'. send_data data (Ptr a) s = Inr (0, Ptr a, s') \<and> bufs s' a = Some b' \<and> capacity b' = capacity b \<and>
    buf_len b' = buf_len b + int (length data)"
proof -
  have h: "buf_head b = 0" "pool.held s a b" using assms(2-4) by (auto simp: rb_ready_def rb_holds_Ptr held_bufs)
  have r: "reserve (int (length data)) (Ptr a) s = Inr (True, Ptr a, s)"
    using assms(4,5) h(1) by (simp add: reserve_def reserve_with_def)
  obtain b1 where b1: "buf_write b (buf_len b) data = Inr b1"
    using append_held [OF assms(1) h(2,1) assms(5)] by blast
  have "capacity b1 = capacity b" using b1 by (auto simp: buf_write_def split: if_splits)
  then show ?thesis using r b1 assms(4) by (simp add: send_data_def deref_Ptr put_def set_buf_def)
qed

lemma send_data_small:
  assumes "pool_inv s" "rb_holds s (Ptr a) d" "rb_ready s (Ptr a)" and "length d + length data \<le> 4096"
  shows "\<exists>s'. send_data data (Ptr a) s = Inr (0, Ptr a, s')"
proof -
  obtain b where b: "bufs s a = Some b" "content b = d" "\<not> is_free s a" using assms(2) by (auto simp: rb_holds_Ptr)
  then have "wf_buf b" "capacity b \<in> set mem_caps" using pool_inv_buf [OF assms(1)] by (auto simp: held_bufs)
  then have "buf_len b = int (length d)" "4096 \<le> capacity b" using b(2) by (auto simp: wf_buf_def mem_caps_def)
  then show ?thesis using send_data_room [OF assms(1-3) b(1), of data] assms(4) by auto
qed

text \<open>The first data of a connection that has no buffer yet.\<close>

lemma send_data_first:
  assumes "pool_inv s" and "reserve (int (length data)) NULL s = Inr (True, q, s1)"
  shows "\<exists>s'. send_data data NULL s = Inr (0, q, s')"
proof -
  obtain a b where b: "q = Ptr a" "pool.held s1 a b" "pool_inv s1" "buf_head b = 0" "buf_len b + int (length data) \<le> capacity b"
    using reserve_ok [OF assms(1) _ _ assms(2), of "[]"] by auto
  then have "bufs s1 a = Some b" by (simp add: held_bufs)
  moreover obtain b1 where "buf_write b (buf_len b) data = Inr b1"
    using append_held [OF b(3,2,4,5)] by blast
  ultimately show ?thesis using assms(2) b(1) by (simp add: send_data_def deref_Ptr)
qed

lemma send_message_room:
  assumes ok: "conn_ok c n d e" and room: "out_room c k n" and fits: "8 + int (length data) \<le> k"
  shows "\<exists>n'. send_message c data i n = Inr (0, n') \<and> out_room c (k - 8 - int (length data)) n'"
proof -
  let ?h = "encode_head \<lparr>msgid = i, msglen = int (length data)\<rparr>"
  obtain a b where ab: "obuf_of c n = Ptr a" "bufs (net_pool n) a = Some b" "buf_len b + k \<le> capacity b"
    using room by (auto simp: out_room_def)
  have o: "pool_inv (net_pool n)" "rb_holds (net_pool n) (Ptr a) e" "rb_ready (net_pool n) (Ptr a)"
    using ok ab(1) by (auto simp: conn_ok_def)
  obtain s1 b1 where s1: "send_data ?h (Ptr a) (net_pool n) = Inr (0, Ptr a, s1)" "bufs s1 a = Some b1"
      "capacity b1 = capacity b" "buf_len b1 = buf_len b + 8"
    using send_data_room [OF o ab(2), of ?h] ab(3) fits by auto
  have o1: "pool_inv s1" "rb_holds s1 (Ptr a) (e @ ?h)" "rb_ready s1 (Ptr a)"
    using send_data_ok [OF o s1(1)] by simp_all
  obtain s2 b2 where s2: "send_data data (Ptr a) s1 = Inr (0, Ptr a, s2)" "bufs s2 a = Some b2"
      "capacity b2 = capacity b1" "buf_len b2 = buf_len b1 + int (length data)"
    using send_data_room [OF o1 s1(2), of data] s1(3,4) ab(3) fits by auto
  let ?w = "put_obuf c (Ptr a) s2 n"
  have "\<exists>n'. send_message c data i n = Inr (0, n') \<and> net_pool n' = s2 \<and> obuf_of c n' = Ptr a"
    using ob.holds_length [of c n e] o ab(1) s1(1) s2(1)
    by (simp add: send_message_def send_framed_def ob.holds_def Let_def) (simp add: obuf_of_def)
  then show ?thesis using s1(3,4) s2(2-4) ab(3) by (auto simp: out_room_def)
qed

end
