(* ===== verification/Dns_Subscribe.thy ===== *)
theory Dns_Subscribe
  imports Dns_Route Conn_Outputs
begin

text \<open>
  Subscriptions (\<open>lars_dns/src/subcribe.cpp\<close>) and the request handler of the DNS service
  (\<open>src/dns_service.cpp\<close>), on top of the reactor's server: agents subscribe to the modules they ask for,
  and when the routes of a module change every subscriber is sent them. The encoding of the two protobuf
  messages is a parameter. Each task and callback runs in a thread of the pool; \<open>make_publish_map\<close> is
  atomic under the lock, the sending that follows is not.
\<close>

record get_route_response =
  rsp_modid :: i32
  rsp_cmdid :: i32
  rsp_hosts :: "(u32 \<times> i32) list"   \<comment> \<open>ip and port\<close>

record dns_proto =
  parse_request :: "u8 list option \<Rightarrow> int \<Rightarrow> i32 \<times> i32"   \<comment> \<open>\<open>modid\<close>, \<open>cmdid\<close>\<close>
  response_bytes :: "get_route_response \<Rightarrow> u8 list"
  ID_GetRouteRequest :: int
  ID_GetRouteResponse :: int

text \<open>\<open>conn->param\<close> is \<open>sub_lists c\<close>, \<open>None\<close> for \<open>NULL\<close>.\<close>

record dns_app =
  the_route :: route
  book_list :: "u64 \<Rightarrow> int list option"
  push_list :: "(int \<times> u64 list) list"
  sub_lists :: "addr \<Rightarrow> u64 list option"

type_synonym dns = "dns_app net"

definition upd_app :: "('u \<Rightarrow> 'u) \<Rightarrow> 'u net \<Rightarrow> 'u net" where
  "upd_app f n = n\<lparr>app := f (app n)\<rparr>"

lemma upd_app_simps [simp]:
  "app (upd_app f n) = f (app n)" "conns (upd_app f n) = conns n" "tcps (upd_app f n) = tcps n"
  "fresh_conn (upd_app f n) = fresh_conn n" "loops (upd_app f n) = loops n" "net_pool (upd_app f n) = net_pool n"
  "queues (upd_app f n) = queues n"
  by (simp_all add: upd_app_def)

section \<open>\<open>SubcribeList\<close>\<close>

definition subcribe :: "u64 \<Rightarrow> int \<Rightarrow> dns_app \<Rightarrow> dns_app" where
  "subcribe m fd d = d\<lparr>book_list := map_set_insert m fd (book_list d)\<rparr>"

definition unsubcribe :: "u64 \<Rightarrow> int \<Rightarrow> dns_app \<Rightarrow> dns_app" where
  "unsubcribe m fd d =
     (case book_list d m of
        None \<Rightarrow> d
      | Some fds \<Rightarrow>
          (let fds' = set_erase fd fds
           in d\<lparr>book_list := (if fds' = [] then (book_list d)(m := None) else (book_list d)(m \<mapsto> fds'))\<rparr>))"

definition make_publish_map :: "int set \<Rightarrow> (int \<times> u64 list) list \<Rightarrow> (int \<times> u64 list) list" where
  "make_publish_map online_fds pl =
     map (\<lambda>(fd, mods). (fd, fold set_insert mods [])) (filter (\<lambda>(fd, mods). fd \<in> online_fds \<and> mods \<noteq> []) pl)"

definition push_insert :: "int \<Rightarrow> u64 \<Rightarrow> (int \<times> u64 list) list \<Rightarrow> (int \<times> u64 list) list" where
  "push_insert fd m pl = AList.update fd (set_insert m (case map_of pl fd of None \<Rightarrow> [] | Some ms \<Rightarrow> ms)) pl"

definition mark_changed :: "u64 \<Rightarrow> dns_app \<Rightarrow> dns_app" where
  "mark_changed m d =
     (case book_list d m of
        None \<Rightarrow> d
      | Some fds \<Rightarrow> d\<lparr>push_list := fold (\<lambda>fd. push_insert fd m) fds (push_list d)\<rparr>)"

text \<open>\<open>publish\<close>, and the task it sends to every thread, number \<open>0\<close> with \<open>this\<close>.\<close>

definition push_change_task_id :: nat where "push_change_task_id = 0"

definition publish :: "u64 list \<Rightarrow> dns \<Rightarrow> dns res" where
  "publish change_mods n =
     (let n1 = upd_app (fold mark_changed change_mods) n
      in if queues n1 = [] then Inl NullDeref else send_task push_change_task_id (Some 0) n1)"

text \<open>The body of the task: the answer for one module of one descriptor, and the loops over both.\<close>

definition make_response :: "i32 \<Rightarrow> i32 \<Rightarrow> route \<Rightarrow> get_route_response" where
  "make_response modid cmdid r =
     \<lparr>rsp_modid = modid, rsp_cmdid = cmdid,
      rsp_hosts = map (\<lambda>ip_port. (key_hi ip_port, key_lo ip_port)) (get_hosts modid cmdid r)\<rparr>"

definition push_one :: "dns_proto \<Rightarrow> int \<Rightarrow> u64 \<Rightarrow> dns \<Rightarrow> dns res" where
  "push_one pb fd m n =
     (let rsp = make_response (key_hi m) (key_lo m) (the_route (app n))
      in if fd < 0 \<or> int (length (conns n)) \<le> fd then Inl OutOfBounds
         else rbind (case conns n ! nat fd of
                       None \<Rightarrow> Inr n
                     | Some c \<Rightarrow>
                         rbind (send_message c (response_bytes pb rsp) (ID_GetRouteResponse pb) n) (\<lambda>(_, n1). Inr n1))
                (\<lambda>n1. Inr (upd_app (\<lambda>d. d\<lparr>push_list := AList.delete fd (push_list d)\<rparr>) n1)))"

fun push_mods :: "dns_proto \<Rightarrow> int \<Rightarrow> u64 list \<Rightarrow> dns \<Rightarrow> dns res" where
  "push_mods pb fd [] n = Inr n"
| "push_mods pb fd (m # ms) n = rbind (push_one pb fd m n) (push_mods pb fd ms)"

fun push_all :: "dns_proto \<Rightarrow> (int \<times> u64 list) list \<Rightarrow> dns \<Rightarrow> dns res" where
  "push_all pb [] n = Inr n"
| "push_all pb ((fd, ms) # need) n = rbind (push_mods pb fd ms n) (push_all pb need)"

definition push_change_task :: "dns_proto \<Rightarrow> nat \<Rightarrow> dns \<Rightarrow> dns res" where
  "push_change_task pb l n = push_all pb (make_publish_map (listen_fds (loops n l)) (push_list (app n))) n"

section \<open>The service\<close>

definition get_route :: "dns_proto \<Rightarrow> u8 list option \<Rightarrow> int \<Rightarrow> addr \<Rightarrow> dns \<Rightarrow> dns res" where
  "get_route pb data len c n =
     (let (modid, cmdid) = parse_request pb data len;
          m = mk_key modid cmdid;
          n1 = (case sub_lists (app n) c of
                  None \<Rightarrow> n
                | Some sub_list \<Rightarrow>
                    if m \<in> set sub_list then n
                    else upd_app (\<lambda>d. subcribe m (connfd (tcps n c))
                           (d\<lparr>sub_lists := (sub_lists d)(c \<mapsto> set_insert m sub_list)\<rparr>)) n);
          rsp = make_response modid cmdid (the_route (app n1))
      in rbind (send_message c (response_bytes pb rsp) (ID_GetRouteResponse pb) n1) (\<lambda>(_, n2). Inr n2))"

definition create_subscribe :: "addr \<Rightarrow> dns \<Rightarrow> dns res" where
  "create_subscribe c n = Inr (upd_app (\<lambda>d. d\<lparr>sub_lists := (sub_lists d)(c \<mapsto> [])\<rparr>) n)"

definition clear_subscribe :: "addr \<Rightarrow> dns \<Rightarrow> dns res" where
  "clear_subscribe c n =
     (case sub_lists (app n) c of
        None \<Rightarrow> Inl NullDeref
      | Some sub_list \<Rightarrow>
          Inr (upd_app (\<lambda>d. (fold (\<lambda>m. unsubcribe m (connfd (tcps n c))) sub_list d)
                 \<lparr>sub_lists := (sub_lists d)(c := None)\<rparr>) n))"

text \<open>What \<open>main\<close> registers at the server.\<close>

definition dns_env :: "dns_proto \<Rightarrow> dns_app srv_env" where
  "dns_env pb = \<lparr>conn_start_cb = Some create_subscribe, conn_close_cb = Some clear_subscribe,
     srv_router = snd (register_msg_router (ID_GetRouteRequest pb) 0 0 msg_router_new),
     run_msg_cb = (\<lambda>cb data len i c a n. get_route pb data len c n)\<rparr>"

section \<open>Who is subscribed\<close>

definition subscribers :: "dns_app \<Rightarrow> u64 \<Rightarrow> int set" where
  "subscribers d m = set (case book_list d m of None \<Rightarrow> [] | Some fds \<Rightarrow> fds)"

definition book_ok :: "dns_app \<Rightarrow> bool" where
  "book_ok d \<longleftrightarrow> (\<forall>m fds. book_list d m = Some fds \<longrightarrow> fds \<noteq> [] \<and> distinct fds)"

lemma subscribers_subcribe [simp]:
  "subscribers (subcribe m fd d) m' = (if m' = m then insert fd (subscribers d m') else subscribers d m')"
  by (auto simp: subscribers_def subcribe_def map_set_insert_def split: option.splits)

lemma book_ok_subcribe: "book_ok d \<Longrightarrow> book_ok (subcribe m fd d)"
  by (auto simp: book_ok_def subcribe_def map_set_insert_def set_insert_def split: option.splits if_splits)

lemma subscribers_unsubcribe [simp]:
  "subscribers (unsubcribe m fd d) m' = (if m' = m then subscribers d m' - {fd} else subscribers d m')"
proof (cases "book_list d m")
  case (Some fds)
  have "set (set_erase fd fds) = set fds - {fd}" by simp
  with Some show ?thesis by (cases "set_erase fd fds = []") (auto simp: subscribers_def unsubcribe_def Let_def)
qed (auto simp: subscribers_def unsubcribe_def)

lemma book_ok_unsubcribe: "book_ok d \<Longrightarrow> book_ok (unsubcribe m fd d)"
  by (auto simp: book_ok_def unsubcribe_def Let_def split: option.splits if_splits)

lemma unsubcribe_keeps [simp]:
  "sub_lists (unsubcribe m fd d) = sub_lists d" "push_list (unsubcribe m fd d) = push_list d"
  by (simp_all add: unsubcribe_def Let_def split: option.splits)

lemma subcribe_keeps [simp]:
  "sub_lists (subcribe m fd d) = sub_lists d" "push_list (subcribe m fd d) = push_list d"
  "the_route (subcribe m fd d) = the_route d"
  by (simp_all add: subcribe_def)

lemma fold_unsubcribe:
  "subscribers (fold (\<lambda>m. unsubcribe m fd) ms d) m' =
     (if m' \<in> set ms then subscribers d m' - {fd} else subscribers d m') \<and>
   sub_lists (fold (\<lambda>m. unsubcribe m fd) ms d) = sub_lists d \<and>
   push_list (fold (\<lambda>m. unsubcribe m fd) ms d) = push_list d"
  by (induction ms arbitrary: d) auto

lemma fold_unsubcribe_ok: "book_ok d \<Longrightarrow> book_ok (fold (\<lambda>m. unsubcribe m fd) ms d)"
  by (induction ms arbitrary: d) (simp_all add: book_ok_unsubcribe)

lemma subscribers_cong: "book_list d' = book_list d \<Longrightarrow> subscribers d' = subscribers d"
  by (simp add: subscribers_def fun_eq_iff)

lemma book_ok_cong: "book_list d' = book_list d \<Longrightarrow> book_ok d' = book_ok d"
  by (simp add: book_ok_def)

lemma mark_changed_keeps [simp]:
  "book_list (mark_changed m d) = book_list d" "sub_lists (mark_changed m d) = sub_lists d"
  "the_route (mark_changed m d) = the_route d"
  by (simp_all add: mark_changed_def split: option.splits)

lemma fold_mark_changed_keeps [simp]:
  "book_list (fold mark_changed ms d) = book_list d" "sub_lists (fold mark_changed ms d) = sub_lists d"
  "the_route (fold mark_changed ms d) = the_route d"
  by (induction ms arbitrary: d) simp_all

text \<open>
  The invariant: every connection in the table knows its descriptor and has a list of the modules it is
  subscribed to, and the subscription book says exactly the same.
\<close>

definition sub_inv :: "dns \<Rightarrow> bool" where
  "sub_inv n \<longleftrightarrow>
     (\<forall>fd c. conn_of fd n = Some c \<longrightarrow>
        connfd (tcps n c) = fd \<and> c < fresh_conn n \<and> sub_lists (app n) c \<noteq> None) \<and>
     (\<forall>m fd. fd \<in> subscribers (app n) m \<longleftrightarrow>
        (\<exists>c l. conn_of fd n = Some c \<and> sub_lists (app n) c = Some l \<and> m \<in> set l)) \<and>
     book_ok (app n)"

lemma sub_invD:
  assumes "sub_inv n"
  shows "conn_of fd n = Some c \<Longrightarrow> connfd (tcps n c) = fd"
    and "conn_of fd n = Some c \<Longrightarrow> c < fresh_conn n"
    and "conn_of fd n = Some c \<Longrightarrow> \<exists>l. sub_lists (app n) c = Some l"
    and "fd \<in> subscribers (app n) m \<longleftrightarrow>
        (\<exists>c l. conn_of fd n = Some c \<and> sub_lists (app n) c = Some l \<and> m \<in> set l)"
    and "book_ok (app n)"
  using assms unfolding sub_inv_def by blast+

text \<open>Operations that leave the table of connections and the two sides of the subscriptions alone.\<close>

lemma sub_inv_cong:
  assumes "sub_inv n" and "conns n' = conns n" and "fresh_conn n' = fresh_conn n"
    and "\<And>c. connfd (tcps n' c) = connfd (tcps n c)"
    and "book_list (app n') = book_list (app n)" and "sub_lists (app n') = sub_lists (app n)"
  shows "sub_inv n'"
proof -
  have "conn_of fd n' = conn_of fd n" for fd by (simp add: conn_of_def assms(2))
  with assms(1) show ?thesis
    unfolding sub_inv_def assms(3-6) subscribers_cong [OF assms(5)] book_ok_cong [OF assms(5)] by simp
qed

lemma sub_inv_frame: "sub_inv n \<Longrightarrow> net_frame n' = net_frame n \<Longrightarrow> sub_inv n'"
  using net_frameD [of n' n] by (intro sub_inv_cong [of n n']) auto

lemma send_task_keeps:
  assumes "send_task f a n = Inr n'"
  shows "conns n' = conns n \<and> fresh_conn n' = fresh_conn n \<and> tcps n' = tcps n \<and> app n' = app n \<and> loops n' = loops n \<and>
    net_pool n' = net_pool n"
proof -
  have "fold (\<lambda>i m. rbind m (send_to (NEW_TASK f a) i)) is m0 = Inr n' \<Longrightarrow>
      (\<exists>n0. m0 = Inr n0 \<and> conns n' = conns n0 \<and> fresh_conn n' = fresh_conn n0 \<and> tcps n' = tcps n0 \<and>
        app n' = app n0 \<and> loops n' = loops n0 \<and> net_pool n' = net_pool n0)" for "is" m0
  proof (induction "is" arbitrary: m0)
    case (Cons i "is")
    then obtain n0 where "rbind m0 (send_to (NEW_TASK f a) i) = Inr n0" "conns n' = conns n0"
        "fresh_conn n' = fresh_conn n0" "tcps n' = tcps n0" "app n' = app n0" "loops n' = loops n0" "net_pool n' = net_pool n0"
      by fastforce
    then show ?case by (auto simp: rbind_eq_Inr send_to_def)
  qed simp
  from this [OF assms [unfolded send_task_def]] show ?thesis by simp
qed

text \<open>Every operation keeps the invariant.\<close>

lemma sub_inv_create:
  assumes inv: "sub_inv n" and run: "tcp_conn_new (dns_env pb) fd l n = Inr (c, n')" and free: "conn_of fd n = None"
  shows "sub_inv n' \<and> conn_of fd n' = Some c \<and> sub_lists (app n') c = Some [] \<and> push_list (app n') = push_list (app n)"
proof -
  let ?c = "fresh_conn n"
  have n': "c = ?c" "0 \<le> fd" "fd < int (length (conns n))" "conns n' = (conns n)[nat fd := Some ?c]" "fresh_conn n' = Suc ?c"
      "app n' = (app n)\<lparr>sub_lists := (sub_lists (app n))(?c \<mapsto> [])\<rparr>"
      "\<And>x. connfd (tcps n' x) = (if x = ?c then fd else connfd (tcps n x))"
    using run by (auto simp: tcp_conn_new_def dns_env_def run_hook_def create_subscribe_def rbind_eq_Inr Let_def
        increase_conn_def split: if_splits)
  have co: "conn_of x n' = (if x = fd then Some ?c else conn_of x n)" for x
    using n'(2-4) by (auto simp: conn_of_def nth_list_update)
  have sub: "subscribers (app n') = subscribers (app n)" "book_ok (app n') = book_ok (app n)"
    by (simp_all add: n'(6) subscribers_def book_ok_def fun_eq_iff)
  have old: "conn_of x n = Some y \<Longrightarrow> y \<noteq> ?c" for x y using sub_invD(2) [OF inv] by fastforce
  have fd: "fd \<notin> subscribers (app n) m" for m using sub_invD(4) [OF inv] free by auto
  have "sub_inv n'"
    unfolding sub_inv_def sub co n'(5,7)
  proof (intro conjI allI)
    fix m x
    show "x \<in> subscribers (app n) m \<longleftrightarrow>
        (\<exists>c' l. (if x = fd then Some ?c else conn_of x n) = Some c' \<and> sub_lists (app n') c' = Some l \<and> m \<in> set l)"
      using sub_invD(4) [OF inv, of x m] old [of x] fd [of m] by (cases "x = fd") (auto simp: n'(6))
  qed (use sub_invD(1,2,3,5) [OF inv] old in \<open>auto simp: n'(6) less_Suc_eq split: if_splits\<close>)
  then show ?thesis using co n'(1) by (simp add: n'(6))
qed

lemma sub_inv_close:
  assumes inv: "sub_inv n" and c: "conn_of fd n = Some c" and run: "clean_conn (dns_env pb) c n = Inr n'"
  shows "sub_inv n' \<and> conn_of fd n' = None \<and> push_list (app n') = push_list (app n)"
proof -
  obtain ms where ms: "sub_lists (app n) c = Some ms" using sub_invD(3) [OF inv c] by blast
  have fd: "connfd (tcps n c) = fd" using sub_invD(1) [OF inv c] .
  let ?d = "(fold (\<lambda>m. unsubcribe m fd) ms (app n))\<lparr>sub_lists := (sub_lists (app n))(c := None)\<rparr>"
  have "run_hook (conn_close_cb (dns_env pb)) c n = Inr (n\<lparr>app := ?d\<rparr>)"
    using ms fd by (simp add: dns_env_def run_hook_def clear_subscribe_def upd_app_def)
  then have n': "0 \<le> fd" "fd < int (length (conns n))" "conns n' = (conns n)[nat fd := None]" "fresh_conn n' = fresh_conn n"
      "app n' = ?d" "\<And>x. connfd (tcps n' x) = connfd (tcps n x)"
    using clean_conn_frame [OF run] fd by auto
  have co: "conn_of x n' = (if x = fd then None else conn_of x n)" for x
    using n'(1-3) by (auto simp: conn_of_def nth_list_update)
  have sub: "subscribers (app n') m = (if m \<in> set ms then subscribers (app n) m - {fd} else subscribers (app n) m)" for m
    using fold_unsubcribe [of fd ms "app n" m] by (simp add: n'(5) subscribers_def)
  have bk: "book_ok (app n')" using fold_unsubcribe_ok [OF sub_invD(5) [OF inv]] by (simp add: n'(5) book_ok_def)
  have sl: "sub_lists (app n') x = (if x = c then None else sub_lists (app n) x)" for x by (simp add: n'(5))
  have other: "conn_of x n = Some c \<Longrightarrow> x = fd" for x using sub_invD(1) [OF inv] fd by blast
  have "sub_inv n'"
    unfolding sub_inv_def sub co n'(4,6) sl
  proof (intro conjI allI)
    fix m x
    show "x \<in> (if m \<in> set ms then subscribers (app n) m - {fd} else subscribers (app n) m) \<longleftrightarrow>
        (\<exists>c' l. (if x = fd then None else conn_of x n) = Some c' \<and> (if c' = c then None else sub_lists (app n) c') = Some l \<and> m \<in> set l)"
    proof (cases "x = fd")
      case False
      then have "conn_of x n \<noteq> Some c" using other by blast
      with False show ?thesis using sub_invD(4) [OF inv, of x m] by (cases "conn_of x n") auto
    qed (use sub_invD(4) [OF inv, of fd m] ms c in simp)
  qed (use sub_invD(1,2,3) [OF inv] other bk in \<open>auto split: if_splits\<close>)
  then show ?thesis using co by (simp add: n'(5) fold_unsubcribe)
qed

lemma sub_inv_request:
  assumes inv: "sub_inv n" and c: "conn_of fd n = Some c" and run: "get_route pb data len c n = Inr n'"
  shows "sub_inv n' \<and> push_list (app n') = push_list (app n) \<and>
    fd \<in> subscribers (app n') (case parse_request pb data len of (m, cm) \<Rightarrow> mk_key m cm)"
proof -
  obtain ms where ms: "sub_lists (app n) c = Some ms" using sub_invD(3) [OF inv c] by blast
  have fd: "connfd (tcps n c) = fd" using sub_invD(1) [OF inv c] .
  obtain modid cmdid where req: "parse_request pb data len = (modid, cmdid)" by (cases "parse_request pb data len")
  let ?m = "mk_key modid cmdid"
  let ?n1 = "if ?m \<in> set ms then n
    else upd_app (\<lambda>d. subcribe ?m fd (d\<lparr>sub_lists := (sub_lists d)(c \<mapsto> set_insert ?m ms)\<rparr>)) n"
  obtain r where "send_message c (response_bytes pb (make_response modid cmdid (the_route (app ?n1)))) (ID_GetRouteResponse pb) ?n1
      = Inr (r, n')"
    using run ms fd req by (auto simp: get_route_def rbind_eq_Inr Let_def)
  then have fr: "net_frame n' = net_frame ?n1" by (rule send_message_frame)
  have "sub_inv ?n1"
  proof (cases "?m \<in> set ms")
    case False
    let ?d = "subcribe ?m fd ((app n)\<lparr>sub_lists := (sub_lists (app n))(c \<mapsto> set_insert ?m ms)\<rparr>)"
    let ?n2 = "n\<lparr>app := ?d\<rparr>"
    have n1: "?n1 = ?n2" using False by (simp add: upd_app_def)
    have co: "conn_of x ?n2 = conn_of x n" for x by (simp add: conn_of_def)
    have sub: "subscribers ?d m = (if m = ?m then insert fd (subscribers (app n) m) else subscribers (app n) m)" for m
      by (simp add: subscribers_cong [of "(app n)\<lparr>sub_lists := _\<rparr>" "app n"])
    have bk: "book_ok ?d"
      by (rule book_ok_subcribe) (simp add: book_ok_cong [of _ "app n"] sub_invD(5) [OF inv])
    have sl: "sub_lists ?d x = (if x = c then Some (set_insert ?m ms) else sub_lists (app n) x)" for x by simp
    have other: "conn_of x n = Some c \<Longrightarrow> x = fd" for x using sub_invD(1) [OF inv] fd by blast
    have a: "app ?n2 = ?d" "fresh_conn ?n2 = fresh_conn n" "tcps ?n2 = tcps n" by simp_all
    show ?thesis
      unfolding n1 sub_inv_def co a sub sl
    proof (intro conjI allI)
      fix m x
      show "x \<in> (if m = ?m then insert fd (subscribers (app n) m) else subscribers (app n) m) \<longleftrightarrow>
          (\<exists>c' l. conn_of x n = Some c' \<and>
             (if c' = c then Some (set_insert ?m ms) else sub_lists (app n) c') = Some l \<and> m \<in> set l)"
      proof (cases "x = fd")
        case False
        then have "conn_of x n \<noteq> Some c" using other by blast
        with False show ?thesis using sub_invD(4) [OF inv, of x m] by (cases "conn_of x n") auto
      qed (use sub_invD(4) [OF inv, of fd m] ms c in simp)
    qed (use sub_invD(1,2,3) [OF inv] bk in auto)
  qed (use inv in simp)
  moreover have "fd \<in> subscribers (app ?n1) ?m"
    using sub_invD(4) [OF inv, of fd ?m] c ms by simp
  ultimately show ?thesis
    using sub_inv_frame [OF _ fr] net_frameD(3) [OF fr] req by simp
qed

lemma create_listens:
  assumes "tcp_conn_new (dns_env pb) fd l n = Inr (c, n')" and "loop_inv (loops n l)"
  shows "fd \<in> listen_fds (loops n' l)"
proof -
  have "loops n' l = add_io_event True fd conn_rd_callback EPOLLIN (Some c) (loops n l)"
    using assms(1) by (auto simp: tcp_conn_new_def dns_env_def run_hook_def create_subscribe_def rbind_eq_Inr Let_def
        increase_conn_def split: if_splits)
  then show ?thesis using assms(2) by (auto simp: add_io_event_def epoll_ctl_def Let_def loop_inv_def split: option.splits)
qed

section \<open>Pushing the changes\<close>

text \<open>What a run of \<open>push_all\<close> sends: connections and messages, in order.\<close>

definition route_msg :: "dns_proto \<Rightarrow> route \<Rightarrow> u64 \<Rightarrow> msg" where
  "route_msg pb r m = (ID_GetRouteResponse pb, response_bytes pb (make_response (key_hi m) (key_lo m) r))"

definition push_plan :: "dns_proto \<Rightarrow> (int \<times> u64) list \<Rightarrow> dns \<Rightarrow> (addr \<times> msg) list" where
  "push_plan pb ps n =
     concat (map (\<lambda>(fd, m). case conn_of fd n of None \<Rightarrow> [] | Some c \<Rightarrow> [(c, route_msg pb (the_route (app n)) m)]) ps)"

fun push_pairs :: "dns_proto \<Rightarrow> (int \<times> u64) list \<Rightarrow> dns \<Rightarrow> dns res" where
  "push_pairs pb [] n = Inr n"
| "push_pairs pb ((fd, m) # ps) n = rbind (push_one pb fd m n) (push_pairs pb ps)"

definition pairs_of :: "('a \<times> 'b list) list \<Rightarrow> ('a \<times> 'b) list" where
  "pairs_of need = concat (map (\<lambda>(fd, ms). map (Pair fd) ms) need)"

lemma pairs_of_Cons [simp]: "pairs_of ((fd, ms) # need) = map (Pair fd) ms @ pairs_of need"
  by (simp add: pairs_of_def)

lemma pairs_of_Nil [simp]: "pairs_of [] = []"
  by (simp add: pairs_of_def)

lemma pairs_of_mem: "(fd, m) \<in> set (pairs_of need) \<longleftrightarrow> (\<exists>ms. (fd, ms) \<in> set need \<and> m \<in> set ms)"
  by (auto simp: pairs_of_def)

lemma fst_pairs_of: "\<forall>(fd, ms) \<in> set need. ms \<noteq> [] \<Longrightarrow> fst ` set (pairs_of need) = fst ` set need"
proof (induction need)
  case (Cons x need)
  obtain fd ms where x: "x = (fd, ms)" "ms \<noteq> []" using Cons.prems by (cases x) auto
  then have "fst ` Pair fd ` set ms = {fd}" by (cases ms) auto
  with Cons x show ?case by (simp add: image_Un)
qed simp

lemma push_pairs_append: "push_pairs pb (ps @ qs) n = rbind (push_pairs pb ps n) (push_pairs pb qs)"
  by (induction pb ps n rule: push_pairs.induct) (auto simp: rbind_assoc intro!: rbind_cong)

lemma push_all_pairs: "push_all pb need n = push_pairs pb (pairs_of need) n"
proof -
  have "push_mods pb fd ms n = push_pairs pb (map (Pair fd) ms) n" for fd ms n
    by (induction ms arbitrary: n) (auto intro!: rbind_cong)
  then show ?thesis
    by (induction pb need n rule: push_all.induct) (auto simp: pairs_of_def push_pairs_append intro!: rbind_cong)
qed

text \<open>Every message of a plan is accepted by \<open>send_message\<close>, sent one after the other.\<close>

fun sends_ok :: "(addr \<times> msg) list \<Rightarrow> 'u net \<Rightarrow> bool" where
  "sends_ok [] n \<longleftrightarrow> True"
| "sends_ok ((c, i, data) # ms) n \<longleftrightarrow>
     (case send_message c data i n of Inr (r, n') \<Rightarrow> r = 0 \<and> sends_ok ms n' | Inl _ \<Rightarrow> False)"

definition add_outs :: "(addr \<times> msg) list \<Rightarrow> (addr \<Rightarrow> u8 list) \<Rightarrow> addr \<Rightarrow> u8 list" where
  "add_outs ms out c = out c @ concat (map (encode_msg \<circ> snd) (filter (\<lambda>x. fst x = c) ms))"

lemma add_outs_Nil [simp]: "add_outs [] out = out"
  by (simp add: add_outs_def fun_eq_iff)

lemma add_outs_Cons: "add_outs ((c, m) # ms) out = add_outs ms (out(c := out c @ encode_msg m))"
  by (auto simp: add_outs_def fun_eq_iff)

text \<open>Sending does not look at the application's state.\<close>

lemma send_message_app:
  "send_message c data i (upd_app f n) = map_sum id (map_prod id (upd_app f)) (send_message c data i n)"
  unfolding send_message_def
  by (rule send_framed_natural) (simp_all add: obuf_of_def put_obuf_def upd_app_def upd_conn_def upd_loop_def)

lemma sends_ok_app: "sends_ok ms (upd_app f n) = sends_ok ms n"
  by (induction ms n arbitrary: f rule: sends_ok.induct)
    (auto simp: send_message_app split: sum.split prod.split)

lemma net_outs_upd_app [simp]: "net_outs C out (upd_app f n) = net_outs C out n"
  by (simp add: upd_app_def)

lemma conn_of_cong: "conns n' = conns n \<Longrightarrow> conn_of fd n' = conn_of fd n"
  by (simp add: conn_of_def)

lemma push_one_ok:
  assumes "net_outs C out n" and "0 \<le> fd" "fd < int (length (conns n))" and "\<forall>fd c. conn_of fd n = Some c \<longrightarrow> c \<in> C"
    and "sends_ok (push_plan pb [(fd, m)] n @ rest) n"
  shows "\<exists>n'. push_one pb fd m n = Inr n' \<and> net_outs C (add_outs (push_plan pb [(fd, m)] n) out) n' \<and>
    app n' = (app n)\<lparr>push_list := AList.delete fd (push_list (app n))\<rparr> \<and> conns n' = conns n \<and> sends_ok rest n'"
proof (cases "conn_of fd n")
  case None
  then show ?thesis using assms by (auto simp: push_one_def conn_of_def push_plan_def Let_def sends_ok_app split: if_splits)
next
  case (Some c)
  then have nth: "conns n ! nat fd = Some c" by (auto simp: conn_of_def split: if_splits)
  let ?m = "route_msg pb (the_route (app n)) m"
  obtain n1 where n1: "send_message c (snd ?m) (fst ?m) n = Inr (0, n1)" "sends_ok rest n1"
    using assms(5) Some by (auto simp: push_plan_def route_msg_def split: sum.splits)
  have "net_outs C (out(c := out c @ encode_msg ?m)) n1"
    using send_message_outs [OF assms(1) assms(4) [rule_format, OF Some] n1(1)] by simp
  moreover have "push_one pb fd m n = Inr (upd_app (\<lambda>d. d\<lparr>push_list := AList.delete fd (push_list d)\<rparr>) n1)"
    using assms(2,3) nth n1(1) by (simp add: push_one_def Let_def route_msg_def)
  ultimately show ?thesis
    using Some net_frameD(1,3) [OF send_message_frame [OF n1(1)]] n1(2)
    by (simp add: push_plan_def add_outs_Cons sends_ok_app)
qed

lemma push_pairs_ok:
  assumes "net_outs C out n" and "\<forall>(fd, m) \<in> set ps. 0 \<le> fd \<and> fd < int (length (conns n))"
    and "\<forall>fd c. conn_of fd n = Some c \<longrightarrow> c \<in> C" and "sends_ok (push_plan pb ps n) n"
  shows "\<exists>n'. push_pairs pb ps n = Inr n' \<and> net_outs C (add_outs (push_plan pb ps n) out) n' \<and>
    app n' = (app n)\<lparr>push_list := filter (\<lambda>(fd, _). fd \<notin> fst ` set ps) (push_list (app n))\<rparr> \<and> conns n' = conns n"
  using assms
proof (induction ps arbitrary: n out)
  case Nil
  then show ?case by (simp add: push_plan_def)
next
  case (Cons x ps)
  obtain fd m where x: "x = (fd, m)" by (cases x)
  have plan: "push_plan pb (x # ps) n = push_plan pb [(fd, m)] n @ push_plan pb ps n"
    by (simp add: push_plan_def x)
  have sends: "sends_ok (push_plan pb [(fd, m)] n @ push_plan pb ps n) n" using Cons.prems(4) by (simp only: plan)
  obtain n1 where n1: "push_one pb fd m n = Inr n1" "net_outs C (add_outs (push_plan pb [(fd, m)] n) out) n1"
      "app n1 = (app n)\<lparr>push_list := AList.delete fd (push_list (app n))\<rparr>" "conns n1 = conns n"
      "sends_ok (push_plan pb ps n) n1"
    using push_one_ok [OF Cons.prems(1) _ _ Cons.prems(3) sends] Cons.prems(2) x by auto
  have p1: "push_plan pb ps n1 = push_plan pb ps n"
  proof -
    have "the_route (app n1) = the_route (app n)" using n1(3) by simp
    then show ?thesis by (simp only: push_plan_def conn_of_cong [OF n1(4)])
  qed
  obtain n2 where n2: "push_pairs pb ps n1 = Inr n2" "net_outs C (add_outs (push_plan pb ps n) (add_outs (push_plan pb [(fd, m)] n) out)) n2"
      "app n2 = (app n1)\<lparr>push_list := filter (\<lambda>(fd, _). fd \<notin> fst ` set ps) (push_list (app n1))\<rparr>" "conns n2 = conns n1"
    using Cons.IH [OF n1(2)] Cons.prems(2,3) n1(4,5) p1 conn_of_cong [OF n1(4)] by auto
  have "add_outs (push_plan pb ps n) (add_outs (push_plan pb [(fd, m)] n) out) = add_outs (push_plan pb (x # ps) n) out"
    unfolding plan by (simp add: add_outs_def fun_eq_iff)
  moreover have "filter (\<lambda>(fd, _). fd \<notin> fst ` set ps) (AList.delete fd (push_list (app n))) =
      filter (\<lambda>(fd, _). fd \<notin> fst ` set (x # ps)) (push_list (app n))"
    by (auto simp: AList.delete_eq x intro: filter_cong)
  ultimately show ?case using n1 n2 by (simp add: x)
qed

text \<open>What \<open>publish\<close> puts in the list.\<close>

definition push_mods_of :: "(int \<times> u64 list) list \<Rightarrow> int \<Rightarrow> u64 set" where
  "push_mods_of pl fd = set (case map_of pl fd of None \<Rightarrow> [] | Some ms \<Rightarrow> ms)"

definition push_ok :: "(int \<times> u64 list) list \<Rightarrow> bool" where
  "push_ok pl \<longleftrightarrow> distinct (map fst pl) \<and> (\<forall>(fd, ms) \<in> set pl. ms \<noteq> [] \<and> distinct ms)"

lemma push_mods_of_insert [simp]:
  "push_mods_of (push_insert fd m pl) fd' = (if fd' = fd then insert m (push_mods_of pl fd') else push_mods_of pl fd')"
  by (cases "map_of pl fd") (auto simp: push_mods_of_def push_insert_def update_conv')

lemma push_ok_insert:
  assumes "push_ok pl"
  shows "push_ok (push_insert fd m pl)"
proof -
  let ?ms = "set_insert m (case map_of pl fd of None \<Rightarrow> [] | Some ms \<Rightarrow> ms)"
  have "distinct (case map_of pl fd of None \<Rightarrow> [] | Some ms \<Rightarrow> ms)"
    using assms by (auto simp: push_ok_def split: option.splits dest: map_of_SomeD)
  then have "?ms \<noteq> [] \<and> distinct ?ms"
    by (cases "map_of pl fd") (auto simp: set_insert_def)
  moreover have "x \<in> set (AList.update fd ?ms pl) \<Longrightarrow> x = (fd, ?ms) \<or> x \<in> set pl" for x
    by (induction pl) (auto split: if_splits)
  ultimately show ?thesis
    using assms distinct_update [of pl fd ?ms] by (fastforce simp: push_ok_def push_insert_def)
qed

lemma fold_push_insert:
  "push_mods_of (fold (\<lambda>fd. push_insert fd m) fds pl) fd' =
     (if fd' \<in> set fds then insert m (push_mods_of pl fd') else push_mods_of pl fd')"
  "push_ok pl \<Longrightarrow> push_ok (fold (\<lambda>fd. push_insert fd m) fds pl)"
  by (induction fds arbitrary: pl) (auto simp: push_ok_insert)

lemma mark_changed_set:
  "push_mods_of (push_list (mark_changed m d)) fd =
     (if fd \<in> subscribers d m then insert m (push_mods_of (push_list d) fd) else push_mods_of (push_list d) fd)"
  "push_ok (push_list d) \<Longrightarrow> push_ok (push_list (mark_changed m d))"
  by (auto simp: mark_changed_def subscribers_def fold_push_insert split: option.splits)

lemma subscribers_mark [simp]: "subscribers (fold mark_changed ms d) = subscribers d" "subscribers (mark_changed m d) = subscribers d"
  by (rule subscribers_cong, simp)+

lemma fold_mark_changed_set:
  "push_mods_of (push_list (fold mark_changed ms d)) fd =
     push_mods_of (push_list d) fd \<union> {m \<in> set ms. fd \<in> subscribers d m}"
  "push_ok (push_list d) \<Longrightarrow> push_ok (push_list (fold mark_changed ms d))"
proof -
  show "push_mods_of (push_list (fold mark_changed ms d)) fd =
      push_mods_of (push_list d) fd \<union> {m \<in> set ms. fd \<in> subscribers d m}"
  proof (induction ms arbitrary: d)
    case (Cons m ms)
    show ?case using Cons [of "mark_changed m d"] by (simp only: fold_simps mark_changed_set subscribers_mark) auto
  qed simp
  show "push_ok (push_list d) \<Longrightarrow> push_ok (push_list (fold mark_changed ms d))"
  proof (induction ms arbitrary: d)
    case (Cons m ms)
    show ?case using Cons.IH [OF mark_changed_set(2) [OF Cons.prems]] by simp
  qed simp
qed

lemma fold_set_insert_distinct: "distinct (xs @ ys) \<Longrightarrow> fold set_insert ys xs = xs @ ys"
  by (induction ys arbitrary: xs) (auto simp: set_insert_def)

lemma set_fold_insert: "set (fold set_insert xs ys) = set ys \<union> set xs"
  by (induction xs arbitrary: ys) auto

lemma make_publish_map_filter:
  assumes "push_ok pl"
  shows "make_publish_map online_fds pl = filter (\<lambda>(fd, ms). fd \<in> online_fds) pl"
proof -
  have "\<forall>(fd, ms) \<in> set pl. ms \<noteq> [] \<and> fold set_insert ms [] = ms"
    using assms fold_set_insert_distinct [where xs = "[]", simplified] unfolding push_ok_def by blast
  then show ?thesis
    by (induction pl) (auto simp: make_publish_map_def)
qed

end
