(* ===== verification/Dns_Service.thy ===== *)
theory Dns_Service
  imports Dns_Subscribe
begin

text \<open>
  What the DNS service guarantees its subscribers, over every interleaving of connections, requests,
  publications and pushes; and where it does not.
\<close>

text \<open>
  The steps the threads of the server make. The kernel gives a new connection a descriptor that is not
  in use; \<open>io\<close> is any other work of the reactor, which does not touch the tables.
\<close>

inductive dns_step :: "dns_proto \<Rightarrow> dns \<Rightarrow> dns \<Rightarrow> bool" for pb where
  connect: "conn_of fd n = None \<Longrightarrow> tcp_conn_new (dns_env pb) fd l n = Inr (c, n') \<Longrightarrow> dns_step pb n n'"
| request: "conn_of fd n = Some c \<Longrightarrow> get_route pb data len c n = Inr n' \<Longrightarrow> dns_step pb n n'"
| close: "conn_of fd n = Some c \<Longrightarrow> clean_conn (dns_env pb) c n = Inr n' \<Longrightarrow> dns_step pb n n'"
| publish: "publish mods n = Inr n' \<Longrightarrow> dns_step pb n n'"
| push: "push_all pb need n = Inr n' \<Longrightarrow> dns_step pb n n'"
| reload: "dns_step pb n (upd_app (\<lambda>d. d\<lparr>the_route := r\<rparr>) n)"
| io: "net_frame n' = net_frame n \<Longrightarrow> dns_step pb n n'"

definition dns_init :: "dns \<Rightarrow> bool" where
  "dns_init n \<longleftrightarrow> (\<forall>fd. conn_of fd n = None) \<and> book_list (app n) = (\<lambda>_. None) \<and> push_list (app n) = []"

lemma push_one_keeps:
  assumes "push_one pb fd m n = Inr n'"
  shows "conns n' = conns n \<and> fresh_conn n' = fresh_conn n \<and> (\<forall>c. connfd (tcps n' c) = connfd (tcps n c)) \<and>
    book_list (app n') = book_list (app n) \<and> sub_lists (app n') = sub_lists (app n) \<and> the_route (app n') = the_route (app n) \<and>
    push_list (app n') = AList.delete fd (push_list (app n))"
proof -
  obtain n1 where n1: "net_frame n1 = net_frame n" "n' = upd_app (\<lambda>d. d\<lparr>push_list := AList.delete fd (push_list d)\<rparr>) n1"
    using assms by (auto simp: push_one_def Let_def rbind_eq_Inr dest: send_message_frame split: if_splits option.splits)
  show ?thesis using net_frameD [OF n1(1)] n1(2) by simp
qed

lemma push_all_keeps:
  assumes "push_all pb need n = Inr n'"
  shows "conns n' = conns n \<and> fresh_conn n' = fresh_conn n \<and> (\<forall>c. connfd (tcps n' c) = connfd (tcps n c)) \<and>
    book_list (app n') = book_list (app n) \<and> sub_lists (app n') = sub_lists (app n) \<and> the_route (app n') = the_route (app n) \<and>
    push_list (app n') = filter (\<lambda>(fd, _). fd \<notin> fst ` set (pairs_of need)) (push_list (app n))"
proof -
  have "push_pairs pb ps n = Inr n' \<Longrightarrow> conns n' = conns n \<and> fresh_conn n' = fresh_conn n \<and>
    (\<forall>c. connfd (tcps n' c) = connfd (tcps n c)) \<and> book_list (app n') = book_list (app n) \<and>
    sub_lists (app n') = sub_lists (app n) \<and> the_route (app n') = the_route (app n) \<and>
    push_list (app n') = filter (\<lambda>(fd, _). fd \<notin> fst ` set ps) (push_list (app n))" for ps
  proof (induction pb ps n rule: push_pairs.induct)
    case (2 pb fd m ps n)
    then obtain n1 where n1: "push_one pb fd m n = Inr n1" "push_pairs pb ps n1 = Inr n'"
      by (auto simp: rbind_eq_Inr)
    have "filter (\<lambda>(fd, _). fd \<notin> fst ` set ps) (AList.delete fd (push_list (app n))) =
        filter (\<lambda>(fd', _). fd' \<notin> fst ` set ((fd, m) # ps)) (push_list (app n))"
      by (auto simp: AList.delete_eq intro: filter_cong)
    then show ?case using 2(1) [OF n1] push_one_keeps [OF n1(1)] by simp
  qed simp
  then show ?thesis using assms by (simp add: push_all_pairs)
qed

lemma dns_step_inv: "dns_step pb n n' \<Longrightarrow> sub_inv n \<Longrightarrow> sub_inv n'"
proof (induction rule: dns_step.induct)
  case (publish mods n n')
  have s: "send_task push_change_task_id (Some 0) (upd_app (fold mark_changed mods) n) = Inr n'"
    using publish(1) by (simp add: publish_def Let_def split: if_splits)
  show ?case using send_task_keeps [OF s] by (intro sub_inv_cong [OF publish(2)]) simp_all
next
  case (push need n n')
  show ?case using push_all_keeps [OF push(1)] by (intro sub_inv_cong [OF push(2)]) simp_all
next
  case (reload n r)
  show ?case by (intro sub_inv_cong [OF reload]) simp_all
qed (auto dest: sub_inv_create sub_inv_close sub_inv_request sub_inv_frame)

lemma dns_init_inv: "dns_init n \<Longrightarrow> sub_inv n"
  by (auto simp: dns_init_def sub_inv_def subscribers_def book_ok_def)

text \<open>\<open>send_task\<close> reaches every thread.\<close>

lemma send_task_ok:
  assumes "\<forall>q \<in> set (queues n). ev_counter q < 18446744073709551614"
  shows "\<exists>n'. send_task f a n = Inr n' \<and> length (queues n') = length (queues n) \<and>
    (\<forall>i < length (queues n). q_items (queues n' ! i) = q_items (queues n ! i) @ [NEW_TASK f a])"
proof -
  have "k \<le> length (queues n) \<Longrightarrow>
      \<exists>n'. fold (\<lambda>i m. rbind m (send_to (NEW_TASK f a) i)) [0..<k] (Inr n) = Inr n' \<and> length (queues n') = length (queues n) \<and>
      (\<forall>i < length (queues n). if i < k then q_items (queues n' ! i) = q_items (queues n ! i) @ [NEW_TASK f a]
         else queues n' ! i = queues n ! i)" for k
  proof (induction k)
    case (Suc k)
    then obtain n1 where n1: "fold (\<lambda>i m. rbind m (send_to (NEW_TASK f a) i)) [0..<k] (Inr n) = Inr n1"
        "length (queues n1) = length (queues n)"
        "\<forall>i < length (queues n). if i < k then q_items (queues n1 ! i) = q_items (queues n ! i) @ [NEW_TASK f a]
         else queues n1 ! i = queues n ! i" by auto
    have k: "k < length (queues n1)" "queues n1 ! k = queues n ! k" using n1(2,3) Suc.prems by auto
    then have "ev_counter (queues n1 ! k) < 18446744073709551614" using assms n1(2) by simp
    then obtain q where q: "send_to (NEW_TASK f a) k n1 = Inr (n1\<lparr>queues := (queues n1)[k := q]\<rparr>)"
        "q_items q = q_items (queues n1 ! k) @ [NEW_TASK f a]"
      using send_to_ok [OF _ k(1), where task = "NEW_TASK f a"] by blast
    show ?case using n1 q k by (auto simp: nth_list_update less_Suc_eq)
  qed simp
  from this [of "length (queues n)"] show ?thesis by (auto simp: send_task_def)
qed

lemma publish_ok:
  assumes "queues n \<noteq> []" and "\<forall>q \<in> set (queues n). ev_counter q < 18446744073709551614"
  shows "\<exists>n'. publish mods n = Inr n' \<and> conns n' = conns n \<and> loops n' = loops n \<and> tcps n' = tcps n \<and> net_pool n' = net_pool n \<and> app n' = fold mark_changed mods (app n) \<and>
    (\<forall>i < length (queues n). q_items (queues n' ! i) = q_items (queues n ! i) @ [NEW_TASK push_change_task_id (Some 0)])"
proof -
  let ?n1 = "upd_app (fold mark_changed mods) n"
  obtain n' where n': "send_task push_change_task_id (Some 0) ?n1 = Inr n'"
      "\<forall>i < length (queues n). q_items (queues n' ! i) = q_items (queues n ! i) @ [NEW_TASK push_change_task_id (Some 0)]"
    using send_task_ok [of ?n1 push_change_task_id "Some 0"] assms(2) by auto
  then show ?thesis using send_task_keeps [OF n'(1)] assms(1) by (auto simp: publish_def Let_def)
qed

section \<open>Properties\<close>

text \<open>
  C17: subscriptions stay consistent. In every state reachable by connections opening and closing, requests,
  publications, pushes and reloads in any order, the book lists descriptor \<open>fd\<close> under module \<open>m\<close> exactly if
  \<open>fd\<close> is a connection of the table that has asked for \<open>m\<close>: a closed connection is in no list.
\<close>

theorem book_matches_connections:
  assumes "(dns_step pb)\<^sup>*\<^sup>* n0 n" and "dns_init n0"
  shows "fd \<in> set (case book_list (app n) m of None \<Rightarrow> [] | Some fds \<Rightarrow> fds) \<longleftrightarrow>
    (\<exists>c l. conn_of fd n = Some c \<and> connfd (tcps n c) = fd \<and> sub_lists (app n) c = Some l \<and> m \<in> set l)"
proof -
  have "sub_inv n" using assms(1) by (induction rule: rtranclp_induct) (auto intro: dns_init_inv [OF assms(2)] dns_step_inv)
  then show ?thesis using sub_invD(1,4) unfolding subscribers_def by blast
qed

text \<open>A server with one connection, subscribed to module 1, command 2, which has changed.\<close>

definition demo_proto :: dns_proto where
  "demo_proto = \<lparr>parse_request = (\<lambda>data len. (1, 2)), response_bytes = (\<lambda>r. [ucast (rsp_modid r), of_nat (length (rsp_hosts r))]),
     ID_GetRouteRequest = 1, ID_GetRouteResponse = 2\<rparr>"

definition demo_app :: dns_app where
  "demo_app = \<lparr>the_route = \<lparr>data_map = [mk_key 1 2 \<mapsto> [mk_key_u 7 80]], temp_map = (\<lambda>_. None), version = 1\<rparr>,
     book_list = [mk_key 1 2 \<mapsto> [5]], push_list = [(5, [mk_key 1 2])], sub_lists = [0 \<mapsto> [mk_key 1 2]]\<rparr>"

definition demo_dns :: dns where
  "demo_dns = \<lparr>net_pool = demo_pool, loops = (\<lambda>_. add_io_event True 5 conn_rd_callback EPOLLIN (Some 0) event_loop_new),
     tcps = (\<lambda>_. \<lparr>connfd = 5, conn_loop = 1, ibuf = NULL, obuf = Ptr 0\<rparr>), fresh_conn = 1,
     conns = (replicate 16 None)[5 := Some 0], curr_conns = 1, max_conns = 10,
     queues = [\<lparr>evfd = 8, ev_counter = 0, q_items = [], q_loop = Some 1\<rparr>], tp_index = 0, closed = [], app = demo_app\<rparr>"

lemma demo_dns_simps [simp]:
  "net_pool demo_dns = demo_pool" "ibuf_of 0 demo_dns = NULL" "obuf_of 0 demo_dns = Ptr 0" "app demo_dns = demo_app"
  "conn_of fd demo_dns = (if fd = 5 then Some 0 else None)" "length (conns demo_dns) = 16" "fresh_conn demo_dns = 1"
  "connfd (tcps demo_dns c) = 5" "queues demo_dns = [\<lparr>evfd = 8, ev_counter = 0, q_items = [], q_loop = Some 1\<rparr>]"
  "listen_fds (loops demo_dns l) = {5}"
proof -
  have "(replicate 16 None)[5 := Some (0 :: addr)] ! i = (if 5 = i then Some 0 else None)" if "i < 16" for i
    using that by (cases "5 = i") (simp_all only: nth_list_update nth_replicate length_replicate if_True if_False)
  moreover have "nat fd < 16" "5 \<noteq> nat fd" if "0 \<le> fd" "fd < 16" "fd \<noteq> 5" using that by linarith+
  ultimately show "conn_of fd demo_dns = (if fd = 5 then Some 0 else None)"
    by (simp add: demo_dns_def conn_of_def)
  show "listen_fds (loops demo_dns l) = {5}"
    by (simp add: demo_dns_def add_io_event_def epoll_ctl_def event_loop_new_def)
qed (simp_all add: demo_dns_def ibuf_of_def obuf_of_def)

lemma demo_app_simps [simp]:
  "push_list demo_app = [(5, [mk_key 1 2])]" "book_list demo_app = [mk_key 1 2 \<mapsto> [5]]" "sub_lists demo_app = [0 \<mapsto> [mk_key 1 2]]"
  "get_hosts 1 2 (the_route demo_app) = [mk_key_u 7 80]"
  by (simp_all add: demo_app_def get_hosts_def)

lemma demo_dns_outs: "net_outs {0} (\<lambda>_. [1, 2, 3]) demo_dns"
  using demo_pool_ok by (simp add: net_outs_def bufs_apart_def conn_ok_def)

lemma demo_dns_ok: "conn_ok 0 demo_dns [] [1, 2, 3]" and demo_dns_room: "out_room 0 4093 demo_dns"
  using demo_pool_ok demo_buf by (auto simp: conn_ok_def out_room_def)

lemma demo_dns_sends: "length data \<le> 4000 \<Longrightarrow> sends_ok [(0, i, data)] demo_dns"
  using send_message_room [OF demo_dns_ok demo_dns_room, of data i] by fastforce

lemma demo_dns_inv: "sub_inv demo_dns"
  by (auto simp: sub_inv_def subscribers_def book_ok_def split: if_splits)

lemma book_matches_connections_witness:
  "\<exists>n0 n. (dns_step demo_proto)\<^sup>*\<^sup>* n0 n \<and> conn_of 3 n = Some 1 \<and>
     3 \<notin> set (case book_list (app n) (mk_key 1 2) of None \<Rightarrow> [] | Some fds \<Rightarrow> fds)"
proof -
  let ?a = "demo_app\<lparr>book_list := (\<lambda>_. None), push_list := [], sub_lists := (\<lambda>_. None)\<rparr>"
  let ?n0 = "demo_dns\<lparr>app := ?a, conns := replicate 16 None\<rparr>"
  have init: "dns_init ?n0" by (auto simp: dns_init_def conn_of_def intro!: nth_replicate)
  obtain n where n: "tcp_conn_new (dns_env demo_proto) 3 1 ?n0 = Inr (1, n)"
    by (auto simp: tcp_conn_new_def dns_env_def run_hook_def create_subscribe_def increase_conn_def Let_def)
  have free: "conn_of 3 ?n0 = None" by (simp add: conn_of_def)
  have step: "(dns_step demo_proto)\<^sup>*\<^sup>* ?n0 n" using connect [OF free n] by blast
  have "conn_of 3 n = Some 1" "sub_lists (app n) 1 = Some []"
    using sub_inv_create [OF dns_init_inv [OF init] n free] by auto
  with step book_matches_connections [OF step init, of 3 "mk_key 1 2"] show ?thesis by auto
qed

text \<open>
  A request is answered with exactly one message, the current routes of the module it asks for, behind what
  already waits for this connection and no other; and from then on the connection is subscribed to it.
\<close>

theorem get_route_answers:
  assumes "sub_inv n" and "net_outs C out n" and "conn_of fd n = Some c" and "c \<in> C"
    and "parse_request pb data len = (modid, cmdid)"
    and "sends_ok [(c, ID_GetRouteResponse pb, response_bytes pb (make_response modid cmdid (the_route (app n))))] n"
  shows "\<exists>n'. get_route pb data len c n = Inr n' \<and>
    net_outs C (out(c := out c @ encode_msg (ID_GetRouteResponse pb,
      response_bytes pb \<lparr>rsp_modid = modid, rsp_cmdid = cmdid,
        rsp_hosts = map (\<lambda>v. (key_hi v, key_lo v)) (get_hosts modid cmdid (the_route (app n)))\<rparr>))) n' \<and>
    fd \<in> subscribers (app n') (mk_key modid cmdid)"
proof -
  obtain ms where ms: "sub_lists (app n) c = Some ms" using sub_invD(3) [OF assms(1,3)] by blast
  let ?m = "mk_key modid cmdid"
  let ?n1 = "if ?m \<in> set ms then n else upd_app (\<lambda>d. subcribe ?m (connfd (tcps n c))
      (d\<lparr>sub_lists := (sub_lists d)(c \<mapsto> set_insert ?m ms)\<rparr>)) n"
  have r: "the_route (app ?n1) = the_route (app n)" and outs: "net_outs C out ?n1" using assms(2) by simp_all
  let ?data = "response_bytes pb (make_response modid cmdid (the_route (app n)))"
  have "sends_ok [(c, ID_GetRouteResponse pb, ?data)] ?n1" using assms(6) by (simp only: sends_ok_app split: if_splits) simp
  then obtain n' where n': "send_message c ?data (ID_GetRouteResponse pb) ?n1 = Inr (0, n')"
    by (auto split: sum.splits)
  then have run: "get_route pb data len c n = Inr n'"
    using ms assms(5) by (cases "?m \<in> set ms") (simp_all add: get_route_def Let_def)
  show ?thesis using run send_message_outs [OF outs assms(4) n'] sub_inv_request [OF assms(1,3) run] assms(5)
    by (simp add: make_response_def)
qed

lemma get_route_answers_witness:
  "\<exists>n'. get_route demo_proto None 0 0 demo_dns = Inr n' \<and>
     net_outs {0} ((\<lambda>_. [1, 2, 3])(0 := [1, 2, 3] @ encode_msg (2, [1, 1]))) n'"
  using get_route_answers [OF demo_dns_inv demo_dns_outs, of 5 0 demo_proto None 0 1 2]
    demo_dns_sends [of "[1, 1]" 2]
  by (auto simp: demo_proto_def make_response_def)

lemma push_plan_one:
  "push_plan pb (map (Pair fd) ms) n =
     (case conn_of fd n of None \<Rightarrow> [] | Some c \<Rightarrow> map (\<lambda>m. (c, route_msg pb (the_route (app n)) m)) ms)"
  by (induction ms) (auto simp: push_plan_def split: option.split)

lemma push_plan_append: "push_plan pb (ps @ qs) n = push_plan pb ps n @ push_plan pb qs n"
  by (simp add: push_plan_def)

lemma add_outs_plan:
  "add_outs (push_plan pb (pairs_of due) n) out c = out c @ concat [encode_msg (route_msg pb (the_route (app n)) m).
     (fd, ms) \<leftarrow> due, conn_of fd n = Some c, m \<leftarrow> ms]"
proof (induction due)
  case (Cons x due)
  obtain fd ms where x: "x = (fd, ms)" by (cases x)
  have "pairs_of (x # due) = map (Pair fd) ms @ pairs_of due" by (simp add: pairs_of_def x)
  with Cons show ?case
    by (cases "conn_of fd n") (auto simp: x push_plan_append push_plan_one add_outs_def filter_map comp_def)
qed (simp add: pairs_of_def push_plan_def)

text \<open>The run of one push task.\<close>

lemma push_task_run:
  assumes "net_outs C out n" and "push_ok (push_list (app n))"
    and "\<forall>(fd, ms) \<in> set (push_list (app n)). 0 \<le> fd \<and> fd < int (length (conns n))"
    and "\<forall>fd c. conn_of fd n = Some c \<longrightarrow> c \<in> C"
    and "due = [(fd, ms) \<leftarrow> push_list (app n). fd \<in> listen_fds (loops n l)]"
    and "sends_ok (push_plan pb (pairs_of due) n) n"
  shows "\<exists>n'. push_change_task pb l n = Inr n' \<and>
    net_outs C (\<lambda>c. out c @ concat [encode_msg (route_msg pb (the_route (app n)) m).
        (fd, ms) \<leftarrow> due, conn_of fd n = Some c, m \<leftarrow> ms]) n' \<and>
    app n' = (app n)\<lparr>push_list := [(fd, ms) \<leftarrow> push_list (app n). fd \<notin> listen_fds (loops n l)]\<rparr>"
proof -
  have due: "make_publish_map (listen_fds (loops n l)) (push_list (app n)) = due"
    using make_publish_map_filter [OF assms(2)] assms(5) by simp
  have "\<forall>(fd, ms) \<in> set due. ms \<noteq> []" using assms(2,5) by (auto simp: push_ok_def)
  then have fst: "fst ` set (pairs_of due) = fst ` set due"
    by (rule fst_pairs_of)
  have rng: "\<forall>(fd, m) \<in> set (pairs_of due). 0 \<le> fd \<and> fd < int (length (conns n))"
    using assms(3) unfolding assms(5) by (auto simp: pairs_of_mem)
  obtain n' where n': "push_pairs pb (pairs_of due) n = Inr n'" "net_outs C (add_outs (push_plan pb (pairs_of due) n) out) n'"
      "app n' = (app n)\<lparr>push_list := filter (\<lambda>(fd, _). fd \<notin> fst ` set (pairs_of due)) (push_list (app n))\<rparr>"
    using push_pairs_ok [OF assms(1) rng assms(4,6)] by blast
  have "add_outs (push_plan pb (pairs_of due) n) out = (\<lambda>c. out c @ concat [encode_msg (route_msg pb (the_route (app n)) m).
        (fd, ms) \<leftarrow> due, conn_of fd n = Some c, m \<leftarrow> ms])"
    by (simp add: fun_eq_iff add_outs_plan)
  moreover have "filter (\<lambda>(fd, _). fd \<notin> fst ` set due) (push_list (app n)) =
      [(fd, ms) \<leftarrow> push_list (app n). fd \<notin> listen_fds (loops n l)]"
    unfolding assms(5) by (rule filter_cong) (auto simp: image_iff)
  ultimately show ?thesis
    using n' by (simp add: push_change_task_def due push_all_pairs fst)
qed

text \<open>
  C18: pushing the changes. The task of one thread appends to the output of every connection of that thread's
  loop exactly one answer for each changed module noted for it, sends nothing to anybody else, and leaves in
  the list exactly the entries of descriptors the loop does not watch.
\<close>

theorem push_delivers:
  assumes "net_outs C out n" and "push_ok (push_list (app n))"
    and "\<forall>(fd, ms) \<in> set (push_list (app n)). 0 \<le> fd \<and> fd < int (length (conns n))"
    and "\<forall>fd c. conn_of fd n = Some c \<longrightarrow> c \<in> C"
    and "due = [(fd, ms) \<leftarrow> push_list (app n). fd \<in> listen_fds (loops n l)]"
    and "sends_ok (push_plan pb (pairs_of due) n) n"
  shows "\<exists>n'. push_change_task pb l n = Inr n' \<and>
    net_outs C (\<lambda>c. out c @ concat [encode_msg (route_msg pb (the_route (app n)) m).
        (fd, ms) \<leftarrow> due, conn_of fd n = Some c, m \<leftarrow> ms]) n' \<and>
    push_list (app n') = [(fd, ms) \<leftarrow> push_list (app n). fd \<notin> listen_fds (loops n l)]"
  using push_task_run [OF assms] by auto

lemma push_delivers_witness:
  "\<exists>n'. push_change_task demo_proto 1 demo_dns = Inr n' \<and>
     net_outs {0} (\<lambda>c. [1, 2, 3] @ (if c = 0 then encode_msg (2, [1, 1]) else [])) n' \<and> push_list (app n') = []"
proof -
  have kh: "key_hi (mk_key 1 2) = 1" by (simp add: key_hi_mk_key)
  have m: "route_msg demo_proto (the_route demo_app) (mk_key 1 2) = (2, [1, 1])"
    by (simp add: route_msg_def demo_proto_def make_response_def kh)
  have plan: "push_plan demo_proto (pairs_of [(5, [mk_key 1 2])]) demo_dns = [(0, 2, [1, 1])]"
    by (simp add: push_plan_def pairs_of_def m)
  have sends: "sends_ok (push_plan demo_proto (pairs_of [(5, [mk_key 1 2])]) demo_dns) demo_dns"
    unfolding plan using demo_dns_sends [of "[1, 1]" 2] by simp
  have out: "(\<lambda>c. [1, 2, 3] @ concat [encode_msg (route_msg demo_proto (the_route (app demo_dns)) m).
        (fd, ms) \<leftarrow> [(5, [mk_key 1 2])], conn_of fd demo_dns = Some c, m \<leftarrow> ms]) =
      (\<lambda>c. [1, 2, 3] @ (if c = 0 then encode_msg (2, [1, 1]) else []))"
    by (rule ext) (simp add: m)
  have "\<exists>n'. push_change_task demo_proto 1 demo_dns = Inr n' \<and>
      net_outs {0} (\<lambda>c. [1, 2, 3] @ concat [encode_msg (route_msg demo_proto (the_route (app demo_dns)) m).
        (fd, ms) \<leftarrow> [(5, [mk_key 1 2])], conn_of fd demo_dns = Some c, m \<leftarrow> ms]) n' \<and>
      push_list (app n') = [(fd, ms) \<leftarrow> push_list (app demo_dns). fd \<notin> listen_fds (loops demo_dns 1)]"
    by (rule push_delivers [OF demo_dns_outs _ _ _ _ sends]) (simp_all add: push_ok_def)
  then show ?thesis unfolding out by simp
qed

text \<open>
  C39: a pushed answer is the answer the same module's request gets, exactly if \<open>cmdid\<close> is not negative: the
  push decodes the key by shifting, which is one less for \<open>modid\<close> then.
\<close>

theorem push_same_answer:
  assumes "conn_of fd n = Some c" and "sub_lists (app n) c = Some ms" and "mk_key modid cmdid \<in> set ms"
    and "parse_request pb data len = (modid, cmdid)"
  shows "(push_one pb fd (mk_key modid cmdid) n =
       map_sum id (upd_app (\<lambda>d. d\<lparr>push_list := AList.delete fd (push_list d)\<rparr>)) (get_route pb data len c n) \<or> sint cmdid < 0) \<and>
     (make_response (key_hi (mk_key modid cmdid)) (key_lo (mk_key modid cmdid)) r = make_response modid cmdid r \<longleftrightarrow> 0 \<le> sint cmdid)"
proof -
  have nth: "0 \<le> fd" "fd < int (length (conns n))" "conns n ! nat fd = Some c"
    using assms(1) by (auto simp: conn_of_def split: if_splits)
  have "make_response (key_hi (mk_key modid cmdid)) (key_lo (mk_key modid cmdid)) r' = make_response modid cmdid r' \<longleftrightarrow> 0 \<le> sint cmdid" for r'
    by (auto simp: key_hi_mk_key make_response_def)
  then show ?thesis
    using assms nth by (cases "sint cmdid < 0") (auto simp: push_one_def get_route_def Let_def rbind_def split: sum.split)
qed

lemma push_same_answer_witness:
  "push_one demo_proto 5 (mk_key 1 2) demo_dns =
     map_sum id (upd_app (\<lambda>d. d\<lparr>push_list := AList.delete 5 (push_list d)\<rparr>)) (get_route demo_proto None 0 0 demo_dns)"
  using push_same_answer [of 5 demo_dns 0 "[mk_key 1 2]" 1 2 demo_proto None 0] by (simp add: demo_proto_def)

text \<open>
  A change published while a push is under way is lost. The task copies what is due under the lock and
  erases the whole entry of a descriptor after sending, without the lock: a module published in between
  is noted for the subscriber, not sent, and erased.
\<close>

theorem publish_during_push_lost:
  assumes "need = make_publish_map online_fds (push_list (app n))" and "(fd, ms) \<in> set need" and "m \<notin> set ms"
    and "distinct (map fst (push_list (app n)))"
    and "fd \<in> subscribers (app n) m" and "m \<in> set mods"
    and "publish mods n = Inr n1" and "push_all pb need n1 = Inr n'"
  shows "m \<in> push_mods_of (push_list (app n1)) fd \<and> (fd, m) \<notin> set (pairs_of need) \<and>
    push_mods_of (push_list (app n')) fd = {}"
proof -
  have s: "app n1 = fold mark_changed mods (app n)"
    using assms(7) send_task_keeps by (fastforce simp: publish_def Let_def split: if_splits)
  have d: "distinct (map fst need)"
    using assms(4) unfolding assms(1) by (auto simp: make_publish_map_def distinct_map inj_on_def split_beta comp_def)
  have new: "(fd, m) \<notin> set (pairs_of need)"
    using assms(2,3) d by (auto simp: pairs_of_mem dest: eq_key_imp_eq_value)
  have "ms \<noteq> []"
  proof -
    obtain ms0 where "ms = fold set_insert ms0 []" "ms0 \<noteq> []"
      using assms(2) unfolding assms(1) make_publish_map_def by auto
    then have "set ms \<noteq> {}" by (simp only: set_fold_insert) simp
    then show ?thesis by (rule contrapos_nn) simp
  qed
  then have "(fd, hd ms) \<in> set (pairs_of need)" using assms(2) by (auto simp: pairs_of_mem)
  then have "fd \<in> fst ` set (pairs_of need)" by (metis fst_conv imageI)
  moreover have "push_list (app n') = filter (\<lambda>(fd, _). fd \<notin> fst ` set (pairs_of need)) (push_list (app n1))"
    using push_all_keeps [OF assms(8)] by blast
  ultimately have "map_of (push_list (app n')) fd = None"
    unfolding map_of_eq_None_iff by (auto simp: image_iff)
  then show ?thesis using assms(5,6) new by (simp add: s fold_mark_changed_set) (simp add: push_mods_of_def)
qed

text \<open>A state in which the connection is subscribed to a second module, 3, 4.\<close>

definition demo_two :: dns where
  "demo_two = upd_app (\<lambda>d. d\<lparr>book_list := [mk_key 1 2 \<mapsto> [5], mk_key 3 4 \<mapsto> [5]], sub_lists := [0 \<mapsto> [mk_key 1 2, mk_key 3 4]]\<rparr>) demo_dns"

lemma publish_during_push_lost_witness:
  "\<exists>n1 n'. publish [mk_key 3 4] demo_two = Inr n1 \<and> push_all demo_proto [(5, [mk_key 1 2])] n1 = Inr n' \<and>
     mk_key 3 4 \<in> push_mods_of (push_list (app n1)) 5 \<and> push_mods_of (push_list (app n')) 5 = {}"
proof -
  obtain n1 where n1: "publish [mk_key 3 4] demo_two = Inr n1" "conns n1 = conns demo_two"
      "tcps n1 = tcps demo_two" "net_pool n1 = net_pool demo_two"
      "app n1 = fold mark_changed [mk_key 3 4] (app demo_two)"
    using publish_ok [of demo_two "[mk_key 3 4]"] by (auto simp: demo_two_def)
  have bufs: "ibuf_of 0 n1 = ibuf_of 0 demo_dns" "obuf_of 0 n1 = obuf_of 0 demo_dns" "net_pool n1 = net_pool demo_dns"
    using n1(3,4) by (simp_all add: demo_two_def ibuf_of_def obuf_of_def)
  let ?data = "response_bytes demo_proto (make_response (key_hi (mk_key 1 2)) (key_lo (mk_key 1 2)) (the_route (app n1)))"
  have "conn_ok 0 n1 [] [1, 2, 3]" using demo_dns_ok conn_ok_cong [OF bufs(3,1,2)] by blast
  moreover have "out_room 0 4093 n1" using demo_dns_room bufs by (simp add: out_room_def)
  moreover have "8 + int (length ?data) \<le> 4093" by (simp add: demo_proto_def)
  ultimately obtain n2 where "send_message 0 ?data (ID_GetRouteResponse demo_proto) n1 = Inr (0, n2)"
    using send_message_room by blast
  moreover have "conns n1 ! 5 = Some 0" "length (conns n1) = 16" using n1(2) by (simp_all add: demo_two_def demo_dns_def)
  ultimately obtain n' where n': "push_all demo_proto [(5, [mk_key 1 2])] n1 = Inr n'"
    by (simp add: push_one_def Let_def)
  have "make_publish_map {5} (push_list (app demo_two)) = [(5, [mk_key 1 2])]"
    by (simp add: demo_two_def make_publish_map_def set_insert_def)
  then show ?thesis
    using publish_during_push_lost [OF _ _ _ _ _ _ n1(1) n', of "{5}" 5 "[mk_key 1 2]" "mk_key 3 4"] n1(1) n'
    by (auto simp: demo_two_def subscribers_def)
qed

text \<open>
  What is noted for a closed connection reaches the next connection with its descriptor. Closing takes
  the descriptor out of the book but not out of the list of pushes, so the next push sends a new
  connection with the same descriptor the routes of a module it has not asked for.
\<close>

theorem stale_push:
  assumes "sub_inv n" and "conn_of fd n = Some c" and "m \<in> push_mods_of (push_list (app n)) fd"
    and "clean_conn (dns_env pb) c n = Inr n1" and "tcp_conn_new (dns_env pb) fd l n1 = Inr (c', n2)"
    and "loop_inv (loops n1 l)"
  shows "conn_of fd n2 = Some c' \<and> sub_lists (app n2) c' = Some [] \<and>
    (c', route_msg pb (the_route (app n2)) m) \<in>
      set (push_plan pb (pairs_of (make_publish_map (listen_fds (loops n2 l)) (push_list (app n2)))) n2)"
proof -
  have n1: "sub_inv n1" "conn_of fd n1 = None" "push_list (app n1) = push_list (app n)"
    using sub_inv_close [OF assms(1,2,4)] by blast+
  have n2: "conn_of fd n2 = Some c'" "sub_lists (app n2) c' = Some []" "push_list (app n2) = push_list (app n)"
    using sub_inv_create [OF n1(1) assms(5) n1(2)] n1(3) by auto
  have fd: "fd \<in> listen_fds (loops n2 l)" using create_listens [OF assms(5,6)] .
  obtain ms where ms: "map_of (push_list (app n)) fd = Some ms" "m \<in> set ms"
    using assms(3) by (cases "map_of (push_list (app n)) fd") (auto simp: push_mods_of_def)
  have "(fd, fold set_insert ms []) \<in> set (make_publish_map (listen_fds (loops n2 l)) (push_list (app n2)))"
  proof -
    have "(fd, ms) \<in> set [(fd, mods) \<leftarrow> push_list (app n). fd \<in> listen_fds (loops n2 l) \<and> mods \<noteq> []]"
      using map_of_SomeD [OF ms(1)] fd ms(2) by auto
    then show ?thesis unfolding make_publish_map_def n2(3) by (force intro: image_eqI)
  qed
  then have "(fd, m) \<in> set (pairs_of (make_publish_map (listen_fds (loops n2 l)) (push_list (app n2))))"
    unfolding pairs_of_mem using ms(2) set_fold_insert [of ms "[]"] by auto
  then show ?thesis using n2(1,2) unfolding push_plan_def by (force split: option.split)
qed

lemma stale_push_witness:
  "\<exists>n1 n2. clean_conn (dns_env demo_proto) 0 demo_dns = Inr n1 \<and>
     tcp_conn_new (dns_env demo_proto) 5 1 n1 = Inr (1, n2) \<and> sub_lists (app n2) 1 = Some [] \<and>
     (1, route_msg demo_proto (the_route (app n2)) (mk_key 1 2)) \<in>
       set (push_plan demo_proto (pairs_of (make_publish_map (listen_fds (loops n2 1)) (push_list (app n2)))) n2)"
proof -
  let ?env = "dns_env demo_proto"
  obtain n0 where n0: "run_hook (conn_close_cb ?env) 0 demo_dns = Inr n0" "conns n0 = conns demo_dns" "tcps n0 = tcps demo_dns"
      "loops n0 = loops demo_dns" "net_pool n0 = net_pool demo_dns" "fresh_conn n0 = 1"
    by (simp add: dns_env_def run_hook_def clear_subscribe_def)
  have "clean_conn ?env 0 demo_dns = clean_conn (?env\<lparr>conn_close_cb := None\<rparr>) 0 n0"
    using n0(1) by (simp add: clean_conn_def run_hook_def)
  moreover have "conn_ok 0 n0 [] [1, 2, 3]"
    using demo_dns_ok conn_ok_cong [of n0 demo_dns 0] n0(3,5) by (simp add: ibuf_of_def obuf_of_def)
  then obtain n1 where "clean_conn (?env\<lparr>conn_close_cb := None\<rparr>) 0 n0 = Inr n1"
      "loops n1 = (loops n0)(conn_loop (tcps n0 0) := del_io_event 5 (loops n0 (conn_loop (tcps n0 0))))"
    using clean_conn_ok [of 0 n0 "[]" "[1, 2, 3]" "?env\<lparr>conn_close_cb := None\<rparr>"] n0(2,3) by auto
  moreover have "loop_inv (loops demo_dns l)" for l
    by (simp add: demo_dns_def add_io_event_inv one_way_def)
  ultimately have n1: "clean_conn ?env 0 demo_dns = Inr n1" "loop_inv (loops n1 1)"
    using n0(4) by (simp_all add: del_io_event_inv)
  obtain n1' where "run_hook (conn_close_cb ?env) 0 demo_dns = Inr n1'" "length (conns n1) = length (conns n1')"
      "fresh_conn n1 = fresh_conn n1'"
    using clean_conn_frame [OF n1(1)] by auto
  then have "fresh_conn n1 = 1" "length (conns n1) = 16" using n0(1,2,6) by auto
  then obtain n2 where n2: "tcp_conn_new ?env 5 1 n1 = Inr (1, n2)"
    by (auto simp: tcp_conn_new_def dns_env_def run_hook_def create_subscribe_def increase_conn_def Let_def)
  show ?thesis
    using stale_push [OF demo_dns_inv _ _ n1(1) n2 n1(2), of "mk_key 1 2"] n1(1) n2
    by (auto simp: push_mods_of_def)
qed

end
