(* ===== verification/Udp.thy ===== *)
theory Udp
  imports Io_Buf Message
begin

text \<open>
  \<open>udp_server\<close> and \<open>udp_client\<close> (\<open>lars_reactors/src/udp_server.cpp\<close>, \<open>udp_client.cpp\<close>): one message per
  datagram. The two classes differ in the destination only: the server answers the sender of the last
  datagram, the client is connected. Both buffers are arrays of \<open>MESSAGE_LENGTH_LIMIT\<close> bytes; what
  \<open>recvfrom\<close> and \<open>sendto\<close> return is an argument, what was sent is collected in \<open>outbox\<close>.
\<close>

datatype 'p recv_ret = Dgram 'p "u8 list" | RecvEintr | RecvEagain | RecvErr

record ('p, 'u) udp =
  read_mem :: "int \<Rightarrow> u8"
  write_mem :: "int \<Rightarrow> u8"
  peer :: "'p option"                       \<comment> \<open>\<open>_client_addr\<close>, or the address the client is connected to\<close>
  outbox :: "('p option \<times> u8 list) list"
  udp_router :: "(nat, nat) msg_router"
  udp_app :: 'u

type_synonym ('p, 'u) udp_cb = "nat \<Rightarrow> u8 list option \<Rightarrow> int \<Rightarrow> int \<Rightarrow> unit \<Rightarrow> nat option \<Rightarrow> ('p, 'u) udp \<Rightarrow> ('p, 'u) udp res"

text \<open>One datagram: at most the size of the buffer is read, the header is copied from the buffer, whatever its length.\<close>

definition handle_dgram :: "('p, 'u) udp_cb \<Rightarrow> u8 list \<Rightarrow> ('p, 'u) udp \<Rightarrow> ('p, 'u) udp res" where
  "handle_dgram run dgram s =
     (let bytes = take (nat MESSAGE_LENGTH_LIMIT) dgram;
          pck_len = int (length bytes);
          s1 = s\<lparr>read_mem := mem_write (read_mem s) 0 bytes\<rparr>;
          head = decode_head (mem_read (read_mem s1) 0 MESSAGE_HEAD_LEN)
      in if MESSAGE_LENGTH_LIMIT < msglen head \<or> msglen head < 0 \<or> msglen head + MESSAGE_HEAD_LEN \<noteq> pck_len then Inr s1
         else router_call run (udp_router s1) (msgid head) (msglen head)
                (Some (mem_read (read_mem s1) MESSAGE_HEAD_LEN (msglen head))) () s1)"

fun udp_server_do_read :: "('p, 'u) udp_cb \<Rightarrow> 'p recv_ret list \<Rightarrow> ('p, 'u) udp \<Rightarrow> ('p, 'u) udp res" where
  "udp_server_do_read run [] s = Inl Blocked"
| "udp_server_do_read run (RecvEintr # rs) s = udp_server_do_read run rs s"
| "udp_server_do_read run (RecvEagain # rs) s = Inr s"
| "udp_server_do_read run (RecvErr # rs) s = Inr s"
| "udp_server_do_read run (Dgram p d # rs) s =
     rbind (handle_dgram run d (s\<lparr>peer := Some p\<rparr>)) (udp_server_do_read run rs)"

fun udp_client_do_read :: "('p, 'u) udp_cb \<Rightarrow> 'p recv_ret list \<Rightarrow> ('p, 'u) udp \<Rightarrow> ('p, 'u) udp res" where
  "udp_client_do_read run [] s = Inl Blocked"
| "udp_client_do_read run (RecvEintr # rs) s = udp_client_do_read run rs s"
| "udp_client_do_read run (RecvEagain # rs) s = Inr s"
| "udp_client_do_read run (RecvErr # rs) s = Inr s"
| "udp_client_do_read run (Dgram p d # rs) s = rbind (handle_dgram run d s) (udp_client_do_read run rs)"

text \<open>
  \<open>send_message\<close>; \<open>accepted\<close> is whether \<open>sendto\<close> succeeds. The body is copied
  behind the header into an array of \<open>MESSAGE_LENGTH_LIMIT\<close> bytes.
\<close>

definition udp_send_message :: "bool \<Rightarrow> u8 list \<Rightarrow> int \<Rightarrow> ('p, 'u) udp \<Rightarrow> (int \<times> ('p, 'u) udp) res" where
  "udp_send_message accepted data i s =
     (let len = int (length data)
      in if MESSAGE_LENGTH_LIMIT < len then Inr (- 1, s)
         else if MESSAGE_LENGTH_LIMIT < MESSAGE_HEAD_LEN + len then Inl OutOfBounds
         else let w = mem_write (mem_write (write_mem s) 0 (encode_head \<lparr>msgid = i, msglen = len\<rparr>)) MESSAGE_HEAD_LEN data;
                  s1 = s\<lparr>write_mem := w\<rparr>
              in if accepted then Inr (len + MESSAGE_HEAD_LEN, s1\<lparr>outbox := outbox s @ [(peer s, mem_read w 0 (len + MESSAGE_HEAD_LEN))]\<rparr>)
                 else Inr (- 1, s1))"

definition udp_add_msg_router :: "int \<Rightarrow> nat \<Rightarrow> nat \<Rightarrow> ('p, 'u) udp \<Rightarrow> ('p, 'u) udp" where
  "udp_add_msg_router i cb ud s = s\<lparr>udp_router := snd (register_msg_router i cb ud (udp_router s))\<rparr>"

text \<open>The client has the same two operations; its peer is the address its socket is connected to.\<close>

definition udp_client_send_message :: "bool \<Rightarrow> u8 list \<Rightarrow> int \<Rightarrow> ('p, 'u) udp \<Rightarrow> (int \<times> ('p, 'u) udp) res" where
  "udp_client_send_message accepted data i s =
     (if MESSAGE_LENGTH_LIMIT < int (length data) then Inr (- 1, s)
      else let len = int (length data); head = \<lparr>msgid = i, msglen = len\<rparr>
           in if MESSAGE_LENGTH_LIMIT < MESSAGE_HEAD_LEN + len then Inl OutOfBounds
              else let w = mem_write (mem_write (write_mem s) 0 (encode_head head)) MESSAGE_HEAD_LEN data
                   in if accepted then
                        Inr (len + MESSAGE_HEAD_LEN,
                          s\<lparr>write_mem := w, outbox := outbox s @ [(peer s, mem_read w 0 (len + MESSAGE_HEAD_LEN))]\<rparr>)
                      else Inr (- 1, s\<lparr>write_mem := w\<rparr>))"

definition udp_client_add_msg_router :: "int \<Rightarrow> nat \<Rightarrow> nat \<Rightarrow> ('p, 'u) udp \<Rightarrow> ('p, 'u) udp" where
  "udp_client_add_msg_router i cb ud s = s\<lparr>udp_router := snd (register_msg_router i cb ud (udp_router s))\<rparr>"

section \<open>Lemmas\<close>

lemma udp_client_send: "udp_client_send_message = udp_send_message"
  by (simp add: fun_eq_iff udp_client_send_message_def udp_send_message_def Let_def)

lemma udp_client_router: "udp_client_add_msg_router = udp_add_msg_router"
  by (simp add: fun_eq_iff udp_client_add_msg_router_def udp_add_msg_router_def)

text \<open>The specification: a datagram is a message if its header announces exactly the bytes that follow.\<close>

definition dgram_msg :: "u8 list \<Rightarrow> msg option" where
  "dgram_msg d =
     (if 8 \<le> length d \<and> length d \<le> 65527 \<and> msglen (decode_head d) = int (length d) - 8
      then Some (msgid (decode_head d), drop 8 d) else None)"

lemma mem_read_write_prefix:
  assumes "0 \<le> n" and "n \<le> int (length bs)"
  shows "mem_read (mem_write m off bs) off n = take (nat n) bs"
  using assms by (intro nth_equalityI) (auto simp: mem_read_def mem_write_def)

lemma mem_read_write_within:
  assumes "0 \<le> k" and "0 \<le> n" and "k + n \<le> int (length bs)"
  shows "mem_read (mem_write m 0 bs) k n = take (nat n) (drop (nat k) bs)"
  using assms by (intro nth_equalityI) (auto simp: mem_read_def mem_write_def nat_add_distrib)

text \<open>
  The stale bytes a short datagram leaves in the buffer do no harm: whatever they announce, a valid header
  needs at least eight bytes of datagram.
\<close>

lemma handle_dgram_spec:
  "handle_dgram run d s =
     (let s1 = s\<lparr>read_mem := mem_write (read_mem s) 0 (take 65527 d)\<rparr>
      in case dgram_msg (take 65527 d) of
           None \<Rightarrow> Inr s1
         | Some (i, body) \<Rightarrow> router_call run (udp_router s1) i (int (length body)) (Some body) () s1)"
proof -
  let ?b = "take 65527 d" let ?m = "mem_write (read_mem s) 0 ?b"
  let ?h = "decode_head (mem_read ?m 0 8)"
  have c: "nat MESSAGE_LENGTH_LIMIT = 65527" "MESSAGE_LENGTH_LIMIT = 65527" "MESSAGE_HEAD_LEN = 8"
    by (simp_all add: MESSAGE_LENGTH_LIMIT_def MESSAGE_HEAD_LEN_def)
  show ?thesis
  proof (cases "8 \<le> length ?b")
    case True
    have h: "?h = decode_head ?b"
    proof -
      have "decode_head ?b = decode_head (take 8 ?b)"
        using decode_head_append [of "take 8 ?b" "drop 8 ?b"] True unfolding append_take_drop_id by simp
      then show ?thesis using True mem_read_write_prefix [of 8 ?b "read_mem s" 0] by simp
    qed
    have body: "mem_read ?m 8 (int (length ?b) - 8) = drop 8 ?b"
      using True mem_read_write_within [of 8 "int (length ?b) - 8" ?b "read_mem s"] by simp
    have "length ?b \<le> 65527" by simp
    then show ?thesis
      using True body unfolding handle_dgram_def Let_def c dgram_msg_def h
      by (auto simp: h)
  next
    case False
    then show ?thesis unfolding handle_dgram_def Let_def c dgram_msg_def by auto
  qed
qed

lemma dgram_msg_encode:
  assumes "in_int i" and "length body \<le> 65519"
  shows "dgram_msg (encode_msg (i, body)) = Some (i, body)"
proof -
  have "msg_ok (i, body)" using assms by (simp add: msg_ok_def MESSAGE_LENGTH_LIMIT_def MESSAGE_HEAD_LEN_def)
  from decode_encode_msg(1) [OF this, of "[]"] assms(2) show ?thesis
    by (simp add: dgram_msg_def encode_msg_def)
qed

text \<open>Callbacks that log what they are given and leave the router alone.\<close>

definition udp_logs :: "('p, 'u) udp_cb \<Rightarrow> (('p, 'u) udp \<Rightarrow> ('p option \<times> msg) list) \<Rightarrow> bool" where
  "udp_logs run seen \<longleftrightarrow>
     (\<forall>s m. seen (s\<lparr>read_mem := m\<rparr>) = seen s) \<and> (\<forall>s p. seen (s\<lparr>peer := p\<rparr>) = seen s) \<and>
     (\<forall>cb i body a s. \<exists>s'. run cb (Some body) (int (length body)) i () a s = Inr s' \<and>
        seen s' = seen s @ [(peer s, i, body)] \<and> udp_router s' = udp_router s)"

lemma handle_dgram_log:
  assumes "udp_logs run seen"
  shows "\<exists>s'. handle_dgram run d s = Inr s' \<and> udp_router s' = udp_router s \<and>
    seen s' = seen s @ (case dgram_msg (take 65527 d) of None \<Rightarrow> []
      | Some m \<Rightarrow> if router (udp_router s) (fst m) = None then [] else [(peer s, m)])"
proof (cases "dgram_msg (take 65527 d)")
  case None
  then show ?thesis using assms by (simp add: handle_dgram_spec udp_logs_def)
next
  case (Some m)
  obtain i body where m: "m = (i, body)" by (cases m)
  let ?s1 = "s\<lparr>read_mem := mem_write (read_mem s) 0 (take 65527 d)\<rparr>"
  show ?thesis
  proof (cases "router (udp_router s) i")
    case None
    then show ?thesis using Some m assms by (simp add: handle_dgram_spec router_call_def udp_logs_def)
  next
    case (Some cb)
    obtain s' where "run cb (Some body) (int (length body)) i () (args (udp_router s) i) ?s1 = Inr s'"
        "seen s' = seen ?s1 @ [(peer ?s1, i, body)]" "udp_router s' = udp_router ?s1"
      using assms unfolding udp_logs_def by blast
    moreover have "seen ?s1 = seen s" using assms by (simp add: udp_logs_def)
    ultimately show ?thesis using Some \<open>dgram_msg (take 65527 d) = Some m\<close> m
      by (simp add: handle_dgram_spec router_call_def)
  qed
qed

definition accepted_msgs :: "('p, 'u) udp \<Rightarrow> ('p \<times> u8 list) list \<Rightarrow> ('p option \<times> msg) list" where
  "accepted_msgs s ds = concat (map (\<lambda>(p, d). case dgram_msg (take 65527 d) of None \<Rightarrow> []
     | Some m \<Rightarrow> if router (udp_router s) (fst m) = None then [] else [(Some p, m)]) ds)"

section \<open>Properties\<close>

text \<open>
  C21: \<open>udp_server::do_read\<close>. For any datagrams that arrive before the socket is empty, the registered
  callbacks get exactly the well-formed ones, in order, each with the sender set as the destination of a
  reply; a short, oversized or inconsistent datagram is skipped, whatever an earlier one left in the buffer.
\<close>

theorem udp_read_dispatches:
  assumes "udp_logs run seen"
  shows "\<exists>s'. udp_server_do_read run (map (\<lambda>(p, d). Dgram p d) ds @ [RecvEagain]) s = Inr s' \<and>
    seen s' = seen s @ accepted_msgs s ds"
proof (induction ds arbitrary: s)
  case Nil
  then show ?case by (simp add: accepted_msgs_def)
next
  case (Cons x ds)
  obtain p d where x: "x = (p, d)" by (cases x)
  let ?s0 = "s\<lparr>peer := Some p\<rparr>"
  have f: "udp_router ?s0 = udp_router s" "peer ?s0 = Some p" by simp_all
  obtain s1 where s1: "handle_dgram run d ?s0 = Inr s1" "udp_router s1 = udp_router s"
      "seen s1 = seen ?s0 @ (case dgram_msg (take 65527 d) of None \<Rightarrow> []
        | Some m \<Rightarrow> if router (udp_router s) (fst m) = None then [] else [(Some p, m)])"
    by (rule exE [OF handle_dgram_log [OF assms, of d ?s0, unfolded f]]) (elim conjE)
  have "seen ?s0 = seen s" using assms by (simp add: udp_logs_def)
  moreover have "accepted_msgs s1 ds = accepted_msgs s ds" by (simp only: accepted_msgs_def s1(2))
  ultimately show ?case using Cons.IH [of s1] s1 by (auto simp: x accepted_msgs_def)
qed

definition demo_udp :: "(nat, (nat option \<times> msg) list) udp" where
  "demo_udp = udp_add_msg_router 1 0 0 \<lparr>read_mem = (\<lambda>_. 0), write_mem = (\<lambda>_. 0), peer = None, outbox = [],
     udp_router = msg_router_new, udp_app = []\<rparr>"

definition demo_udp_cb :: "(nat, (nat option \<times> msg) list) udp_cb" where
  "demo_udp_cb = (\<lambda>cb data len i c a s. Inr (s\<lparr>udp_app := udp_app s @ [(peer s, i, case data of None \<Rightarrow> [] | Some b \<Rightarrow> b)]\<rparr>))"

lemma demo_udp_logs: "udp_logs demo_udp_cb udp_app"
  by (simp add: udp_logs_def demo_udp_cb_def)

lemma demo_udp_router: "router (udp_router demo_udp) i = (if i = 1 then Some 0 else None)"
  by (simp add: demo_udp_def udp_add_msg_router_def register_msg_router_def msg_router_new_def)

text \<open>A message, a datagram too short for a header, and another message.\<close>

lemma udp_read_dispatches_witness:
  "\<exists>s'. udp_server_do_read demo_udp_cb
     (map (\<lambda>(p, d). Dgram p d) [(4, encode_msg (1, [7])), (5, [1, 0]), (6, encode_msg (1, [8, 9]))] @ [RecvEagain]) demo_udp
     = Inr s' \<and> udp_app s' = [(Some 4, 1, [7]), (Some 6, 1, [8, 9])]"
proof -
  have "dgram_msg (take 65527 (encode_msg (1, [7]))) = Some (1, [7])" "dgram_msg (take 65527 (encode_msg (1, [8, 9]))) = Some (1, [8, 9])"
    using dgram_msg_encode [of 1 "[7]"] dgram_msg_encode [of 1 "[8, 9]"] by (simp_all add: in_int_def)
  then have "accepted_msgs demo_udp [(4, encode_msg (1, [7])), (5, [1, 0]), (6, encode_msg (1, [8, 9]))] =
      [(Some 4, 1, [7]), (Some 6, 1, [8, 9])]"
    by (simp add: accepted_msgs_def demo_udp_router) (simp add: dgram_msg_def)
  with udp_read_dispatches [OF demo_udp_logs, of "[(4, encode_msg (1, [7])), (5, [1, 0]), (6, encode_msg (1, [8, 9]))]" demo_udp]
  show ?thesis by (auto simp: demo_udp_def udp_add_msg_router_def)
qed

text \<open>
  \<open>udp_server::send_message\<close> by the length of the body. Up to 65519 bytes it sends one datagram to the
  peer, which any receiver dispatches as the same message; above 65527 it refuses. In between it passes the
  length check, which forgets the header, and writes behind the end of \<open>_write_buf\<close>.
\<close>

theorem udp_send_cases:
  shows "udp_send_message ok data i s =
    (if length data \<le> 65519 then
       (let s1 = s\<lparr>write_mem := mem_write (mem_write (write_mem s) 0 (encode_head \<lparr>msgid = i, msglen = int (length data)\<rparr>)) 8 data\<rparr>
        in if ok then Inr (int (length data) + 8, s1\<lparr>outbox := outbox s @ [(peer s, encode_msg (i, data))]\<rparr>) else Inr (- 1, s1))
     else if length data \<le> 65527 then Inl OutOfBounds
     else Inr (- 1, s)) \<and>
    (in_int i \<and> length data \<le> 65519 \<longrightarrow> handle_dgram run (encode_msg (i, data)) r =
       router_call run (udp_router r) i (int (length data)) (Some data) () (r\<lparr>read_mem := mem_write (read_mem r) 0 (encode_msg (i, data))\<rparr>))"
proof
  let ?h = "encode_head \<lparr>msgid = i, msglen = int (length data)\<rparr>"
  let ?w = "mem_write (mem_write (write_mem s) 0 ?h) 8 data"
  have "mem_read ?w 0 (int (length data) + 8) = mem_read ?w 0 8 @ mem_read ?w 8 (int (length data))"
    using mem_read_append [of 8 "int (length data)" ?w 0] by (simp add: add.commute)
  moreover have "mem_read (mem_write (write_mem s) 0 ?h) 0 8 = ?h"
    using mem_read_write_prefix [of 8 ?h "write_mem s" 0] by simp
  ultimately have w: "mem_read ?w 0 (int (length data) + 8) = encode_msg (i, data)"
    by (simp add: encode_msg_def)
  show "udp_send_message ok data i s =
    (if length data \<le> 65519 then
       (let s1 = s\<lparr>write_mem := mem_write (mem_write (write_mem s) 0 (encode_head \<lparr>msgid = i, msglen = int (length data)\<rparr>)) 8 data\<rparr>
        in if ok then Inr (int (length data) + 8, s1\<lparr>outbox := outbox s @ [(peer s, encode_msg (i, data))]\<rparr>) else Inr (- 1, s1))
     else if length data \<le> 65527 then Inl OutOfBounds
     else Inr (- 1, s))"
    using w by (auto simp: udp_send_message_def Let_def MESSAGE_LENGTH_LIMIT_def MESSAGE_HEAD_LEN_def)
  show "in_int i \<and> length data \<le> 65519 \<longrightarrow> handle_dgram run (encode_msg (i, data)) r =
       router_call run (udp_router r) i (int (length data)) (Some data) () (r\<lparr>read_mem := mem_write (read_mem r) 0 (encode_msg (i, data))\<rparr>)"
    using dgram_msg_encode [of i data] by (auto simp: handle_dgram_spec Let_def)
qed

lemma udp_send_cases_witness:
  "udp_send_message True (replicate 65520 0) 1 demo_udp = Inl OutOfBounds \<and>
   handle_dgram demo_udp_cb (encode_msg (1, [7])) demo_udp =
     router_call demo_udp_cb (udp_router demo_udp) 1 1 (Some [7]) ()
       (demo_udp\<lparr>read_mem := mem_write (read_mem demo_udp) 0 (encode_msg (1, [7]))\<rparr>)"
  using udp_send_cases [of True "replicate 65520 0" 1 demo_udp demo_udp_cb demo_udp]
    udp_send_cases [of True "[7]" 1 demo_udp demo_udp_cb demo_udp]
  by (simp add: in_int_def)

end
