(* ===== verification/Host_Info.thy ===== *)
theory Host_Info
  imports Complex_Main Lars_Base
begin

text \<open>
  \<open>host_info\<close> and the thresholds \<open>load_balance_config\<close> of the agent
  (\<open>lars_lb_agent/include/host_info.h\<close>, \<open>include/main_server.h\<close>, \<open>src/host_info.cpp\<close>), and the comparison
  of a success or failure rate with its threshold: the code divides two \<open>uint32_t\<close> in \<open>double\<close> and
  compares with a \<open>float\<close>. The division is modelled with the rounding of IEEE 754.
\<close>

datatype ret_code = RET_SUCC | RET_OVERLOAD | RET_SYSTEM_ERROR | RET_NOEXIST

record load_balance_config =
  probe_num :: int
  init_succ_cnt :: i32
  init_err_cnt :: i32
  err_rate :: rat          \<comment> \<open>the value of the \<open>float\<close>\<close>
  succ_rate :: rat
  contin_err_limit :: i32
  contin_succ_limit :: i32
  idle_timeout :: int
  overload_timeout :: int
  update_timeout :: int

record host_info =
  h_ip :: u32
  h_port :: i32
  vsucc :: u32
  verr :: u32
  rsucc :: u32
  rerr :: u32
  contin_succ :: u32
  contin_err :: u32
  idle_ts :: int
  overload_ts :: "int option"   \<comment> \<open>\<open>None\<close>: not initialised\<close>
  overload :: bool

definition host_info_new :: "u32 \<Rightarrow> i32 \<Rightarrow> i32 \<Rightarrow> int \<Rightarrow> host_info" where
  "host_info_new ip port init_succ now =
     \<lparr>h_ip = ip, h_port = port, vsucc = init_succ, verr = 0, rsucc = 0, rerr = 0, contin_succ = 0, contin_err = 0,
      idle_ts = now, overload_ts = None, overload = False\<rparr>"

definition set_overload :: "load_balance_config \<Rightarrow> int \<Rightarrow> host_info \<Rightarrow> host_info" where
  "set_overload cfg now h =
     h\<lparr>vsucc := 0, verr := init_err_cnt cfg, rsucc := 0, rerr := 0, contin_succ := 0, contin_err := 0,
       overload := True, overload_ts := Some now\<rparr>"

definition set_idle :: "load_balance_config \<Rightarrow> int \<Rightarrow> host_info \<Rightarrow> host_info" where
  "set_idle cfg now h =
     h\<lparr>vsucc := init_succ_cnt cfg, verr := 0, rsucc := 0, rerr := 0, contin_succ := 0, contin_err := 0,
       overload := False, idle_ts := now\<rparr>"

section \<open>A rate in floating point\<close>

text \<open>
  \<open>double_quot a b\<close>: the double nearest to \<open>a / b\<close>, ties to even, for positive \<open>a\<close>, \<open>b\<close> below \<open>2 ^ 32\<close>. The
  quotient is scaled by \<open>2 ^ k\<close> so that its integral part has 53 bits; no such quotient is subnormal.
\<close>

fun bit_len :: "nat \<Rightarrow> nat" where
  "bit_len n = (if n = 0 then 0 else Suc (bit_len (n div 2)))"

declare bit_len.simps [simp del]

definition quot_scale :: "nat \<Rightarrow> nat \<Rightarrow> nat" where
  "quot_scale a b =
     (let k = 52 + bit_len b - bit_len a in if 2 ^ 52 * b \<le> a * 2 ^ k then k else Suc k)"

definition round_div :: "nat \<Rightarrow> nat \<Rightarrow> nat" where
  "round_div n b =
     (let m = n div b; r = n mod b
      in if 2 * r < b \<or> 2 * r = b \<and> even m then m else Suc m)"

definition double_quot :: "nat \<Rightarrow> nat \<Rightarrow> rat" where
  "double_quot a b =
     (if a = 0 then 0
      else let k = quot_scale a b in of_nat (round_div (a * 2 ^ k) b) / 2 ^ k)"

text \<open>
  \<open>x * 1.0 / (s) > t\<close> with \<open>s\<close> a sum of two \<open>uint32_t\<close>, hence modulo \<open>2 ^ 32\<close>. If it is zero, the quotient is
  infinite or not a number.
\<close>

definition rate_gt :: "u32 \<Rightarrow> u32 \<Rightarrow> rat \<Rightarrow> bool" where
  "rate_gt x s t = (if s = 0 then x \<noteq> 0 else t < double_quot (unat x) (unat s))"

lemma bit_len_mono: "m \<le> n \<Longrightarrow> bit_len m \<le> bit_len n"
proof (induction n arbitrary: m rule: bit_len.induct)
  case (1 n)
  show ?case
  proof (cases "m = 0")
    case False
    with 1 have "bit_len (m div 2) \<le> bit_len (n div 2)" by (simp add: div_le_mono)
    with False 1(2) show ?thesis by (simp add: bit_len.simps [of m] bit_len.simps [of n])
  qed (simp add: bit_len.simps)
qed

lemma quot_scale_ge: "a \<le> b \<Longrightarrow> 52 \<le> quot_scale a b"
proof -
  assume "a \<le> b"
  then have "52 \<le> 52 + bit_len b - bit_len a" using bit_len_mono [of a b] by linarith
  then show ?thesis by (simp add: quot_scale_def Let_def)
qed

lemma round_div_le: "n \<le> T * b \<Longrightarrow> 0 < b \<Longrightarrow> round_div n b \<le> T"
proof -
  assume n: "n \<le> T * b" and b: "0 < b"
  have "n div b \<le> T" using n b by (metis div_le_mono nonzero_mult_div_cancel_right not_gr_zero)
  moreover have "n mod b = 0" if "n div b = T"
  proof -
    have "n = T * b + n mod b" using that div_mult_mod_eq [of n b] by simp
    with n show ?thesis by simp
  qed
  ultimately show ?thesis using b by (cases "n div b = T") (auto simp: round_div_def Let_def)
qed

lemma round_div_gt: "(T + 1) * b \<le> n \<Longrightarrow> 0 < b \<Longrightarrow> T < round_div n b"
proof -
  assume n: "(T + 1) * b \<le> n" and b: "0 < b"
  have "T + 1 \<le> n div b" using n b by (metis div_le_mono nonzero_mult_div_cancel_right not_gr_zero)
  then show ?thesis by (simp add: round_div_def Let_def)
qed

text \<open>
  A threshold \<open>M / 2 ^ j\<close>: every \<open>float\<close> between \<open>2 ^ - 29\<close> and \<open>1\<close> is of this form with \<open>j \<le> 52\<close>.
\<close>

lemma rate_gt_exact_nat:
  assumes "a \<le> s" and "0 < s" and "j \<le> 52" and "s \<le> 2 ^ (52 - j)"
  shows "of_nat M / 2 ^ j < double_quot a s \<longleftrightarrow> M * s < a * 2 ^ j"
proof (cases "a = 0")
  case True
  then show ?thesis by (simp add: double_quot_def not_less)
next
  case False
  define k where "k = quot_scale a s"
  have k: "52 \<le> k" using quot_scale_ge [OF assms(1)] by (simp add: k_def)
  define T where "T = M * 2 ^ (k - j)"
  have pow: "(2 :: nat) ^ k = 2 ^ j * 2 ^ (k - j)" using k assms(3) by (simp flip: power_add)
  have "of_nat M / 2 ^ j = (of_nat T / 2 ^ k :: rat)"
  proof -
    have "(2 :: rat) ^ k = 2 ^ j * 2 ^ (k - j)" using k assms(3) by (simp flip: power_add)
    then show ?thesis by (simp add: T_def)
  qed
  then have "of_nat M / 2 ^ j < double_quot a s \<longleftrightarrow> T < round_div (a * 2 ^ k) s"
    using False by (simp add: double_quot_def k_def [symmetric] Let_def divide_less_cancel)
  also have "\<dots> \<longleftrightarrow> M * s < a * 2 ^ j"
  proof
    assume lt: "T < round_div (a * 2 ^ k) s"
    show "M * s < a * 2 ^ j"
    proof (rule ccontr)
      assume "\<not> M * s < a * 2 ^ j"
      then have "a * 2 ^ j * 2 ^ (k - j) \<le> M * s * 2 ^ (k - j)" by simp
      then have "a * 2 ^ k \<le> T * s" by (simp add: pow T_def mult_ac)
      from round_div_le [OF this assms(2)] lt show False by simp
    qed
  next
    assume "M * s < a * 2 ^ j"
    then have "(M * s + 1) * 2 ^ (k - j) \<le> a * 2 ^ j * 2 ^ (k - j)" by (intro mult_right_mono) simp_all
    then have "T * s + 2 ^ (k - j) \<le> a * 2 ^ k" by (simp add: pow T_def algebra_simps)
    moreover have "s \<le> 2 ^ (k - j)" using assms(4) k power_increasing [of "52 - j" "k - j" "2 :: nat"] by linarith
    ultimately have "(T + 1) * s \<le> a * 2 ^ k" by (simp add: algebra_simps)
    from round_div_gt [OF this assms(2)] show "T < round_div (a * 2 ^ k) s" .
  qed
  finally show ?thesis .
qed

section \<open>Properties\<close>

text \<open>
  The comparison of a failure (or success) rate with its threshold, computed in \<open>double\<close> with all its rounding,
  is exact for every threshold \<open>M / 2 ^ j\<close> as long as the counters do not wrap and their sum is at most \<open>2 ^ (52 - j)\<close>
  (for the \<open>float\<close> nearest to 0.1, \<open>j\<close> is 27 and the bound is \<open>2 ^ 25\<close> reports in one window).
\<close>

theorem rate_gt_exact:
  assumes "unat x + unat y < 2 ^ 32" and "0 < unat x + unat y" and "j \<le> 52" and "unat x + unat y \<le> 2 ^ (52 - j)"
  shows "rate_gt x (y + x) (of_nat M / 2 ^ j) \<longleftrightarrow> M * (unat x + unat y) < unat x * 2 ^ j"
proof -
  have s: "unat (y + x) = unat x + unat y"
    using assms(1) by (simp add: unat_word_ariths(1) add.commute [of "unat y"])
  then have "y + x \<noteq> 0" using assms(2) by auto
  then show ?thesis using rate_gt_exact_nat [of "unat x" "unat x + unat y" j M] assms(2-4) s
    by (simp add: rate_gt_def)
qed

lemma rate_gt_exact_witness:
  "rate_gt 4 (9 + 4) (of_nat 1 / 2 ^ 2) \<and> \<not> rate_gt 3 (9 + 3) (of_nat 1 / 2 ^ 2)"
proof -
  have "rate_gt 4 (9 + 4) (of_nat 1 / 2 ^ 2) \<longleftrightarrow> 1 * (unat (4 :: u32) + unat (9 :: u32)) < unat (4 :: u32) * 2 ^ 2"
    by (rule rate_gt_exact) simp_all
  moreover have "rate_gt 3 (9 + 3) (of_nat 1 / 2 ^ 2) \<longleftrightarrow> 1 * (unat (3 :: u32) + unat (9 :: u32)) < unat (3 :: u32) * 2 ^ 2"
    by (rule rate_gt_exact) simp_all
  ultimately show ?thesis by simp
qed

end
