(* ===== verification/Config_File.thy ===== *)
theory Config_File
  imports Lars_Base
begin

text \<open>
  \<open>config_file\<close> (\<open>lars_reactors/src/config_file.cpp\<close>): the ini file every process reads at start. The file is
  its content, \<open>None\<close> if it cannot be opened; \<open>_map\<close> is a map of maps. Characters are classified as in the C
  locale. \<open>GetFloat\<close> is not modelled.
\<close>

type_synonym conf = "string \<Rightarrow> (string \<Rightarrow> string option) option"

section \<open>Strings\<close>

definition isspace :: "char \<Rightarrow> bool" where
  "isspace c \<longleftrightarrow> c \<in> {CHR 0x20, CHR 0x09, CHR 0x0A, CHR 0x0B, CHR 0x0C, CHR 0x0D}"

definition trimLeft :: "string \<Rightarrow> string" where "trimLeft s = dropWhile isspace s"
definition trimRight :: "string \<Rightarrow> string" where "trimRight s = rev (dropWhile isspace (rev s))"
definition trim :: "string \<Rightarrow> string" where "trim s = trimLeft (trimRight s)"

text \<open>The name of the section a line opens.\<close>

definition isSection :: "string \<Rightarrow> string option" where
  "isSection line =
     (let s = trim line
      in if s = [] \<or> length s \<le> 2 then None
         else if hd s \<noteq> CHR ''['' \<or> last s \<noteq> CHR '']'' then None
         else Some (trim (take (length s - 2) (drop 1 s))))"

text \<open>\<open>istringstream >> long long\<close>: white space, a sign, digits; out of range is the nearest value, nothing is 0.\<close>

definition isdigit :: "char \<Rightarrow> bool" where
  "isdigit c \<longleftrightarrow> 48 \<le> (of_char c :: nat) \<and> (of_char c :: nat) \<le> 57"

definition digit_val :: "char \<Rightarrow> int" where "digit_val c = int (of_char c) - 48"

definition digits_val :: "string \<Rightarrow> int" where "digits_val ds = foldl (\<lambda>v c. 10 * v + digit_val c) 0 ds"

definition read_ll :: "string \<Rightarrow> int" where
  "read_ll s =
     (let t = dropWhile isspace s;
          neg = (t \<noteq> [] \<and> hd t = CHR ''-'');
          u = (if t \<noteq> [] \<and> (hd t = CHR ''-'' \<or> hd t = CHR ''+'') then tl t else t);
          v = digits_val (takeWhile isdigit u)
      in max (- (2 ^ 63)) (min (2 ^ 63 - 1) (if neg then - v else v)))"

definition parseNumber :: "string \<Rightarrow> u32" where "parseNumber s = word_of_int (read_ll s)"

definition tolower :: "char \<Rightarrow> char" where
  "tolower c = (if 65 \<le> (of_char c :: nat) \<and> (of_char c :: nat) \<le> 90 then char_of ((of_char c :: nat) + 32) else c)"

definition c_str :: "string \<Rightarrow> string" where "c_str s = takeWhile (\<lambda>c. c \<noteq> CHR 0x00) s"

definition strcasecmp_eq :: "string \<Rightarrow> string \<Rightarrow> bool" where
  "strcasecmp_eq s t \<longleftrightarrow> map tolower (c_str s) = map tolower (c_str t)"

section \<open>Loading\<close>

text \<open>The lines \<open>getline\<close> yields until the end of the file; after a final newline there is an empty one.\<close>

fun file_lines :: "string \<Rightarrow> string list" where
  "file_lines [] = [[]]"
| "file_lines (c # cs) =
     (if c = CHR 0x0A then [] # file_lines cs
      else case file_lines cs of [] \<Rightarrow> [[c]] | l # ls \<Rightarrow> (c # l) # ls)"

text \<open>One line, with the section the local variable \<open>m\<close> points to.\<close>

definition load_line :: "string \<Rightarrow> string option \<times> conf \<Rightarrow> (string option \<times> conf) res" where
  "load_line line st =
     (case (st, isSection line) of
        ((m, cf), Some section) \<Rightarrow> Inr (Some section, if cf section = None then cf(section \<mapsto> (\<lambda>_. None)) else cf)
      | ((m, cf), None) \<Rightarrow>
          if CHR ''='' \<notin> set line then Inr (m, cf)
          else (let key = trim (takeWhile (\<lambda>c. c \<noteq> CHR ''='') line);
                    val = trim (tl (dropWhile (\<lambda>c. c \<noteq> CHR ''='') line))
                in if key = [] then Inr (m, cf)
                   else if hd key = CHR ''#'' \<or> hd key = CHR '';'' then Inr (m, cf)
                   else case m of
                          None \<Rightarrow> Inl NullDeref
                        | Some section \<Rightarrow>
                            Inr (m, cf(section \<mapsto> (case cf section of None \<Rightarrow> (\<lambda>_. None) | Some kv \<Rightarrow> kv)(key \<mapsto> val)))))"

fun load_lines :: "string list \<Rightarrow> string option \<times> conf \<Rightarrow> (string option \<times> conf) res" where
  "load_lines [] st = Inr st"
| "load_lines (l # ls) st = rbind (load_line l st) (load_lines ls)"

definition Load :: "string option \<Rightarrow> conf \<Rightarrow> (bool \<times> conf) res" where
  "Load file cf =
     (case file of
        None \<Rightarrow> Inr (False, cf)
      | Some content \<Rightarrow> rbind (load_lines (file_lines content) (None, cf)) (\<lambda>(m, cf'). Inr (True, cf')))"

text \<open>The singleton \<open>config_file::config\<close>.\<close>

definition setPath :: "string option \<Rightarrow> conf option \<Rightarrow> (bool \<times> conf option) res" where
  "setPath file config =
     (if config \<noteq> None then Inl AssertFail
      else rbind (Load file (\<lambda>_. None)) (\<lambda>(ok, cf). Inr (ok, Some cf)))"

definition config_instance :: "conf option \<Rightarrow> conf res" where
  "config_instance config = (case config of None \<Rightarrow> Inl AssertFail | Some cf \<Rightarrow> Inr cf)"

section \<open>Reading\<close>

definition conf_find :: "conf \<Rightarrow> string \<Rightarrow> string \<Rightarrow> string option" where
  "conf_find cf sec key = (case cf sec of None \<Rightarrow> None | Some kv \<Rightarrow> kv key)"

definition GetString :: "conf \<Rightarrow> string \<Rightarrow> string \<Rightarrow> string \<Rightarrow> string" where
  "GetString cf sec key default_value = (case conf_find cf sec key of None \<Rightarrow> default_value | Some v \<Rightarrow> v)"

text \<open>\<open>GetFloat\<close> writes the default with a string stream and reads the result with another; both are parameters.\<close>

definition GetFloat :: "('f \<Rightarrow> string) \<Rightarrow> (string \<Rightarrow> 'f option) \<Rightarrow> 'f \<Rightarrow> conf \<Rightarrow> string \<Rightarrow> string \<Rightarrow> 'f \<Rightarrow> 'f" where
  "GetFloat show_float read_float zero cf sec key default_value =
     (case read_float (GetString cf sec key (show_float default_value)) of None \<Rightarrow> zero | Some f \<Rightarrow> f)"

definition GetNumber :: "conf \<Rightarrow> string \<Rightarrow> string \<Rightarrow> u32 \<Rightarrow> u32" where
  "GetNumber cf sec key default_value = (case conf_find cf sec key of None \<Rightarrow> default_value | Some v \<Rightarrow> parseNumber v)"

definition GetBool :: "conf \<Rightarrow> string \<Rightarrow> string \<Rightarrow> bool \<Rightarrow> bool" where
  "GetBool cf sec key default_value =
     (case conf_find cf sec key of
        None \<Rightarrow> default_value
      | Some v \<Rightarrow> if strcasecmp_eq v ''true'' then True else default_value)"

definition is_sep :: "char \<Rightarrow> bool" where
  "is_sep c \<longleftrightarrow> c \<in> {CHR '','', CHR 0x20, CHR 0x09}"

function list_items :: "string \<Rightarrow> string list" where
  "list_items str =
     (let substr = takeWhile (\<lambda>c. \<not> is_sep c) str; rest = dropWhile (\<lambda>c. \<not> is_sep c) str
      in if rest = [] then [str]
         else if dropWhile is_sep rest = [] then [substr]
         else substr # list_items (dropWhile is_sep rest))"
  by auto
termination
proof (relation "measure length", simp, goal_cases)
  case (1 str substr rest)
  then have rest: "rest = dropWhile (\<lambda>c. \<not> is_sep c) str" "rest \<noteq> []" by auto
  then obtain c cs where r: "rest = c # cs" by (meson neq_Nil_conv)
  have "\<not> \<not> is_sep (hd rest)" using rest hd_dropWhile [of "\<lambda>c. \<not> is_sep c" str] by metis
  with r have "length (dropWhile is_sep rest) \<le> length cs" by (simp add: length_dropWhile_le)
  moreover have "length rest \<le> length str" unfolding rest(1) by (rule length_dropWhile_le)
  ultimately show ?case using r by simp
qed

declare list_items.simps [simp del]

definition GetStringList :: "conf \<Rightarrow> string \<Rightarrow> string \<Rightarrow> string list" where
  "GetStringList cf sec key = list_items (GetString cf sec key [])"

section \<open>Lemmas\<close>

text \<open>A string without white space at either end.\<close>

definition trimmed :: "string \<Rightarrow> bool" where
  "trimmed s \<longleftrightarrow> s = [] \<or> \<not> isspace (hd s) \<and> \<not> isspace (last s)"

lemma trimLeft_blank: "\<forall>c \<in> set ws. isspace c \<Longrightarrow> trimLeft (ws @ s) = trimLeft s"
  by (simp add: trimLeft_def dropWhile_append2)

lemma trimRight_blank: "\<forall>c \<in> set ws. isspace c \<Longrightarrow> trimRight (s @ ws) = trimRight s"
  unfolding trimRight_def rev_append by (subst dropWhile_append2) auto

lemma trimLeft_trimmed: "trimmed s \<Longrightarrow> trimLeft s = s"
  by (cases s) (auto simp: trimLeft_def trimmed_def)

lemma trimRight_trimmed: "trimmed s \<Longrightarrow> trimRight s = s"
  by (cases s rule: rev_cases) (auto simp: trimRight_def trimmed_def)

lemma trim_blanks:
  assumes "trimmed s" and "\<forall>c \<in> set ws. isspace c" and "\<forall>c \<in> set ws'. isspace c"
  shows "trim (ws @ s @ ws') = s"
proof (cases "s = []")
  case True
  have "trimRight (ws @ ws') = []" using trimRight_blank [of "ws @ ws'" "[]"] assms(2,3) by (auto simp: trimRight_def)
  then show ?thesis using True by (simp add: trim_def trimLeft_def)
next
  case False
  then obtain s' c where s: "s = s' @ [c]" "\<not> isspace c"
    using assms(1) by (cases s rule: rev_cases) (auto simp: trimmed_def)
  have "trimRight (ws @ s @ ws') = trimRight (ws @ s)" using trimRight_blank [of ws' "ws @ s"] assms(3) by simp
  also have "\<dots> = ws @ s" using s by (simp add: trimRight_def)
  finally show ?thesis using trimLeft_blank [OF assms(2), of s] trimLeft_trimmed [OF assms(1)] by (simp add: trim_def)
qed

lemma trim_id: "trimmed s \<Longrightarrow> trim s = s"
  using trim_blanks [of s "[]" "[]"] by simp

lemma trim_hd: "\<not> isspace c \<Longrightarrow> \<exists>t. trim (c # cs) = c # t"
proof -
  assume c: "\<not> isspace c"
  have "\<exists>t. trimRight (c # cs) = c # t"
  proof (cases "dropWhile isspace (rev cs) = []")
    case True
    then show ?thesis using c by (auto simp: trimRight_def dropWhile_append dropWhile_eq_Nil_conv)
  next
    case False
    then have "trimRight (c # cs) = c # rev (dropWhile isspace (rev cs))"
      by (auto simp: trimRight_def dropWhile_append dropWhile_eq_Nil_conv)
    then show ?thesis by blast
  qed
  then show ?thesis using c by (auto simp: trim_def trimLeft_def)
qed

lemma isSection_bracket:
  assumes "sec \<noteq> []" and "trimmed sec"
  shows "isSection (''['' @ sec @ '']'') = Some sec"
proof -
  have "trimmed (''['' @ sec @ '']'')" by (simp add: trimmed_def isspace_def)
  then have t: "trim (''['' @ sec @ '']'') = ''['' @ sec @ '']''" by (rule trim_id)
  show ?thesis using assms trim_id [of sec] unfolding isSection_def t Let_def by simp
qed

lemma isSection_other: "\<not> isspace c \<Longrightarrow> c \<noteq> CHR ''['' \<Longrightarrow> isSection (c # cs) = None"
  using trim_hd [of c cs] by (auto simp: isSection_def Let_def)

text \<open>A configuration as a list of sections, and its text. \<open>pad\<close> is the white space around \<open>=\<close>.\<close>

datatype conf_item = Entry string string | Remark string

definition render_item :: "string \<Rightarrow> conf_item \<Rightarrow> string" where
  "render_item pad it = (case it of Entry k v \<Rightarrow> k @ pad @ ''='' @ pad @ v | Remark t \<Rightarrow> CHR ''#'' # t)"

definition render_section :: "string \<Rightarrow> string \<times> conf_item list \<Rightarrow> string list" where
  "render_section pad s = (''['' @ fst s @ '']'') # map (render_item pad) (snd s)"

definition render :: "string \<Rightarrow> (string \<times> conf_item list) list \<Rightarrow> string" where
  "render pad ss = concat (map (\<lambda>l. l @ [CHR 0x0A]) (concat (map (render_section pad) ss)))"

definition one_line :: "string \<Rightarrow> bool" where "one_line s \<longleftrightarrow> CHR 0x0A \<notin> set s"

definition item_ok :: "conf_item \<Rightarrow> bool" where
  "item_ok it = (case it of
     Entry k v \<Rightarrow> trimmed k \<and> one_line k \<and> k \<noteq> [] \<and> CHR ''='' \<notin> set k \<and> hd k \<notin> {CHR ''['', CHR ''#'', CHR '';''} \<and>
       trimmed v \<and> one_line v
   | Remark t \<Rightarrow> one_line t)"

definition section_ok :: "string \<times> conf_item list \<Rightarrow> bool" where
  "section_ok s \<longleftrightarrow> trimmed (fst s) \<and> one_line (fst s) \<and> fst s \<noteq> [] \<and> (\<forall>it \<in> set (snd s). item_ok it)"

definition pad_ok :: "string \<Rightarrow> bool" where "pad_ok pad \<longleftrightarrow> (\<forall>c \<in> set pad. isspace c) \<and> one_line pad"

definition item_entries :: "string \<Rightarrow> conf_item list \<Rightarrow> ((string \<times> string) \<times> string) list" where
  "item_entries sec items = concat (map (\<lambda>it. case it of Entry k v \<Rightarrow> [((sec, k), v)] | Remark t \<Rightarrow> []) items)"

definition entries :: "(string \<times> conf_item list) list \<Rightarrow> ((string \<times> string) \<times> string) list" where
  "entries ss = concat (map (\<lambda>(sec, items). item_entries sec items) ss)"

lemma file_lines_line: "one_line l \<Longrightarrow> file_lines (l @ CHR 0x0A # rest) = l # file_lines rest"
  by (induction l) (auto simp: one_line_def)

lemma file_lines_concat:
  "\<forall>l \<in> set ls. one_line l \<Longrightarrow> file_lines (concat (map (\<lambda>l. l @ [CHR 0x0A]) ls)) = ls @ [[]]"
  by (induction ls) (simp_all add: file_lines_line)

lemma load_lines_append: "load_lines (ls @ ls') st = rbind (load_lines ls st) (load_lines ls')"
  by (induction ls st rule: load_lines.induct) (auto simp: rbind_assoc intro!: rbind_cong)

lemma until_first:
  "x \<notin> set a \<Longrightarrow> takeWhile (\<lambda>c. c \<noteq> x) (a @ x # b) = a \<and> dropWhile (\<lambda>c. c \<noteq> x) (a @ x # b) = x # b"
  by (induction a) auto

lemma load_entry:
  assumes "item_ok (Entry k v)" and "pad_ok pad"
  shows "load_line (render_item pad (Entry k v)) (m, cf) =
    (case m of
       None \<Rightarrow> Inl NullDeref
     | Some sec \<Rightarrow> Inr (m, cf(sec \<mapsto> (case cf sec of None \<Rightarrow> (\<lambda>_. None) | Some kv \<Rightarrow> kv)(k \<mapsto> v))))"
proof -
  obtain c cs where k: "k = c # cs" "\<not> isspace c" "c \<noteq> CHR ''[''" "c \<noteq> CHR ''#''" "c \<noteq> CHR '';''"
    using assms(1) by (cases k) (auto simp: item_ok_def trimmed_def)
  have "\<not> isspace (CHR ''='')" by (simp add: isspace_def)
  then have "CHR ''='' \<notin> set (k @ pad)" using assms unfolding item_ok_def pad_ok_def by auto
  let ?l = "render_item pad (Entry k v)"
  have l: "?l = (k @ pad) @ CHR ''='' # pad @ v" by (simp add: render_item_def)
  have sec: "isSection ?l = None" using isSection_other [OF k(2,3)] by (simp add: render_item_def k(1))
  have tw: "takeWhile (\<lambda>c. c \<noteq> CHR ''='') ?l = k @ pad" "tl (dropWhile (\<lambda>c. c \<noteq> CHR ''='') ?l) = pad @ v"
    unfolding l using until_first [of "CHR ''=''" "k @ pad" "pad @ v"] \<open>CHR ''='' \<notin> set (k @ pad)\<close> by simp_all
  have "trim (k @ pad) = k" "trim (pad @ v) = v"
    using trim_blanks [of k "[]" pad] trim_blanks [of v pad "[]"] assms by (simp_all add: item_ok_def pad_ok_def)
  moreover have "CHR ''='' \<in> set ?l" by (simp add: render_item_def)
  ultimately show ?thesis
    using k unfolding load_line_def sec tw by (cases m) (simp_all add: Let_def)
qed

lemma load_remark:
  assumes "item_ok (Remark t)"
  shows "load_line (render_item pad (Remark t)) st = Inr st"
proof -
  obtain m cf where st: "st = (m, cf)" by (cases st)
  have sec: "isSection (CHR ''#'' # t) = None" by (rule isSection_other) (simp_all add: isspace_def)
  obtain t' where "trim (CHR ''#'' # takeWhile (\<lambda>c. c \<noteq> CHR ''='') t) = CHR ''#'' # t'"
    using trim_hd [of "CHR ''#''"] by (auto simp: isspace_def)
  then show ?thesis by (simp add: render_item_def load_line_def sec st Let_def)
qed

lemma load_items:
  assumes "\<forall>it \<in> set items. item_ok it" and "pad_ok pad" and "cf sec \<noteq> None"
  shows "\<exists>cf'. load_lines (map (render_item pad) items) (Some sec, cf) = Inr (Some sec, cf') \<and>
    (\<forall>s k. conf_find cf' s k = (case map_of (rev (item_entries sec items)) (s, k) of None \<Rightarrow> conf_find cf s k | Some v \<Rightarrow> Some v))"
  using assms
proof (induction items arbitrary: cf)
  case Nil
  then show ?case by (simp add: item_entries_def)
next
  case (Cons it items)
  show ?case
  proof (cases it)
    case (Entry k v)
    let ?cf = "cf(sec \<mapsto> (case cf sec of None \<Rightarrow> (\<lambda>_. None) | Some kv \<Rightarrow> kv)(k \<mapsto> v))"
    have "load_line (render_item pad it) (Some sec, cf) = Inr (Some sec, ?cf)"
      using load_entry [of k v pad "Some sec" cf] Cons.prems Entry by simp
    moreover obtain cf' where "load_lines (map (render_item pad) items) (Some sec, ?cf) = Inr (Some sec, cf')"
        "\<forall>s k. conf_find cf' s k = (case map_of (rev (item_entries sec items)) (s, k) of None \<Rightarrow> conf_find ?cf s k | Some v \<Rightarrow> Some v)"
    proof -
      have "\<forall>it \<in> set items. item_ok it" "?cf sec \<noteq> None" using Cons.prems(1) by auto
      from Cons.IH [where cf = ?cf, OF this(1) Cons.prems(2) this(2)] show thesis using that by blast
    qed
    ultimately show ?thesis using Entry
      by (auto simp: item_entries_def conf_find_def map_add_def split: option.splits)
  next
    case (Remark t)
    have "load_line (render_item pad it) (Some sec, cf) = Inr (Some sec, cf)"
      using load_remark Cons.prems(1) Remark by simp
    then show ?thesis using Cons.IH [of cf] Cons.prems Remark by (simp add: item_entries_def)
  qed
qed

lemma load_sections:
  assumes "\<forall>s \<in> set ss. section_ok s" and "pad_ok pad"
  shows "\<exists>m' cf'. load_lines (concat (map (render_section pad) ss)) (m, cf) = Inr (m', cf') \<and>
    (\<forall>s k. conf_find cf' s k = (case map_of (rev (entries ss)) (s, k) of None \<Rightarrow> conf_find cf s k | Some v \<Rightarrow> Some v))"
  using assms
proof (induction ss arbitrary: m cf)
  case Nil
  then show ?case by (simp add: entries_def)
next
  case (Cons x ss)
  obtain sec items where x: "x = (sec, items)" by (cases x)
  let ?cf = "if cf sec = None then cf(sec \<mapsto> (\<lambda>_. None)) else cf"
  have sec: "load_line (''['' @ sec @ '']'') (m, cf) = Inr (Some sec, ?cf)"
    using isSection_bracket [of sec] Cons.prems(1) x by (simp add: load_line_def section_ok_def)
  have f: "conf_find ?cf s k = conf_find cf s k" for s k by (simp add: conf_find_def)
  obtain cf1 where cf1: "load_lines (map (render_item pad) items) (Some sec, ?cf) = Inr (Some sec, cf1)"
      "\<forall>s k. conf_find cf1 s k = (case map_of (rev (item_entries sec items)) (s, k) of None \<Rightarrow> conf_find cf s k | Some v \<Rightarrow> Some v)"
  proof -
    have "\<forall>it \<in> set items. item_ok it" "?cf sec \<noteq> None" using Cons.prems(1) x by (auto simp: section_ok_def)
    from load_items [where cf = ?cf and sec = sec, OF this(1) Cons.prems(2) this(2)] show thesis unfolding f using that by blast
  qed
  obtain m' cf' where cf': "load_lines (concat (map (render_section pad) ss)) (Some sec, cf1) = Inr (m', cf')"
      "\<forall>s k. conf_find cf' s k = (case map_of (rev (entries ss)) (s, k) of None \<Rightarrow> conf_find cf1 s k | Some v \<Rightarrow> Some v)"
    using Cons.IH [of "Some sec" cf1] Cons.prems by auto
  have "load_lines (concat (map (render_section pad) (x # ss))) (m, cf) = Inr (m', cf')"
    using sec cf1(1) cf'(1) by (simp add: x render_section_def load_lines_append)
  then show ?case using cf1(2) cf'(2)
    by (intro exI [of _ m'] exI [of _ cf']) (auto simp: x entries_def map_add_def split: option.splits)
qed

text \<open>Numbers as they are written in the file.\<close>

fun show_nat :: "nat \<Rightarrow> string" where
  "show_nat n = (if n < 10 then [char_of (48 + n)] else show_nat (n div 10) @ [char_of (48 + n mod 10)])"

declare show_nat.simps [simp del]

lemma digit_char:
  assumes "n < 10"
  shows "isdigit (char_of (48 + n))" and "digit_val (char_of (48 + n)) = int n" and "\<not> isspace (char_of (48 + n))"
    and "(char_of (48 + n) :: char) \<noteq> CHR ''-''" and "(char_of (48 + n) :: char) \<noteq> CHR ''+''"
proof -
  have v: "of_char (char_of (48 + n) :: char) = 48 + n" using assms by (simp add: of_char_of)
  then show "isdigit (char_of (48 + n))" "digit_val (char_of (48 + n)) = int n"
    using assms by (simp_all add: isdigit_def digit_val_def)
  have ne: "(char_of (48 + n) :: char) \<noteq> c" if "(of_char c :: nat) < 48" for c using v that by auto
  show "\<not> isspace (char_of (48 + n))" "(char_of (48 + n) :: char) \<noteq> CHR ''-''" "(char_of (48 + n) :: char) \<noteq> CHR ''+''"
    unfolding isspace_def using ne by auto
qed

lemma show_nat_props:
  "(\<forall>c \<in> set (show_nat n). isdigit c) \<and> digits_val (show_nat n) = int n \<and> show_nat n \<noteq> [] \<and>
   \<not> isspace (hd (show_nat n)) \<and> hd (show_nat n) \<noteq> CHR ''-'' \<and> hd (show_nat n) \<noteq> CHR ''+''"
proof (induction n rule: show_nat.induct)
  case (1 n)
  show ?case
  proof (cases "n < 10")
    case True
    then show ?thesis using digit_char [OF True] by (simp add: show_nat.simps [of n] digits_val_def)
  next
    case False
    have m: "n mod 10 < 10" by simp
    have "10 * int (n div 10) + int (n mod 10) = int n" by (metis mult_div_mod_eq of_nat_add of_nat_mult of_nat_numeral)
    then show ?thesis using 1 False digit_char [OF m] by (simp add: show_nat.simps [of n] digits_val_def)
  qed
qed

lemma read_ll_show:
  assumes "\<forall>c \<in> set ws. isspace c" and "n < 2 ^ 63" and "junk = [] \<or> \<not> isdigit (hd junk)"
  shows "read_ll (ws @ show_nat n @ junk) = int n"
proof -
  have d: "\<forall>c \<in> set (show_nat n). isdigit c" "digits_val (show_nat n) = int n" and
    h: "show_nat n \<noteq> []" "\<not> isspace (hd (show_nat n))" "hd (show_nat n) \<noteq> CHR ''-''" "hd (show_nat n) \<noteq> CHR ''+''"
    using show_nat_props [of n] by blast+
  obtain c cs where c: "show_nat n = c # cs" using h(1) by (cases "show_nat n") auto
  have t: "dropWhile isspace (ws @ show_nat n @ junk) = c # cs @ junk"
    using assms(1) h(2) c by (simp add: dropWhile_append2)
  have "takeWhile isdigit (show_nat n @ junk) = show_nat n"
    using d(1) assms(3) by (cases junk) (simp_all add: takeWhile_append2)
  then have tw: "takeWhile isdigit (c # cs @ junk) = show_nat n" using c by simp
  have "int n < 2 ^ 63" using assms(2) by (metis of_nat_less_iff of_nat_numeral of_nat_power)
  then show ?thesis using h(3,4) c d(2) unfolding read_ll_def t Let_def
    by (simp add: tw del: takeWhile.simps)
qed

lemma set_path_render:
  assumes "\<forall>s \<in> set ss. section_ok s" and "pad_ok pad"
  shows "\<exists>cf. setPath (Some (render pad ss)) None = Inr (True, Some cf) \<and>
    (\<forall>sec key. conf_find cf sec key = map_of (rev (entries ss)) (sec, key))"
proof -
  let ?ls = "concat (map (render_section pad) ss)"
  have "one_line l" if "it \<in> set (snd s)" "s \<in> set ss" "l = render_item pad it" for l it s
    using that assms by (fastforce simp: section_ok_def item_ok_def one_line_def pad_ok_def render_item_def split: conf_item.splits)
  then have "\<forall>l \<in> set ?ls. one_line l"
    using assms(1) by (fastforce simp: render_section_def section_ok_def one_line_def)
  then have lines: "file_lines (render pad ss) = ?ls @ [[]]" by (simp add: render_def file_lines_concat)
  obtain m' cf where cf: "load_lines ?ls (None, \<lambda>_. None) = Inr (m', cf)"
      "\<forall>s k. conf_find cf s k = (case map_of (rev (entries ss)) (s, k) of None \<Rightarrow> conf_find (\<lambda>_. None) s k | Some v \<Rightarrow> Some v)"
    using load_sections [OF assms, of None "\<lambda>_. None"] by blast
  have "load_line [] (m', cf) = Inr (m', cf)"
    by (simp add: load_line_def isSection_def trim_def trimLeft_def trimRight_def)
  with cf(1) have "setPath (Some (render pad ss)) None = Inr (True, Some cf)"
    by (simp add: setPath_def Load_def lines load_lines_append)
  with cf(2) show ?thesis by (auto simp: conf_find_def split: option.splits)
qed

section \<open>Properties\<close>

text \<open>
  C24: loading a configuration file. For any sections, entries and remarks in their usual form, with any white
  space around \<open>=\<close>, every look-up in the loaded file gives the last value the file assigns to that key of
  that section, and the default for a key it does not mention. A section may be opened more than once.
\<close>

theorem load_render:
  assumes "\<forall>s \<in> set ss. section_ok s" and "pad_ok pad"
  shows "\<exists>cf. setPath (Some (render pad ss)) None = Inr (True, Some cf) \<and>
    (\<forall>sec key d. GetString cf sec key d = (case map_of (rev (entries ss)) (sec, key) of None \<Rightarrow> d | Some v \<Rightarrow> v))"
  using set_path_render [OF assms] by (fastforce simp: GetString_def)

lemma load_render_witness:
  "\<exists>cf. setPath (Some (render '' '' [(''reactor'', [Entry ''ip'' ''127.0.0.1'', Remark '' port = 1'', Entry ''port'' ''7777'', Entry ''ip'' ''0.0.0.0''])]))
      None = Inr (True, Some cf) \<and>
    GetString cf ''reactor'' ''ip'' ''x'' = ''0.0.0.0'' \<and> GetString cf ''reactor'' ''maxConn'' ''8'' = ''8''"
  using load_render [of "[(''reactor'', [Entry ''ip'' ''127.0.0.1'', Remark '' port = 1'', Entry ''port'' ''7777'', Entry ''ip'' ''0.0.0.0''])]" "'' ''"]
  by (auto simp: section_ok_def item_ok_def trimmed_def one_line_def pad_ok_def isspace_def entries_def item_entries_def)

text \<open>
  An entry before the first section makes \<open>Load\<close> use the null pointer \<open>m\<close>, whatever remarks come before
  and whatever follows.
\<close>

theorem load_entry_first:
  assumes "\<forall>t \<in> set ts. one_line t" and "item_ok (Entry k v)" and "pad_ok pad"
  shows "Load (Some (concat (map (\<lambda>t. ''#'' @ t @ [CHR 0x0A]) ts) @ render_item pad (Entry k v) @ CHR 0x0A # rest)) cf = Inl NullDeref"
proof -
  have one: "one_line (render_item pad (Entry k v))"
    using assms by (simp add: render_item_def item_ok_def one_line_def pad_ok_def)
  have "load_line (render_item pad (Entry k v)) (None, cf) = Inl NullDeref"
    using load_entry [OF assms(2,3), of None] by simp
  then have base: "load_lines (file_lines (render_item pad (Entry k v) @ CHR 0x0A # rest)) (None, cf) = Inl NullDeref"
    using file_lines_line [OF one] by simp
  have "load_lines (file_lines (concat (map (\<lambda>t. ''#'' @ t @ [CHR 0x0A]) ts) @ render_item pad (Entry k v) @ CHR 0x0A # rest)) (None, cf)
      = Inl NullDeref"
    using assms(1)
  proof (induction ts)
    case (Cons t ts)
    have "one_line (''#'' @ t)" using Cons.prems by (simp add: one_line_def)
    from file_lines_line [OF this] show ?case
      using Cons load_remark [of t "[]" "(None, cf)"] by (simp add: item_ok_def render_item_def)
  qed (use base in simp)
  then show ?thesis by (simp add: Load_def)
qed

lemma load_entry_first_witness:
  "Load (Some (concat (map (\<lambda>t. ''#'' @ t @ [CHR 0x0A]) ['' lars'']) @ render_item [] (Entry ''ip'' ''0'') @ CHR 0x0A # [])) (\<lambda>_. None) = Inl NullDeref"
  by (rule load_entry_first) (simp_all add: one_line_def item_ok_def trimmed_def pad_ok_def isspace_def)

text \<open>
  What numbers and truth values mean. A decimal number below \<open>2 ^ 63\<close>, with anything but a digit behind it, is
  read modulo \<open>2 ^ 32\<close>; and \<open>GetBool\<close> never returns false for a key whose default is true, whatever the file says.
\<close>

theorem get_number_bool:
  assumes "conf_find cf sec key = Some (ws @ show_nat n @ junk)" and "\<forall>c \<in> set ws. isspace c"
    and "n < 2 ^ 63" and "junk = [] \<or> \<not> isdigit (hd junk)"
  shows "GetNumber cf sec key d = of_nat n \<and> uint (GetNumber cf sec key d) = int n mod 2 ^ 32 \<and> GetBool cf sec' key' True"
proof -
  have "GetNumber cf sec key d = of_nat n"
    using read_ll_show [OF assms(2-4)] assms(1) by (simp add: GetNumber_def parseNumber_def)
  then show ?thesis by (simp add: GetBool_def unsigned_of_nat take_bit_eq_mod zmod_int split: option.split)
qed

lemma get_number_bool_witness:
  "let cf = [''reactor'' \<mapsto> [''port'' \<mapsto> '' '' @ show_nat 4294967297 @ '';'']]
   in GetNumber cf ''reactor'' ''port'' 0 = 1 \<and> GetBool cf ''reactor'' ''port'' True"
  using get_number_bool [of "[''reactor'' \<mapsto> [''port'' \<mapsto> '' '' @ show_nat 4294967297 @ '';'']]" "''reactor''" "''port''" "'' ''" 4294967297 "'';''" 0]
  by (simp add: conf_find_def isspace_def isdigit_def Let_def)

end
