(* ===== verification/Lars_Api.thy ===== *)
theory Lars_Api
  imports Io_Buf Message Host_Info Config_File
begin

text \<open>
  The client library (\<open>lars/api/cpp/lars_api/lars_api.cpp\<close>): three blocking UDP sockets to the agent's three
  servers, one of which serves a (modid, cmdid). A protobuf message is encoded and decoded by parameters;
  \<open>None\<close> is a message that does not parse. What \<open>recvfrom\<close> yields is an argument, what is sent is the
  list of (socket index, datagram).
\<close>

record get_host_request =
  hq_seq :: u32
  hq_modid :: i32
  hq_cmdid :: i32

record get_host_response =
  hr_seq :: u32
  hr_modid :: i32
  hr_cmdid :: i32
  hr_retcode :: ret_code
  hr_host :: "u32 \<times> i32"          \<comment> \<open>ip as sent, port\<close>

record route_response =
  rr_modid :: i32
  rr_cmdid :: i32
  rr_hosts :: "(u32 \<times> i32) list"

record report_request =
  pq_modid :: i32
  pq_cmdid :: i32
  pq_retcode :: i32
  pq_host :: "u32 \<times> i32"

record api_proto =
  host_req_bytes :: "get_host_request \<Rightarrow> u8 list"
  route_req_bytes :: "i32 \<times> i32 \<Rightarrow> u8 list"
  report_req_bytes :: "report_request \<Rightarrow> u8 list"
  parse_host_rsp :: "u8 list \<Rightarrow> int \<Rightarrow> get_host_response option"
  parse_route_rsp :: "u8 list \<Rightarrow> int \<Rightarrow> route_response option"
  ID_GetHostRequest :: int
  ID_GetHostResponse :: int
  ID_ReportRequest :: int
  ID_API_GetRouteRequest :: int
  ID_API_GetRouteResponse :: int

text \<open>\<open>read_buf\<close> is not initialised: it starts as any bytes.\<close>

record api =
  seqid :: u32
  api_sent :: "(nat \<times> u8 list) list"

datatype api_recv = Got "u8 list" | RecvFailed

section \<open>The standard library\<close>

text \<open>\<open>s_addr\<close> holds the address in network order, in memory \<open>le32\<close>; \<open>inet_ntoa\<close> writes its bytes.\<close>

definition inet_ntoa :: "u32 \<Rightarrow> string" where
  "inet_ntoa a = (case map (\<lambda>b. show_nat (unat b)) (le32 a) of
     [w, x, y, z] \<Rightarrow> w @ ''.'' @ x @ ''.'' @ y @ ''.'' @ z | _ \<Rightarrow> [])"

definition ntohl :: "u32 \<Rightarrow> u32" where "ntohl a = un32 (rev (le32 a))"

section \<open>The operations\<close>

text \<open>\<open>(modid + cmdid) % 3\<close> as an index into \<open>_sockfd\<close>.\<close>

definition sock_index :: "i32 \<Rightarrow> i32 \<Rightarrow> nat res" where
  "sock_index modid cmdid =
     rbind (cint_add (sint modid) (sint cmdid)) (\<lambda>s.
       let index = c_rem s 3 in if 0 \<le> index \<and> index < 3 then Inr (nat index) else Inl OutOfBounds)"

text \<open>Building a message in \<open>write_buf[4096]\<close> and sending it; \<open>sent_ok\<close> is whether \<open>sendto\<close> succeeds.\<close>

definition api_send :: "bool \<Rightarrow> i32 \<Rightarrow> i32 \<Rightarrow> int \<Rightarrow> u8 list \<Rightarrow> api \<Rightarrow> (int \<times> api) res" where
  "api_send sent_ok modid cmdid i body st =
     (let head = \<lparr>msgid = i, msglen = int (length body)\<rparr>
      in if 4096 < msglen head + MESSAGE_HEAD_LEN then Inl OutOfBounds
         else rbind (sock_index modid cmdid) (\<lambda>index.
           if sent_ok then Inr (msglen head + MESSAGE_HEAD_LEN, st\<lparr>api_sent := api_sent st @ [(index, encode_head head @ body)]\<rparr>)
           else Inr (- 1, st)))"

text \<open>
  The receiving loop of \<open>get_host\<close>: until a response whose number is not less than \<open>seq\<close>; \<open>None\<close> is a return
  with \<open>RET_SYSTEM_ERROR\<close>.
\<close>

fun recv_host :: "api_proto \<Rightarrow> u32 \<Rightarrow> (int \<Rightarrow> u8) \<Rightarrow> api_recv list \<Rightarrow> get_host_response option res" where
  "recv_host pb seq read_buf [] = Inl Blocked"
| "recv_host pb seq read_buf (RecvFailed # rs) = Inr None"
| "recv_host pb seq read_buf (Got dgram # rs) =
     (let bytes = take 81920 dgram;
          message_len = int (length bytes);
          read_buf' = mem_write read_buf 0 bytes;
          head = decode_head (mem_read read_buf' 0 MESSAGE_HEAD_LEN)
      in if msgid head \<noteq> ID_GetHostResponse pb then Inr None
         else case parse_host_rsp pb (mem_read read_buf' MESSAGE_HEAD_LEN (message_len - MESSAGE_HEAD_LEN)) (message_len - MESSAGE_HEAD_LEN) of
                None \<Rightarrow> Inr None
              | Some rsp \<Rightarrow> if hr_seq rsp < seq then recv_host pb seq read_buf' rs else Inr (Some rsp))"

text \<open>The result is the return code and, if it was set, the host.\<close>

definition api_get_host ::
  "api_proto \<Rightarrow> bool \<Rightarrow> (int \<Rightarrow> u8) \<Rightarrow> api_recv list \<Rightarrow> i32 \<Rightarrow> i32 \<Rightarrow> api \<Rightarrow> (ret_code \<times> (string \<times> i32) option \<times> api) res" where
  "api_get_host pb sent_ok read_buf rs modid cmdid st =
     (let seq = seqid st;
          st1 = st\<lparr>seqid := seq + 1\<rparr>;
          req = \<lparr>hq_seq = seq, hq_modid = modid, hq_cmdid = cmdid\<rparr>
      in rbind (api_send sent_ok modid cmdid (ID_GetHostRequest pb) (host_req_bytes pb req) st1) (\<lambda>(ret, st2).
           if ret = - 1 then Inr (RET_SYSTEM_ERROR, None, st2)
           else rbind (recv_host pb seq read_buf rs) (\<lambda>r.
             case r of
               None \<Rightarrow> Inr (RET_SYSTEM_ERROR, None, st2)
             | Some rsp \<Rightarrow>
                 if hr_seq rsp \<noteq> seq \<or> hr_modid rsp \<noteq> modid \<or> hr_cmdid rsp \<noteq> cmdid then Inr (RET_SYSTEM_ERROR, None, st2)
                 else Inr (hr_retcode rsp,
                        if hr_retcode rsp = RET_SUCC then Some (inet_ntoa (fst (hr_host rsp)), snd (hr_host rsp)) else None,
                        st2))))"

text \<open>\<open>report\<close>; \<open>inet_aton\<close> of the caller's string is given as the address it stores.\<close>

definition api_report :: "api_proto \<Rightarrow> bool \<Rightarrow> i32 \<Rightarrow> i32 \<Rightarrow> u32 \<Rightarrow> i32 \<Rightarrow> i32 \<Rightarrow> api \<Rightarrow> api res" where
  "api_report pb sent_ok modid cmdid ip_num port retcode st =
     (let req = \<lparr>pq_modid = modid, pq_cmdid = cmdid, pq_retcode = retcode, pq_host = (ip_num, port)\<rparr>
      in rbind (api_send sent_ok modid cmdid (ID_ReportRequest pb) (report_req_bytes pb req) st) (\<lambda>(ret, st1). Inr st1))"

text \<open>\<open>get_route\<close> appends to the caller's list.\<close>

definition api_get_route ::
  "api_proto \<Rightarrow> bool \<Rightarrow> (int \<Rightarrow> u8) \<Rightarrow> api_recv list \<Rightarrow> i32 \<Rightarrow> i32 \<Rightarrow> (string \<times> i32) list \<Rightarrow> api \<Rightarrow>
   (ret_code \<times> (string \<times> i32) list \<times> api) res" where
  "api_get_route pb sent_ok read_buf rs modid cmdid route st =
     rbind (api_send sent_ok modid cmdid (ID_API_GetRouteRequest pb) (route_req_bytes pb (modid, cmdid)) st) (\<lambda>(ret, st1).
       if ret = - 1 then Inr (RET_SYSTEM_ERROR, route, st1)
       else case rs of
              [] \<Rightarrow> Inl Blocked
            | RecvFailed # _ \<Rightarrow> Inr (RET_SYSTEM_ERROR, route, st1)
            | Got dgram # _ \<Rightarrow>
                (let bytes = take 81920 dgram;
                     message_len = int (length bytes);
                     read_buf' = mem_write read_buf 0 bytes;
                     head = decode_head (mem_read read_buf' 0 MESSAGE_HEAD_LEN)
                 in if msgid head \<noteq> ID_API_GetRouteResponse pb then Inr (RET_SYSTEM_ERROR, route, st1)
                    else case parse_route_rsp pb (mem_read read_buf' MESSAGE_HEAD_LEN (message_len - MESSAGE_HEAD_LEN))
                                (message_len - MESSAGE_HEAD_LEN) of
                           None \<Rightarrow> Inr (RET_SYSTEM_ERROR, route, st1)
                         | Some rsp \<Rightarrow>
                             if rr_modid rsp \<noteq> modid \<or> rr_cmdid rsp \<noteq> cmdid then Inr (RET_SYSTEM_ERROR, route, st1)
                             else Inr (RET_SUCC, route @ map (\<lambda>(ip, port). (inet_ntoa (ntohl ip), port)) (rr_hosts rsp), st1)))"

text \<open>
  \<open>reg_init\<close>: at most three calls of \<open>get_route\<close>, whose return code it ignores. Each call has its own
  \<open>sendto\<close> result, uninitialised buffer and received datagram.
\<close>

fun reg_loop ::
  "nat \<Rightarrow> api_proto \<Rightarrow> (bool \<times> (int \<Rightarrow> u8) \<times> api_recv list) list \<Rightarrow> i32 \<Rightarrow> i32 \<Rightarrow> (string \<times> i32) list \<Rightarrow> api \<Rightarrow>
   ((string \<times> i32) list \<times> api) res" where
  "reg_loop 0 pb calls modid cmdid route st = Inr (route, st)"
| "reg_loop (Suc k) pb calls modid cmdid route st =
     (if route \<noteq> [] then Inr (route, st)
      else case calls of
             [] \<Rightarrow> Inl Blocked
           | (ok, buf, rs) # calls' \<Rightarrow>
               rbind (api_get_route pb ok buf rs modid cmdid route st) (\<lambda>(ret, route', st').
                 if route' = [] then reg_loop k pb calls' modid cmdid route' st' else Inr (route', st')))"

definition reg_init ::
  "api_proto \<Rightarrow> (bool \<times> (int \<Rightarrow> u8) \<times> api_recv list) list \<Rightarrow> i32 \<Rightarrow> i32 \<Rightarrow> api \<Rightarrow> (ret_code \<times> api) res" where
  "reg_init pb calls modid cmdid st =
     rbind (reg_loop 3 pb calls modid cmdid [] st) (\<lambda>(route, st').
       Inr (if route = [] then RET_NOEXIST else RET_SUCC, st'))"

section \<open>Lemmas\<close>

text \<open>What a received datagram is, read from the datagram itself rather than from the buffer.\<close>

definition dgram_body :: "int \<Rightarrow> u8 list \<Rightarrow> u8 list option" where
  "dgram_body i d = (if 8 \<le> length d \<and> length d \<le> 81920 \<and> msgid (decode_head d) = i then Some (drop 8 d) else None)"

definition host_dgram :: "api_proto \<Rightarrow> u8 list \<Rightarrow> get_host_response option" where
  "host_dgram pb d = (case dgram_body (ID_GetHostResponse pb) d of
     None \<Rightarrow> None | Some body \<Rightarrow> parse_host_rsp pb body (int (length body)))"

definition route_dgram :: "api_proto \<Rightarrow> u8 list \<Rightarrow> route_response option" where
  "route_dgram pb d = (case dgram_body (ID_API_GetRouteResponse pb) d of
     None \<Rightarrow> None | Some body \<Rightarrow> parse_route_rsp pb body (int (length body)))"

lemma buf_head:
  assumes "8 \<le> length d"
  shows "decode_head (mem_read (mem_write buf 0 d) 0 8) = decode_head d"
proof -
  have "mem_read (mem_write buf 0 d) 0 8 = take 8 d"
    using assms by (intro nth_equalityI) (auto simp: mem_read_def mem_write_def)
  then show ?thesis using decode_head_append [of "take 8 d" "drop 8 d"] assms unfolding append_take_drop_id by simp
qed

lemma buf_body:
  assumes "8 \<le> length d"
  shows "mem_read (mem_write buf 0 d) 8 (int (length d) - 8) = drop 8 d"
  using assms by (intro nth_equalityI) (auto simp: mem_read_def mem_write_def nat_diff_distrib nat_add_distrib)

lemma recv_host_good:
  assumes "host_dgram pb d = Some rsp"
  shows "recv_host pb seq buf (Got d # rs) =
    (if hr_seq rsp < seq then recv_host pb seq (mem_write buf 0 d) rs else Inr (Some rsp))"
  using assms buf_head [of d buf] buf_body [of d buf]
  by (auto simp: host_dgram_def dgram_body_def Let_def MESSAGE_HEAD_LEN_def split: option.splits if_splits)

lemma recv_host_stale:
  assumes "\<forall>d \<in> set stale. \<exists>r. host_dgram pb d = Some r \<and> hr_seq r < seq"
    and "host_dgram pb good = Some rsp" and "\<not> hr_seq rsp < seq"
  shows "recv_host pb seq buf (map Got stale @ Got good # rs) = Inr (Some rsp)"
  using assms(1)
proof (induction stale arbitrary: buf)
  case Nil
  then show ?case using recv_host_good [OF assms(2)] assms(3) by simp
next
  case (Cons d stale)
  then obtain r where "host_dgram pb d = Some r" "hr_seq r < seq" by auto
  then show ?case using recv_host_good [of pb d r] Cons by simp
qed

definition host_of_ip :: "u32 \<times> i32 \<Rightarrow> string \<times> i32" where
  "host_of_ip h = (inet_ntoa (fst h), snd h)"

lemma get_host_run:
  assumes "sock_index modid cmdid = Inr i"
    and "length (host_req_bytes pb \<lparr>hq_seq = seqid st, hq_modid = modid, hq_cmdid = cmdid\<rparr>) \<le> 4088"
    and "\<forall>d \<in> set stale. \<exists>r. host_dgram pb d = Some r \<and> hr_seq r < seqid st"
    and "host_dgram pb good = Some rsp" and "hr_seq rsp = seqid st"
  shows "api_get_host pb True buf (map Got stale @ Got good # rs) modid cmdid st =
    Inr (if hr_modid rsp = modid \<and> hr_cmdid rsp = cmdid then hr_retcode rsp else RET_SYSTEM_ERROR,
      if hr_modid rsp = modid \<and> hr_cmdid rsp = cmdid \<and> hr_retcode rsp = RET_SUCC then Some (host_of_ip (hr_host rsp)) else None,
      st\<lparr>seqid := seqid st + 1, api_sent := api_sent st @ [(i, encode_msg (ID_GetHostRequest pb,
          host_req_bytes pb \<lparr>hq_seq = seqid st, hq_modid = modid, hq_cmdid = cmdid\<rparr>))]\<rparr>)"
proof -
  have "recv_host pb (seqid st) buf (map Got stale @ Got good # rs) = Inr (Some rsp)"
    using recv_host_stale [OF assms(3,4)] assms(5) by simp
  then show ?thesis using assms(1,2,5)
    by (simp add: api_get_host_def api_send_def Let_def MESSAGE_HEAD_LEN_def encode_msg_def host_of_ip_def)
qed

lemma get_route_run:
  assumes "sock_index modid cmdid = Inr i" and "length (route_req_bytes pb (modid, cmdid)) \<le> 4088"
    and "route_dgram pb good = Some rsp" and "rr_modid rsp = modid" and "rr_cmdid rsp = cmdid"
  shows "\<exists>st'. api_get_route pb True buf (Got good # rs) modid cmdid route st =
    Inr (RET_SUCC, route @ map (\<lambda>(ip, port). (inet_ntoa (ntohl ip), port)) (rr_hosts rsp), st')"
  using assms buf_head [of good buf] buf_body [of good buf]
  by (auto simp: api_get_route_def api_send_def route_dgram_def dgram_body_def Let_def MESSAGE_HEAD_LEN_def
      split: option.splits if_splits)

text \<open>Different addresses are written differently.\<close>

lemma show_nat_inj: "show_nat m = show_nat n \<Longrightarrow> m = n"
  using show_nat_props [of m] show_nat_props [of n] by (metis of_nat_eq_iff)

lemma show_nat_no_dot: "CHR ''.'' \<notin> set (show_nat n)"
  using show_nat_props [of n] by (auto simp: isdigit_def)

lemma dotted_inj:
  assumes "show_nat m @ ''.'' @ s = show_nat n @ ''.'' @ t"
  shows "m = n \<and> s = t"
proof -
  let ?u = "show_nat m @ CHR ''.'' # s"
  have eq: "?u = show_nat n @ CHR ''.'' # t" using assms by simp
  have m: "takeWhile (\<lambda>c. c \<noteq> CHR ''.'') ?u = show_nat m" "dropWhile (\<lambda>c. c \<noteq> CHR ''.'') ?u = CHR ''.'' # s"
    using until_first [OF show_nat_no_dot] by blast+
  have n: "takeWhile (\<lambda>c. c \<noteq> CHR ''.'') ?u = show_nat n" "dropWhile (\<lambda>c. c \<noteq> CHR ''.'') ?u = CHR ''.'' # t"
    unfolding eq using until_first [OF show_nat_no_dot] by blast+
  show ?thesis using show_nat_inj m n by simp
qed

lemma inet_ntoa_inj: "inet_ntoa a = inet_ntoa b \<longleftrightarrow> a = b"
proof
  assume eq: "inet_ntoa a = inet_ntoa b"
  obtain w x y z where a: "le32 a = [w, x, y, z]" by (simp add: le32_def)
  obtain w' x' y' z' where b: "le32 b = [w', x', y', z']" by (simp add: le32_def)
  from eq have "show_nat (unat w) @ ''.'' @ (show_nat (unat x) @ ''.'' @ (show_nat (unat y) @ ''.'' @ show_nat (unat z))) =
      show_nat (unat w') @ ''.'' @ (show_nat (unat x') @ ''.'' @ (show_nat (unat y') @ ''.'' @ show_nat (unat z')))"
    by (simp only: inet_ntoa_def a b list.map list.case)
  then have "unat w = unat w'" "unat x = unat x'" "unat y = unat y'" "show_nat (unat z) = show_nat (unat z')"
    by (blast dest: dotted_inj)+
  then have "le32 a = le32 b" using show_nat_inj a b by (auto simp: word_unat_eq_iff)
  then show "a = b" by (metis un32_le32)
qed simp

text \<open>The index of a non-negative sum, and of a negative one.\<close>

lemma sock_index_cases:
  "sock_index m c =
    (if \<not> in_int (sint m + sint c) then Inl SignedOverflow
     else if 0 \<le> sint m + sint c then Inr (nat ((sint m + sint c) mod 3))
     else if (sint m + sint c) mod 3 = 0 then Inr 0 else Inl OutOfBounds)"
proof -
  let ?s = "sint m + sint c"
  have "(- ?s) mod 3 = 0 \<longleftrightarrow> ?s mod 3 = 0" by presburger
  moreover have "0 \<le> (- ?s) mod 3" by simp
  ultimately show ?thesis
    by (auto simp: sock_index_def cint_add_def rbind_def Let_def c_rem_nonneg c_rem_neg nat_less_iff)
qed

section \<open>Properties\<close>

text \<open>
  C25: \<open>lars_client::get_host\<close> sends one request with a fresh number to the socket \<open>(modid + cmdid) % 3\<close>, skips any
  number of late answers to earlier requests, and returns the return code and host of the first answer
  with its own number; an answer for another module is a system error.
\<close>

theorem get_host_answer:
  assumes "0 \<le> sint modid + sint cmdid" and "in_int (sint modid + sint cmdid)"
    and "req = \<lparr>hq_seq = seqid st, hq_modid = modid, hq_cmdid = cmdid\<rparr>" and "length (host_req_bytes pb req) \<le> 4088"
    and "\<forall>d \<in> set stale. \<exists>r. host_dgram pb d = Some r \<and> hr_seq r < seqid st"
    and "host_dgram pb good = Some rsp" and "hr_seq rsp = seqid st"
  shows "api_get_host pb True buf (map Got stale @ Got good # rs) modid cmdid st =
    Inr (if hr_modid rsp = modid \<and> hr_cmdid rsp = cmdid then hr_retcode rsp else RET_SYSTEM_ERROR,
      if hr_modid rsp = modid \<and> hr_cmdid rsp = cmdid \<and> hr_retcode rsp = RET_SUCC then Some (host_of_ip (hr_host rsp)) else None,
      st\<lparr>seqid := seqid st + 1, api_sent := api_sent st @
        [(nat ((sint modid + sint cmdid) mod 3), encode_msg (ID_GetHostRequest pb, host_req_bytes pb req))]\<rparr>)"
  using get_host_run [OF _ _ assms(5-7), of modid cmdid] assms(1-4) by (simp add: sock_index_cases)

definition demo_api_proto :: api_proto where
  "demo_api_proto = \<lparr>host_req_bytes = (\<lambda>r. [ucast (hq_seq r)]), route_req_bytes = (\<lambda>r. [0]), report_req_bytes = (\<lambda>r. [0]),
     parse_host_rsp = (\<lambda>b n. case b of [q] \<Rightarrow> Some \<lparr>hr_seq = ucast q, hr_modid = 1, hr_cmdid = 2, hr_retcode = RET_SUCC, hr_host = (16777343, 80)\<rparr>
       | _ \<Rightarrow> None),
     parse_route_rsp = (\<lambda>b n. Some \<lparr>rr_modid = 1, rr_cmdid = 2, rr_hosts = [(16777343, 80)]\<rparr>),
     ID_GetHostRequest = 1, ID_GetHostResponse = 2, ID_ReportRequest = 3, ID_API_GetRouteRequest = 4, ID_API_GetRouteResponse = 5\<rparr>"

lemma demo_host_dgram:
  "host_dgram demo_api_proto (encode_msg (2, [q])) =
    Some \<lparr>hr_seq = ucast q, hr_modid = 1, hr_cmdid = 2, hr_retcode = RET_SUCC, hr_host = (16777343, 80)\<rparr>"
proof -
  have "msg_ok (2, [q])" by (simp add: msg_ok_def in_int_def MESSAGE_LENGTH_LIMIT_def MESSAGE_HEAD_LEN_def)
  from decode_encode_msg(1) [OF this, of "[]"] have "msgid (decode_head (encode_msg (2, [q]))) = 2" by simp
  moreover have "drop 8 (encode_msg (2, [q])) = [q]" by (simp add: encode_msg_def)
  ultimately show ?thesis by (simp add: host_dgram_def dgram_body_def demo_api_proto_def)
qed

lemma get_host_answer_witness:
  "api_get_host demo_api_proto True (\<lambda>_. 0) (map Got [encode_msg (2, [6])] @ Got (encode_msg (2, [7])) # []) 1 2 \<lparr>seqid = 7, api_sent = []\<rparr> =
     Inr (RET_SUCC, Some (inet_ntoa 16777343, 80), \<lparr>seqid = 8, api_sent = [(0, encode_msg (1, [7]))]\<rparr>)"
  using get_host_answer [of 1 2 "\<lparr>hq_seq = 7, hq_modid = 1, hq_cmdid = 2\<rparr>" "\<lparr>seqid = 7, api_sent = []\<rparr>" demo_api_proto
      "[encode_msg (2, [6])]" "encode_msg (2, [7])" _ "\<lambda>_. 0" "[]", OF _ _ _ _ _ demo_host_dgram]
  by (simp add: in_int_def demo_host_dgram host_of_ip_def) (simp add: demo_api_proto_def)

text \<open>
  A module whose \<open>modid + cmdid\<close> is negative and not a multiple of three indexes \<open>_sockfd\<close> with a negative
  number: C's \<open>%\<close> has the sign of the dividend. All three calls read outside the array.
\<close>

theorem negative_sum_out_of_bounds:
  assumes "sint modid + sint cmdid < 0" and "in_int (sint modid + sint cmdid)" and "(sint modid + sint cmdid) mod 3 \<noteq> 0"
    and "\<forall>r. length (host_req_bytes pb r) \<le> 4088" and "\<forall>r. length (route_req_bytes pb r) \<le> 4088"
    and "\<forall>r. length (report_req_bytes pb r) \<le> 4088"
  shows "api_get_host pb ok buf rs modid cmdid st = Inl OutOfBounds \<and>
    api_get_route pb ok buf rs modid cmdid route st = Inl OutOfBounds \<and>
    api_report pb ok modid cmdid ip port retcode st = Inl OutOfBounds"
proof -
  have "api_send ok modid cmdid i body st' = Inl OutOfBounds" if "length body \<le> 4088" for i body st'
    using that assms(1-3) by (simp add: api_send_def Let_def MESSAGE_HEAD_LEN_def sock_index_cases)
  then show ?thesis using assms(4-6) by (simp add: api_get_host_def api_get_route_def api_report_def Let_def)
qed

lemma negative_sum_out_of_bounds_witness:
  "api_get_host demo_api_proto True (\<lambda>_. 0) [] 1 (- 2) \<lparr>seqid = 0, api_sent = []\<rparr> = Inl OutOfBounds"
  using negative_sum_out_of_bounds [of 1 "- 2" demo_api_proto True "\<lambda>_. 0" "[]" "\<lparr>seqid = 0, api_sent = []\<rparr>" "[]" 0 0 0]
  by (simp add: in_int_def demo_api_proto_def)

text \<open>
  The two calls that return addresses disagree on the byte order. For a host the agent sends in the same
  form in both answers, \<open>get_host\<close> and \<open>get_route\<close> give the same string exactly if the address reads the same
  backwards; \<open>get_route\<close> converts with \<open>ntohl\<close> what is not in network order, \<open>get_host\<close> does not.
\<close>

theorem address_strings_agree:
  assumes "0 \<le> sint modid + sint cmdid" and "in_int (sint modid + sint cmdid)"
    and "length (host_req_bytes pb \<lparr>hq_seq = seqid st, hq_modid = modid, hq_cmdid = cmdid\<rparr>) \<le> 4088"
    and "length (route_req_bytes pb (modid, cmdid)) \<le> 4088"
    and "host_dgram pb d1 = Some \<lparr>hr_seq = seqid st, hr_modid = modid, hr_cmdid = cmdid, hr_retcode = RET_SUCC, hr_host = (ip, port)\<rparr>"
    and "route_dgram pb d2 = Some \<lparr>rr_modid = modid, rr_cmdid = cmdid, rr_hosts = [(ip, port)]\<rparr>"
  shows "\<exists>s1 s2 st1 st2. api_get_host pb True buf [Got d1] modid cmdid st = Inr (RET_SUCC, Some (s1, port), st1) \<and>
    api_get_route pb True buf' [Got d2] modid cmdid [] st' = Inr (RET_SUCC, [(s2, port)], st2) \<and>
    (s1 = s2 \<longleftrightarrow> ntohl ip = ip)"
proof -
  have i: "sock_index modid cmdid = Inr (nat ((sint modid + sint cmdid) mod 3))" using assms(1,2) by (simp add: sock_index_cases)
  obtain st2 where "api_get_route pb True buf' [Got d2] modid cmdid [] st' = Inr (RET_SUCC, [(inet_ntoa (ntohl ip), port)], st2)"
    using get_route_run [OF i assms(4,6), of buf' "[]" "[]" st'] by auto
  moreover obtain st1 where "api_get_host pb True buf [Got d1] modid cmdid st = Inr (RET_SUCC, Some (inet_ntoa ip, port), st1)"
    using get_host_run [OF i assms(3) _ assms(5), of "[]" buf "[]"] by (simp add: host_of_ip_def)
  moreover have "inet_ntoa ip = inet_ntoa (ntohl ip) \<longleftrightarrow> ntohl ip = ip" unfolding inet_ntoa_inj by (rule eq_commute)
  ultimately show ?thesis by (intro exI conjI)
qed

lemma address_strings_agree_witness:
  "\<exists>s1 s2 st1 st2. api_get_host demo_api_proto True (\<lambda>_. 0) [Got (encode_msg (2, [7]))] 1 2 \<lparr>seqid = 7, api_sent = []\<rparr> = Inr (RET_SUCC, Some (s1, 80), st1) \<and>
    api_get_route demo_api_proto True (\<lambda>_. 0) [Got (encode_msg (5, [0]))] 1 2 [] \<lparr>seqid = 7, api_sent = []\<rparr> = Inr (RET_SUCC, [(s2, 80)], st2) \<and> s1 \<noteq> s2"
proof -
  have "msg_ok (5, [0])" by (simp add: msg_ok_def in_int_def MESSAGE_LENGTH_LIMIT_def MESSAGE_HEAD_LEN_def)
  from decode_encode_msg(1) [OF this, of "[]"] have "msgid (decode_head (encode_msg (5, [0]))) = 5" by simp
  then have r: "route_dgram demo_api_proto (encode_msg (5, [0])) = Some \<lparr>rr_modid = 1, rr_cmdid = 2, rr_hosts = [(16777343, 80)]\<rparr>"
    by (simp add: route_dgram_def dgram_body_def demo_api_proto_def)
  have h: "host_dgram demo_api_proto (encode_msg (2, [7])) =
      Some \<lparr>hr_seq = 7, hr_modid = 1, hr_cmdid = 2, hr_retcode = RET_SUCC, hr_host = (16777343, 80)\<rparr>"
    using demo_host_dgram [of 7] by simp
  have ne: "ntohl 16777343 \<noteq> 16777343" by (simp add: ntohl_def le32_def un32_def)
  let ?st = "\<lparr>seqid = 7, api_sent = []\<rparr> :: api"
  have "length (host_req_bytes demo_api_proto \<lparr>hq_seq = seqid ?st, hq_modid = 1, hq_cmdid = 2\<rparr>) \<le> 4088"
    "length (route_req_bytes demo_api_proto (1, 2)) \<le> 4088"
    "0 \<le> sint (1 :: i32) + sint (2 :: i32)" "in_int (sint (1 :: i32) + sint (2 :: i32))"
    by (simp_all add: demo_api_proto_def in_int_def)
  from address_strings_agree [OF this(3,4,1,2) _ r, of "encode_msg (2, [7])" "\<lambda>_. 0" "\<lambda>_. 0" ?st] h ne
  show ?thesis unfolding api.simps by blast
qed

end
