(* ===== verification/Tcp_Client.thy ===== *)
theory Tcp_Client
  imports Conn_Outputs
begin

text \<open>
  \<open>tcp_client\<close> (\<open>lars_reactors/src/tcp_client.cpp\<close>): one connection to a server, which the agent opens to
  the DNS service and to the reporter. It frames messages like \<open>tcp_conn\<close>, so both of its buffers are
  again buffers in the sense of \<open>conn_buffer\<close>. In the event loop the client's argument is \<open>Some 0\<close>.
\<close>

record 'u client =
  c_pool :: pool_st
  c_loop :: loop_t
  c_sockfd :: int
  c_ibuf :: ptr
  c_obuf :: ptr
  c_closed :: "int list"      \<comment> \<open>the calls of \<open>close\<close> so far\<close>
  c_app :: 'u

record 'u cli_env =
  cli_start_cb :: "('u client \<Rightarrow> 'u client res) option"
  cli_close_cb :: "('u client \<Rightarrow> 'u client res) option"
  cli_router :: "(nat, nat) msg_router"
  cli_msg_cb :: "nat \<Rightarrow> u8 list option \<Rightarrow> int \<Rightarrow> int \<Rightarrow> unit \<Rightarrow> nat option \<Rightarrow> 'u client \<Rightarrow> 'u client res"

definition c_put_ibuf :: "ptr \<Rightarrow> pool_st \<Rightarrow> 'u client \<Rightarrow> 'u client" where
  "c_put_ibuf p s c = c\<lparr>c_ibuf := p, c_pool := s\<rparr>"

definition c_put_obuf :: "ptr \<Rightarrow> pool_st \<Rightarrow> 'u client \<Rightarrow> 'u client" where
  "c_put_obuf p s c = c\<lparr>c_obuf := p, c_pool := s\<rparr>"

definition c_upd_loop :: "(loop_t \<Rightarrow> loop_t) \<Rightarrow> 'u client \<Rightarrow> 'u client" where
  "c_upd_loop f c = c\<lparr>c_loop := f (c_loop c)\<rparr>"

definition c_close :: "int \<Rightarrow> 'u client \<Rightarrow> 'u client" where
  "c_close fd c = c\<lparr>c_closed := c_closed c @ [fd]\<rparr>"

definition c_hook :: "('u client \<Rightarrow> 'u client res) option \<Rightarrow> 'u client \<Rightarrow> 'u client res" where
  "c_hook h c = (case h of None \<Rightarrow> Inr c | Some f \<Rightarrow> f c)"

lemma c_put_simps [simp]:
  "c_pool (c_put_ibuf p s c) = s" "c_ibuf (c_put_ibuf p s c) = p" "c_obuf (c_put_ibuf p s c) = c_obuf c"
  "c_pool (c_put_obuf p s c) = s" "c_obuf (c_put_obuf p s c) = p" "c_ibuf (c_put_obuf p s c) = c_ibuf c"
  "c_loop (c_put_ibuf p s c) = c_loop c" "c_loop (c_put_obuf p s c) = c_loop c"
  "c_sockfd (c_put_ibuf p s c) = c_sockfd c" "c_sockfd (c_put_obuf p s c) = c_sockfd c"
  "c_closed (c_put_ibuf p s c) = c_closed c" "c_closed (c_put_obuf p s c) = c_closed c"
  by (simp_all add: c_put_ibuf_def c_put_obuf_def)

lemma c_upd_loop_simps [simp]:
  "c_loop (c_upd_loop f c) = f (c_loop c)" "c_pool (c_upd_loop f c) = c_pool c" "c_sockfd (c_upd_loop f c) = c_sockfd c"
  "c_ibuf (c_upd_loop f c) = c_ibuf c" "c_obuf (c_upd_loop f c) = c_obuf c" "c_closed (c_upd_loop f c) = c_closed c"
  by (simp_all add: c_upd_loop_def)

lemma c_close_simps [simp]:
  "c_loop (c_close fd c) = c_loop c" "c_pool (c_close fd c) = c_pool c" "c_sockfd (c_close fd c) = c_sockfd c"
  "c_ibuf (c_close fd c) = c_ibuf c" "c_obuf (c_close fd c) = c_obuf c" "c_closed (c_close fd c) = c_closed c @ [fd]"
  by (simp_all add: c_close_def)

interpretation ci: conn_buffer c_ibuf c_pool c_put_ibuf
  by unfold_locales (simp_all add: c_put_ibuf_def)

interpretation co: conn_buffer c_obuf c_pool c_put_obuf
  by unfold_locales (simp_all add: c_put_obuf_def)

section \<open>The operations\<close>

definition client_clean_conn :: "'u cli_env \<Rightarrow> 'u client \<Rightarrow> 'u client res" where
  "client_clean_conn env c =
     rbind (c_hook (cli_close_cb env) c) (\<lambda>c1.
       if c_sockfd c1 \<noteq> - 1 then Inr (c_close (c_sockfd c1) (c_upd_loop (del_io_event (c_sockfd c1)) c1)) else Inr c1)"

definition client_send_message :: "u8 list \<Rightarrow> int \<Rightarrow> 'u client \<Rightarrow> (int \<times> 'u client) res" where
  "client_send_message data i c =
     send_framed c_obuf c_pool c_put_obuf
       (\<lambda>c. c_upd_loop (add_io_event True (c_sockfd c) write_callback EPOLLOUT (Some 0)) c) data i c"

definition client_msg_call :: "'u cli_env \<Rightarrow> int \<Rightarrow> int \<Rightarrow> u8 list option \<Rightarrow> 'u client \<Rightarrow> 'u client res" where
  "client_msg_call env i len data c = router_call (cli_msg_cb env) (cli_router env) i len data () c"

definition client_do_read :: "'u cli_env \<Rightarrow> int option \<Rightarrow> rd_ret list \<Rightarrow> 'u client \<Rightarrow> 'u client res" where
  "client_do_read env fionread rs c =
     read_frames max_frames c_ibuf c_pool c_put_ibuf (client_msg_call env) (client_clean_conn env) fionread rs c"

text \<open>The loop of \<open>do_write\<close>; the result says whether the connection was closed.\<close>

function client_write_loop :: "'u cli_env \<Rightarrow> wr_ret list \<Rightarrow> 'u client \<Rightarrow> (bool \<times> 'u client) res" where
  "client_write_loop env ws c =
     (case rb_length (c_obuf c) (c_pool c) of
        Inl e \<Rightarrow> Inl e
      | Inr len \<Rightarrow>
          if len = 0 then Inr (False, c)
          else (case write2fd ws (c_obuf c) (c_pool c) of
                  Inl e \<Rightarrow> Inl e
                | Inr (write_num, ws', s) \<Rightarrow>
                    (let c1 = c_put_obuf (c_obuf c) s c
                     in if write_num = - 1 then rbind (client_clean_conn env c1) (\<lambda>c2. Inr (True, c2))
                        else if write_num = 0 then Inr (False, c1)
                        else client_write_loop env ws' c1)))"
  by pat_completeness auto
termination by (relation "measure (\<lambda>(env, ws, c). length ws)") (auto dest: write2fd_shorter)

declare client_write_loop.simps [simp del]

definition client_do_write :: "'u cli_env \<Rightarrow> wr_ret list \<Rightarrow> 'u client \<Rightarrow> 'u client res" where
  "client_do_write env ws c =
     rbind (client_write_loop env ws c) (\<lambda>(cleaned, c1).
       if cleaned then Inr c1
       else rbind (rb_length (c_obuf c1) (c_pool c1)) (\<lambda>len.
         if len = 0 then Inr (c_upd_loop (del_io_event_mask True (c_sockfd c1) EPOLLOUT) c1) else Inr c1))"

text \<open>\<open>connection_succ\<close> with the error that \<open>getsockopt\<close> reports.\<close>

definition client_connection_succ :: "'u cli_env \<Rightarrow> int \<Rightarrow> int \<Rightarrow> 'u client \<Rightarrow> 'u client res" where
  "client_connection_succ env fd so_error c =
     (let c1 = c_upd_loop (del_io_event fd) c
      in if so_error = 0 then
           rbind (c_hook (cli_start_cb env) c1) (\<lambda>c2.
             let c3 = c_upd_loop (add_io_event True fd read_callback EPOLLIN (Some 0)) c2
             in rbind (rb_length (c_obuf c3) (c_pool c3)) (\<lambda>len.
               if len \<noteq> 0 then Inr (c_upd_loop (add_io_event True fd write_callback EPOLLOUT (Some 0)) c3) else Inr c3))
         else Inr c1)"

datatype conn_ret = ConnOk | ConnInProgress | ConnErr

definition client_do_connect :: "'u cli_env \<Rightarrow> int \<Rightarrow> conn_ret \<Rightarrow> int \<Rightarrow> 'u client \<Rightarrow> 'u client res" where
  "client_do_connect env sock conn so_error c =
     (let c1 = (if c_sockfd c \<noteq> - 1 then c_close (c_sockfd c) c else c)
      in if sock = - 1 then Inl (Exit 1)
         else (let c2 = c1\<lparr>c_sockfd := sock\<rparr>
               in case conn of
                    ConnOk \<Rightarrow> client_connection_succ env sock so_error c2
                  | ConnInProgress \<Rightarrow> Inr (c_upd_loop (add_io_event True sock connection_succ EPOLLOUT (Some 0)) c2)
                  | ConnErr \<Rightarrow> Inl (Exit 1)))"

text \<open>The constructor clears the hooks and connects at once.\<close>

definition tcp_client_new :: "'u cli_env \<Rightarrow> int \<Rightarrow> conn_ret \<Rightarrow> int \<Rightarrow> pool_st \<Rightarrow> loop_t \<Rightarrow> 'u \<Rightarrow> 'u client res" where
  "tcp_client_new env sock conn so_error pool lp u =
     client_do_connect (env\<lparr>cli_start_cb := None, cli_close_cb := None\<rparr>) sock conn so_error
       \<lparr>c_pool = pool, c_loop = lp, c_sockfd = - 1, c_ibuf = NULL, c_obuf = NULL, c_closed = [], c_app = u\<rparr>"

section \<open>Lemmas\<close>

definition client_ok :: "'u client \<Rightarrow> u8 list \<Rightarrow> u8 list \<Rightarrow> bool" where
  "client_ok c d e \<longleftrightarrow> ci.holds c d \<and> co.holds c e \<and> rb_ready (c_pool c) (c_ibuf c) \<and> rb_ready (c_pool c) (c_obuf c)"

definition client_cbs :: "'u cli_env \<Rightarrow> ('u client \<Rightarrow> msg list) \<Rightarrow> bool" where
  "client_cbs env seen \<longleftrightarrow>
     (\<forall>p s c. seen (c_put_ibuf p s c) = seen c) \<and>
     (\<forall>cb i body a c d. ci.holds c d \<longrightarrow> (c_ibuf c = NULL \<longrightarrow> body = []) \<longrightarrow>
        (\<exists>c'. cli_msg_cb env cb (if c_ibuf c = NULL then None else Some body) (int (length body)) i () a c = Inr c' \<and>
              ci.holds c' d \<and> c_ibuf c' = c_ibuf c \<and> seen c' = seen c @ [(i, body)]))"

lemma client_handler:
  assumes "client_cbs env seen"
  shows "ci.handler_ok (client_msg_call env) (\<lambda>i. router (cli_router env) i \<noteq> None) seen"
proof -
  have "\<exists>c'. client_msg_call env i (int (length body)) (if c_ibuf c = NULL then None else Some body) c = Inr c' \<and>
      ci.holds c' d \<and> c_ibuf c' = c_ibuf c \<and>
      seen c' = seen c @ (if router (cli_router env) i \<noteq> None then [(i, body)] else [])"
    if "ci.holds c d" "c_ibuf c = NULL \<longrightarrow> body = []" for i body c d
  proof (cases "router (cli_router env) i")
    case None
    then show ?thesis using that by (simp add: client_msg_call_def router_call_def)
  next
    case (Some cb)
    then show ?thesis using assms that by (simp add: client_msg_call_def router_call_def client_cbs_def)
  qed
  then show ?thesis using assms by (intro ci.handler_okI) (simp_all add: client_cbs_def)
qed

text \<open>\<open>do_write\<close> when the kernel takes everything at once.\<close>

lemma client_write_all:
  assumes h: "co.holds c e" "rb_ready (c_pool c) (c_obuf c)" and ne: "e \<noteq> []"
  shows "\<exists>s. client_do_write env [Wr (int (length e))] c =
    Inr (c_upd_loop (del_io_event_mask True (c_sockfd c) EPOLLOUT) (c_put_obuf (c_obuf c) s c))"
proof -
  have o: "pool_inv (c_pool c)" "rb_holds (c_pool c) (c_obuf c) e" using h(1) by (simp_all add: co.holds_def)
  then have nn: "c_obuf c \<noteq> NULL" using ne by auto
  let ?k = "int (length e)"
  have k: "0 < ?k" using ne by simp
  have w: "write_retry [Wr ?k] = Inr (Wr ?k, [])" by simp
  obtain s where s: "write2fd [Wr ?k] (c_obuf c) (c_pool c) = Inr (?k, [], s)" "pool_inv s" "rb_holds s (c_obuf c) []"
    using write2fd_ok [OF o h(2) nn w] k by auto
  let ?c1 = "c_put_obuf (c_obuf c) s c"
  have l: "rb_length (c_obuf c) (c_pool c) = Inr ?k" "rb_length (c_obuf c) s = Inr 0"
    using rb_length_ok [OF o(2,1)] rb_length_ok [OF s(3,2)] by simp_all
  then have "client_write_loop env [] ?c1 = Inr (False, ?c1)" by (simp add: client_write_loop.simps)
  then have "client_write_loop env [Wr ?k] c = Inr (False, ?c1)"
    using l(1) s(1) k by (subst client_write_loop.simps) (simp add: Let_def)
  then show ?thesis using l(2) by (auto simp: client_do_write_def)
qed

lemma client_send_ok:
  assumes "co.holds c e" and "rb_ready (c_pool c) (c_obuf c)" and "client_send_message data i c = Inr (0, c')"
  shows "co.holds c' (e @ encode_msg (i, data)) \<and> rb_ready (c_pool c') (c_obuf c') \<and> c_sockfd c' = c_sockfd c \<and>
    c_loop c' = (if e = [] then add_io_event True (c_sockfd c) write_callback EPOLLOUT (Some 0) (c_loop c) else c_loop c)"
proof -
  let ?arm = "\<lambda>c. c_upd_loop (add_io_event True (c_sockfd c) write_callback EPOLLOUT (Some 0)) c"
  obtain p s where "c' = (if e = [] then ?arm (c_put_obuf p s c) else c_put_obuf p s c)" "pool_inv s"
      "rb_holds s p (e @ encode_msg (i, data))" "rb_ready s p"
    using co.send_framed_ok [OF assms(1,2) assms(3) [unfolded client_send_message_def]] by blast
  then show ?thesis by (cases "e = []") (simp_all add: co.holds_def)
qed

text \<open>The buffers hold at most 8 MiB, so no read can bring more messages than the loop's fuel.\<close>

lemma client_fuel:
  assumes "ci.holds c d" and "rb_ready (c_pool c) (c_ibuf c)" and "reserve k (c_ibuf c) (c_pool c) = Inr (True, q, s1)"
    and "read_retry rs = Inr (Rd bs, rs')" and "int (length bs) = k" and "parse (d @ bs) = (ms, r, bad)"
  shows "length ms \<le> max_frames"
proof -
  have "pool_inv (c_pool c)" "rb_holds (c_pool c) (c_ibuf c) d" using assms(1) by (simp_all add: ci.holds_def)
  from read_data_ok [OF this assms(2-4)]
  obtain a b where b: "q = Ptr a" "pool.held s1 a b" "buf_len b = int (length d)" "buf_len b + k \<le> capacity b"
      "pool_inv s1" .
  then have "capacity b \<in> set mem_caps" using pool_inv_buf by (auto simp: held_bufs)
  then have "int (length (d @ bs)) \<le> 8388608" using b(3,4) assms(5) by (auto simp: mem_caps_def)
  then show ?thesis using length_parse [OF assms(6)] by (simp add: max_frames_def)
qed

section \<open>A client for the witnesses\<close>

definition demo_client :: "msg list client" where
  "demo_client = \<lparr>c_pool = demo_pool, c_loop = event_loop_new, c_sockfd = - 1, c_ibuf = NULL, c_obuf = NULL,
     c_closed = [], c_app = []\<rparr>"

definition demo_cli_env :: "msg list cli_env" where
  "demo_cli_env = \<lparr>cli_start_cb = None, cli_close_cb = None, cli_router = snd (register_msg_router 1 0 0 msg_router_new),
     cli_msg_cb = (\<lambda>cb data len i u a c. Inr (c\<lparr>c_app := c_app c @ [(i, case data of None \<Rightarrow> [] | Some b \<Rightarrow> b)]\<rparr>))\<rparr>"

lemma demo_client_ok: "ci.holds demo_client []" "co.holds demo_client []" "c_ibuf demo_client = NULL" "c_obuf demo_client = NULL"
  "c_pool demo_client = demo_pool" "c_sockfd demo_client = - 1" "c_loop demo_client = event_loop_new" "c_app demo_client = []"
  using demo_pool_ok by (simp_all add: ci.holds_def co.holds_def demo_client_def)

lemma demo_client_cbs: "client_cbs demo_cli_env c_app"
  by (auto simp: client_cbs_def demo_cli_env_def ci.holds_def c_put_ibuf_def)

section \<open>Properties\<close>

text \<open>
  \<open>tcp_client::do_read\<close> hands exactly the messages that \<open>parse\<close> finds in the bytes received so far to the
  registered callbacks, in order, and keeps the incomplete rest.
\<close>

theorem client_do_read_messages:
  assumes "ci.holds c d" and "rb_ready (c_pool c) (c_ibuf c)" and "client_cbs env seen"
    and "reserve k (c_ibuf c) (c_pool c) = Inr (True, q, s1)"
    and "read_retry rs = Inr (Rd bs, rs')" and "bs \<noteq> []" and "int (length bs) = k"
    and "parse (d @ bs) = (ms, r, False)" and "\<not> ends_empty (d @ bs)"
  shows "\<exists>c'. client_do_read env (Some k) rs c = Inr c' \<and> ci.holds c' r \<and> rb_ready (c_pool c') (c_ibuf c') \<and>
    seen c' = seen c @ filter (\<lambda>m. router (cli_router env) (fst m) \<noteq> None) ms"
proof -
  have fuel: "length ms \<le> max_frames" using client_fuel [OF assms(1,2,4,5,7,8)] .
  show ?thesis
    using ci.read_frames_ok [OF assms(1,2) client_handler [OF assms(3)] assms(4-9) fuel, of "client_clean_conn env"]
    unfolding client_do_read_def .
qed

lemma client_do_read_messages_witness:
  "\<exists>c'. client_do_read demo_cli_env (Some 9) [Rd (encode_msg (1, [7]))] demo_client = Inr c' \<and> c_app c' = [(1, [7])]"
proof -
  obtain s1 where s1: "reserve 9 NULL demo_pool = Inr (True, Ptr 1, s1)" using demo_alloc [of 9] by auto
  have p: "parse ([] @ encode_msg (1, [7])) = ([(1, [7])], [], False)"
    using parse_encode_msg [of "(1, [7])" "[]"]
    by (simp add: parse_short msg_ok_def in_int_def MESSAGE_LENGTH_LIMIT_def MESSAGE_HEAD_LEN_def)
  then have ne: "\<not> ends_empty ([] @ encode_msg (1, [7]))" by (simp add: ends_empty_def)
  have "encode_msg (1, [7]) \<noteq> []" by (simp add: encode_msg_def)
  moreover have "router (cli_router demo_cli_env) 1 \<noteq> None"
    by (simp add: demo_cli_env_def register_msg_router_def msg_router_new_def)
  ultimately show ?thesis
    using client_do_read_messages [OF demo_client_ok(1) _ demo_client_cbs _ _ _ _ p ne, of 9 "Ptr 1" s1 "[Rd (encode_msg (1, [7]))]" "[]"]
      s1 by (auto simp: demo_client_ok)
qed

text \<open>
  Sending before the connection stands. While \<open>connect\<close> is in progress the write event of the socket
  belongs to \<open>connection_succ\<close>; a message sent then replaces that callback by \<open>write_callback\<close>. When the socket
  becomes writable the message is written and the event deleted: \<open>connection_succ\<close> never runs, no read event
  is ever registered, and the client does not hear the answer.
\<close>

theorem early_send_deaf:
  assumes "co.holds c []" and "rb_ready (c_pool c) (c_obuf c)" and "io_evs (c_loop c) sock = None" and "epoll_set (c_loop c) sock = None"
    and "client_do_connect env sock ConnInProgress err c = Inr c1" and "client_send_message data i c1 = Inr (0, c2)"
  shows "io_evs (c_loop c1) sock = Some (io_event_new\<lparr>ev_mask := EPOLLOUT, write_cb := Some connection_succ, wcb_args := Some 0\<rparr>) \<and>
    io_evs (c_loop c2) sock = Some (io_event_new\<lparr>ev_mask := EPOLLOUT, write_cb := Some write_callback, wcb_args := Some 0\<rparr>) \<and>
    (\<exists>c3. client_do_write env [Wr (8 + int (length data))] c2 = Inr c3 \<and> io_evs (c_loop c3) sock = None)"
proof -
  have m: "EPOLLOUT AND EPOLLIN = 0" "EPOLLOUT AND EPOLLOUT \<noteq> (0 :: i32)" "EPOLLOUT OR EPOLLOUT = EPOLLOUT"
    "EPOLLOUT AND NOT EPOLLOUT = 0"
    by (simp_all add: EPOLLOUT_def EPOLLIN_def)
  let ?old = "if c_sockfd c \<noteq> - 1 then c_close (c_sockfd c) c else c"
  have c1: "c1 = c_upd_loop (add_io_event True sock connection_succ EPOLLOUT (Some 0)) (?old\<lparr>c_sockfd := sock\<rparr>)"
    using assms(5) by (auto simp: client_do_connect_def Let_def split: if_splits)
  have old: "c_loop ?old = c_loop c" "c_obuf ?old = c_obuf c" "c_pool ?old = c_pool c" by simp_all
  have l1: "c_loop c1 = add_io_event True sock connection_succ EPOLLOUT (Some 0) (c_loop c)" "c_sockfd c1 = sock"
    "c_obuf c1 = c_obuf c" "c_pool c1 = c_pool c"
    unfolding c1 using old by simp_all
  have e1: "io_evs (c_loop c1) sock = Some (io_event_new\<lparr>ev_mask := EPOLLOUT, write_cb := Some connection_succ, wcb_args := Some 0\<rparr>)"
    using assms(3,4) m by (simp add: l1 add_io_event_def epoll_ctl_def Let_def)
  have k1: "epoll_set (c_loop c1) sock = Some EPOLLOUT"
    using assms(3,4) m by (simp add: l1 add_io_event_def epoll_ctl_def Let_def)
  have "co.holds c1 []" "rb_ready (c_pool c1) (c_obuf c1)" using assms(1,2) l1 by (simp_all add: co.holds_def)
  then have c2: "co.holds c2 (encode_msg (i, data))" "rb_ready (c_pool c2) (c_obuf c2)" "c_sockfd c2 = sock"
      "c_loop c2 = add_io_event True sock write_callback EPOLLOUT (Some 0) (c_loop c1)"
    using client_send_ok [where e = "[]", OF _ _ assms(6)] l1(2) by simp_all
  have e2: "io_evs (c_loop c2) sock = Some (io_event_new\<lparr>ev_mask := EPOLLOUT, write_cb := Some write_callback, wcb_args := Some 0\<rparr>)"
    using e1 k1 m by (simp add: c2(4) add_io_event_def epoll_ctl_def Let_def io_event_new_def)
  have len: "int (length (encode_msg (i, data))) = 8 + int (length data)" "encode_msg (i, data) \<noteq> []"
    by (simp_all add: encode_msg_def encode_head_def le32_def)
  obtain s where w: "client_do_write env [Wr (8 + int (length data))] c2 =
      Inr (c_upd_loop (del_io_event_mask True (c_sockfd c2) EPOLLOUT) (c_put_obuf (c_obuf c2) s c2))"
    using client_write_all [OF c2(1,2) len(2)] unfolding len(1) by blast
  moreover have "io_evs (del_io_event_mask True sock EPOLLOUT (c_loop c2)) sock = None"
    using e2 m by (simp add: del_io_event_mask_def del_io_event_def Let_def io_event_new_def)
  ultimately show ?thesis using e1 e2 c2(3) by simp
qed

lemma early_send_deaf_witness:
  "\<exists>c1 c2 c3. client_do_connect demo_cli_env 6 ConnInProgress 0 demo_client = Inr c1 \<and>
     client_send_message [7] 1 c1 = Inr (0, c2) \<and> client_do_write demo_cli_env [Wr 9] c2 = Inr c3 \<and> io_evs (c_loop c3) 6 = None"
proof -
  obtain c1 where c1: "client_do_connect demo_cli_env 6 ConnInProgress 0 demo_client = Inr c1" "c_obuf c1 = NULL" "c_pool c1 = demo_pool"
    by (simp add: client_do_connect_def demo_client_ok)
  let ?h = "encode_head \<lparr>msgid = 1, msglen = 1\<rparr>"
  obtain s1 where s1: "send_data ?h NULL demo_pool = Inr (0, Ptr 1, s1)"
    using send_data_first [OF demo_pool_ok(1), of ?h] demo_alloc [of 8] by fastforce
  obtain s2 where s2: "send_data [7] (Ptr 1) s1 = Inr (0, Ptr 1, s2)"
    using send_data_ok [OF demo_pool_ok(1) _ _ s1, of "[]"] send_data_small [of s1 1 ?h "[7]"] by auto
  obtain c2 where c2: "client_send_message [7] 1 c1 = Inr (0, c2)"
    using c1(2,3) s1 s2 by (simp add: client_send_message_def send_framed_def rb_length_def Let_def)
  show ?thesis
    using early_send_deaf [OF demo_client_ok(2) _ _ _ c1(1) c2] c1(1) c2 by (auto simp: demo_client_ok event_loop_new_def)
qed

text \<open>
  Closing does not finish with the connection. \<open>clean_conn\<close> keeps the descriptor, so the next \<open>do_connect\<close>
  closes it again, although the process may have opened another file under that number by then; and the bytes
  left in both buffers stay, so the new connection's stream begins with the rest of the old one.
\<close>

theorem reconnect_after_clean:
  assumes "client_ok c d e" and "c_sockfd c \<noteq> - 1" and "cli_close_cb env = None" and "sock \<noteq> - 1"
  shows "\<exists>c1 c2. client_clean_conn env c = Inr c1 \<and> client_do_connect env sock ConnInProgress err c1 = Inr c2 \<and>
    c_closed c2 = c_closed c @ [c_sockfd c, c_sockfd c] \<and> c_sockfd c2 = sock \<and> ci.holds c2 d \<and> co.holds c2 e"
proof -
  let ?c1 = "c_close (c_sockfd c) (c_upd_loop (del_io_event (c_sockfd c)) c)"
  have "client_clean_conn env c = Inr ?c1" using assms(2,3) by (simp add: client_clean_conn_def c_hook_def)
  then show ?thesis using assms by (auto simp: client_do_connect_def Let_def client_ok_def ci.holds_def co.holds_def)
qed

lemma reconnect_after_clean_witness:
  "\<exists>c1 c2. client_clean_conn demo_cli_env (demo_client\<lparr>c_sockfd := 4, c_obuf := Ptr 0\<rparr>) = Inr c1 \<and>
     client_do_connect demo_cli_env 6 ConnInProgress 0 c1 = Inr c2 \<and> c_closed c2 = [4, 4] \<and> co.holds c2 [1, 2, 3]"
  using reconnect_after_clean [of "demo_client\<lparr>c_sockfd := 4, c_obuf := Ptr 0\<rparr>" "[]" "[1, 2, 3]" demo_cli_env 6 0] demo_pool_ok
  by (auto simp: client_ok_def ci.holds_def co.holds_def demo_client_def demo_cli_env_def)

end
