(* ===== verification/Load_Balance.thy ===== *)
theory Load_Balance
  imports Host_Info Thread_Queue
begin

text \<open>
  \<open>load_balance\<close> (\<open>lars_lb_agent/include/load_balance.h\<close>, \<open>src/load_balance1.cpp\<close>): the hosts of one
  (modid, cmdid), each either idle or overloaded, how one is chosen for a client and how reported
  results move it. The \<open>host_info\<close> objects are on a heap, so that a pointer that outlives its object is
  seen. \<open>_host_map\<close> is an association list in the map's iteration order. Readings of \<open>time(NULL)\<close> are
  arguments: \<open>t0\<close> the first of a call, \<open>t1\<close> the one in \<open>set_idle\<close> or \<open>set_overload\<close>.
\<close>

datatype lb_status = PULLING | NEW

record load_balance =
  lb_modid :: i32
  lb_cmdid :: i32
  host_map :: "(u64 \<times> addr) list"
  idle_list :: "addr list"
  overload_list :: "addr list"
  access_cnt :: int
  lb_status :: lb_status
  last_update_time :: int
  host_heap :: "addr \<Rightarrow> host_info option"
  fresh_host :: addr

definition load_balance_new :: "i32 \<Rightarrow> i32 \<Rightarrow> int \<Rightarrow> load_balance" where
  "load_balance_new modid cmdid now =
     \<lparr>lb_modid = modid, lb_cmdid = cmdid, host_map = [], idle_list = [], overload_list = [], access_cnt = 0,
      lb_status = NEW, last_update_time = now, host_heap = (\<lambda>_. None), fresh_host = 0\<rparr>"

definition lb_empty :: "load_balance \<Rightarrow> bool" where
  "lb_empty s \<longleftrightarrow> host_map s = []"

definition host_at :: "load_balance \<Rightarrow> addr \<Rightarrow> host_info res" where
  "host_at s a = (case host_heap s a of None \<Rightarrow> Inl UseAfterFree | Some h \<Rightarrow> Inr h)"

definition set_host :: "addr \<Rightarrow> host_info \<Rightarrow> load_balance \<Rightarrow> load_balance" where
  "set_host a h s = s\<lparr>host_heap := (host_heap s)(a \<mapsto> h)\<rparr>"

definition pull :: "load_balance \<Rightarrow> (i32 \<times> i32) tqueue \<Rightarrow> (int \<times> load_balance \<times> (i32 \<times> i32) tqueue) res" where
  "pull s q = rbind (send (lb_modid s, lb_cmdid s) q) (\<lambda>q'. Inr (0, s\<lparr>lb_status := PULLING\<rparr>, q'))"

section \<open>\<open>update\<close>\<close>

text \<open>Step 2: a host of the response that is not in the map is new and idle. The constructor of
  \<open>host_info\<close> reads the clock once more; the model takes the time that \<open>update\<close> has read.\<close>

definition host_key :: "u32 \<times> i32 \<Rightarrow> u64" where
  "host_key h = mk_key_u (fst h) (snd h)"

definition add_host :: "load_balance_config \<Rightarrow> int \<Rightarrow> u32 \<times> i32 \<Rightarrow> load_balance \<Rightarrow> load_balance" where
  "add_host cfg now h s =
     (case map_of (host_map s) (host_key h) of
        Some _ \<Rightarrow> s
      | None \<Rightarrow>
          (let a = fresh_host s
           in s\<lparr>host_heap := (host_heap s)(a \<mapsto> host_info_new (fst h) (snd h) (init_succ_cnt cfg) now),
                fresh_host := Suc a, host_map := host_map s @ [(host_key h, a)], idle_list := idle_list s @ [a]\<rparr>))"

text \<open>Step 4: the object is deleted and taken off its list; its entry in the map stays.\<close>

definition delete_host :: "u64 \<Rightarrow> load_balance \<Rightarrow> load_balance res" where
  "delete_host k s =
     (case map_of (host_map s) k of
        None \<Rightarrow> Inl NullDeref
      | Some a \<Rightarrow>
          rbind (host_at s a) (\<lambda>hi.
            let s1 = (if overload hi then s\<lparr>overload_list := removeAll a (overload_list s)\<rparr>
                      else s\<lparr>idle_list := removeAll a (idle_list s)\<rparr>)
            in Inr (s1\<lparr>host_heap := (host_heap s1)(a := None)\<rparr>)))"

fun delete_hosts :: "u64 list \<Rightarrow> load_balance \<Rightarrow> load_balance res" where
  "delete_hosts [] s = Inr s"
| "delete_hosts (k # ks) s = rbind (delete_host k s) (delete_hosts ks)"

definition need_delete :: "(u32 \<times> i32) list \<Rightarrow> load_balance \<Rightarrow> u64 list" where
  "need_delete hosts s = sort (filter (\<lambda>k. k \<notin> set (map host_key hosts)) (map fst (host_map s)))"

definition lb_update :: "load_balance_config \<Rightarrow> int \<Rightarrow> (u32 \<times> i32) list \<Rightarrow> load_balance \<Rightarrow> load_balance res" where
  "lb_update cfg t0 hosts s =
     (if hosts = [] then Inl AssertFail
      else let s1 = fold (add_host cfg t0) hosts s
           in rbind (delete_hosts (need_delete hosts s1) s1) (\<lambda>s2.
                Inr (s2\<lparr>last_update_time := t0, lb_status := NEW\<rparr>)))"

section \<open>Choosing a host\<close>

text \<open>\<open>get_host_from_list\<close>: the first host of the list, which moves to its end.\<close>

definition get_host_from_list :: "load_balance \<Rightarrow> addr list \<Rightarrow> ((u32 \<times> i32) \<times> addr list) res" where
  "get_host_from_list s l =
     (case l of
        [] \<Rightarrow> Inl EmptyFront
      | a # as \<Rightarrow> rbind (host_at s a) (\<lambda>host. Inr ((h_ip host, h_port host), as @ [a])))"

definition get_all_hosts :: "load_balance \<Rightarrow> addr list" where
  "get_all_hosts s = map snd (host_map s)"

definition from_idle :: "load_balance \<Rightarrow> (ret_code \<times> (u32 \<times> i32) option \<times> load_balance) res" where
  "from_idle s =
     rbind (get_host_from_list s (idle_list s)) (\<lambda>(h, l). Inr (RET_SUCC, Some h, s\<lparr>idle_list := l\<rparr>))"

definition from_overload :: "load_balance \<Rightarrow> (ret_code \<times> (u32 \<times> i32) option \<times> load_balance) res" where
  "from_overload s =
     rbind (get_host_from_list s (overload_list s)) (\<lambda>(h, l). Inr (RET_SUCC, Some h, s\<lparr>overload_list := l\<rparr>))"

definition choice_one_host ::
  "load_balance_config \<Rightarrow> load_balance \<Rightarrow> (ret_code \<times> (u32 \<times> i32) option \<times> load_balance) res" where
  "choice_one_host cfg s =
     (if idle_list s = [] then
        (if probe_num cfg \<le> access_cnt s then from_overload (s\<lparr>access_cnt := 0\<rparr>)
         else Inr (RET_OVERLOAD, None, s\<lparr>access_cnt := access_cnt s + 1\<rparr>))
      else if overload_list s = [] then from_idle s
      else if probe_num cfg \<le> access_cnt s then from_overload (s\<lparr>access_cnt := 0\<rparr>)
      else from_idle (s\<lparr>access_cnt := access_cnt s + 1\<rparr>))"

section \<open>\<open>report\<close>\<close>

text \<open>Step 1, the counters.\<close>

definition count_result :: "bool \<Rightarrow> host_info \<Rightarrow> host_info" where
  "count_result succ h =
     (if succ then h\<lparr>vsucc := vsucc h + 1, rsucc := rsucc h + 1, contin_succ := contin_succ h + 1, contin_err := 0\<rparr>
      else h\<lparr>verr := verr h + 1, rerr := rerr h + 1, contin_err := contin_err h + 1, contin_succ := 0\<rparr>)"

text \<open>Step 2, the conditions for a change of state.\<close>

definition turns_overload :: "load_balance_config \<Rightarrow> host_info \<Rightarrow> bool" where
  "turns_overload cfg h \<longleftrightarrow>
     rate_gt (verr h) (vsucc h + verr h) (err_rate cfg) \<or> contin_err_limit cfg \<le> contin_err h"

definition turns_idle :: "load_balance_config \<Rightarrow> host_info \<Rightarrow> bool" where
  "turns_idle cfg h \<longleftrightarrow>
     rate_gt (vsucc h) (vsucc h + verr h) (succ_rate cfg) \<or> contin_succ_limit cfg \<le> contin_succ h"

text \<open>The last part, for a host whose state has not changed: the time windows.\<close>

definition check_window :: "load_balance_config \<Rightarrow> int \<Rightarrow> int \<Rightarrow> addr \<Rightarrow> host_info \<Rightarrow> load_balance \<Rightarrow> load_balance res" where
  "check_window cfg t0 t1 a h s =
     (if \<not> overload h then
        Inr (if idle_timeout cfg \<le> t0 - idle_ts h then set_host a (set_idle cfg t1 h) s else s)
      else case overload_ts h of
             None \<Rightarrow> Inl UninitRead
           | Some ts \<Rightarrow>
               Inr (if overload_timeout cfg \<le> t0 - ts
                    then set_host a (set_idle cfg t1 h)
                           (s\<lparr>overload_list := removeAll a (overload_list s), idle_list := idle_list s @ [a]\<rparr>)
                    else s))"

definition lb_report :: "load_balance_config \<Rightarrow> int \<Rightarrow> int \<Rightarrow> i32 \<Rightarrow> i32 \<Rightarrow> bool \<Rightarrow> load_balance \<Rightarrow> load_balance res" where
  "lb_report cfg t0 t1 ip port succ s =
     (case map_of (host_map s) (mk_key ip port) of
        None \<Rightarrow> Inr s
      | Some a \<Rightarrow>
          rbind (host_at s a) (\<lambda>h0.
            let h = count_result succ h0; s1 = set_host a h s
            in if \<not> overload h \<and> \<not> succ \<and> turns_overload cfg h then
                 Inr (set_host a (set_overload cfg t1 h)
                        (s1\<lparr>idle_list := removeAll a (idle_list s1), overload_list := overload_list s1 @ [a]\<rparr>))
               else if overload h \<and> succ \<and> turns_idle cfg h then
                 Inr (set_host a (set_idle cfg t1 h)
                        (s1\<lparr>overload_list := removeAll a (overload_list s1), idle_list := idle_list s1 @ [a]\<rparr>))
               else check_window cfg t0 t1 a h s1))"

section \<open>\<open>commit\<close>\<close>

record call_result =
  cr_ip :: u32
  cr_port :: i32
  cr_succ :: u32
  cr_err :: u32
  cr_overload :: bool

record status_request =
  sr_modid :: i32
  sr_cmdid :: i32
  sr_ts :: u32
  sr_caller :: i32
  sr_results :: "call_result list"

fun results_of :: "load_balance \<Rightarrow> bool \<Rightarrow> addr list \<Rightarrow> call_result list res" where
  "results_of s ov [] = Inr []"
| "results_of s ov (a # as) =
     rbind (host_at s a) (\<lambda>h. rbind (results_of s ov as) (\<lambda>rs.
       Inr (\<lparr>cr_ip = h_ip h, cr_port = h_port h, cr_succ = rsucc h, cr_err = rerr h, cr_overload = ov\<rparr> # rs)))"

text \<open>\<open>time(NULL)\<close> goes into a 32-bit field, which the reporter prints with \<open>%u\<close>.\<close>

definition commit :: "int \<Rightarrow> load_balance \<Rightarrow> status_request tqueue \<Rightarrow> status_request tqueue res" where
  "commit now s q =
     (if lb_empty s then Inr q
      else rbind (results_of s False (idle_list s)) (\<lambda>r1.
           rbind (results_of s True (overload_list s)) (\<lambda>r2.
             send \<lparr>sr_modid = lb_modid s, sr_cmdid = lb_cmdid s, sr_ts = word_of_int now, sr_caller = 127,
                   sr_results = r1 @ r2\<rparr> q)))"

section \<open>The invariant\<close>

text \<open>
  Every host of the map is on the heap under its own key, and it is on exactly one of the two lists,
  once, the one its flag says; an overloaded host has a time stamp.
\<close>

definition flagged :: "load_balance \<Rightarrow> addr \<Rightarrow> bool \<Rightarrow> bool" where
  "flagged s a ov \<longleftrightarrow> a \<in> snd ` set (host_map s) \<and> (\<exists>h. host_heap s a = Some h \<and> overload h = ov)"

definition host_entry :: "load_balance \<Rightarrow> u64 \<Rightarrow> addr \<Rightarrow> bool" where
  "host_entry s k a \<longleftrightarrow> a < fresh_host s \<and>
     (\<exists>h. host_heap s a = Some h \<and> k = mk_key_u (h_ip h) (h_port h) \<and> (overload h \<longrightarrow> overload_ts h \<noteq> None))"

definition lb_inv :: "load_balance \<Rightarrow> bool" where
  "lb_inv s \<longleftrightarrow>
     distinct (map fst (host_map s)) \<and> distinct (map snd (host_map s)) \<and>
     distinct (idle_list s) \<and> distinct (overload_list s) \<and>
     (\<forall>k a. (k, a) \<in> set (host_map s) \<longrightarrow> host_entry s k a) \<and>
     (\<forall>a. a \<in> set (idle_list s) \<longleftrightarrow> flagged s a False) \<and> (\<forall>a. a \<in> set (overload_list s) \<longleftrightarrow> flagged s a True)"

lemma set_host_simps [simp]:
  "host_map (set_host a h s) = host_map s" "idle_list (set_host a h s) = idle_list s"
  "overload_list (set_host a h s) = overload_list s" "access_cnt (set_host a h s) = access_cnt s"
  "fresh_host (set_host a h s) = fresh_host s" "host_heap (set_host a h s) = (host_heap s)(a \<mapsto> h)"
  by (simp_all add: set_host_def)

lemma lb_inv_new: "lb_inv (load_balance_new m c now)"
  by (simp add: lb_inv_def load_balance_new_def flagged_def)

lemma lb_inv_host:
  assumes "lb_inv s" and "map_of (host_map s) k = Some a"
  obtains h where "host_heap s a = Some h" "k = mk_key_u (h_ip h) (h_port h)" "overload h \<longrightarrow> overload_ts h \<noteq> None"
    "a \<in> set (idle_list s) \<longleftrightarrow> \<not> overload h" "a \<in> set (overload_list s) \<longleftrightarrow> overload h" "a \<in> snd ` set (host_map s)"
proof -
  have mem: "(k, a) \<in> set (host_map s)" using assms(2) by (rule map_of_SomeD)
  then have a: "a \<in> snd ` set (host_map s)" by force
  have "host_entry s k a" using assms(1) mem unfolding lb_inv_def by simp
  then obtain h where h: "host_heap s a = Some h" "k = mk_key_u (h_ip h) (h_port h)"
      "overload h \<longrightarrow> overload_ts h \<noteq> None"
    unfolding host_entry_def by auto
  have "a \<in> set (idle_list s) \<longleftrightarrow> flagged s a False" "a \<in> set (overload_list s) \<longleftrightarrow> flagged s a True"
    using assms(1) unfolding lb_inv_def by blast+
  with h a show thesis by (intro that [OF h]) (auto simp: flagged_def)
qed

text \<open>A host gets new contents, and the two lists are what its flag now says.\<close>

lemma lb_inv_update_host:
  assumes inv: "lb_inv s" and a: "host_heap s a = Some h0" "a \<in> snd ` set (host_map s)"
    and h: "h_ip h = h_ip h0" "h_port h = h_port h0" "overload h \<longrightarrow> overload_ts h \<noteq> None"
    and l: "distinct il" "distinct ol" "set il = (if overload h then set (idle_list s) - {a} else insert a (set (idle_list s)))"
      "set ol = (if overload h then insert a (set (overload_list s)) else set (overload_list s) - {a})"
  shows "lb_inv (set_host a h (s\<lparr>idle_list := il, overload_list := ol\<rparr>))"
proof -
  let ?s = "set_host a h (s\<lparr>idle_list := il, overload_list := ol\<rparr>)"
  have "host_entry ?s k x" if "(k, x) \<in> set (host_map s)" for k x
  proof -
    have "host_entry s k x" using inv that unfolding lb_inv_def by simp
    with a(1) h show ?thesis by (cases "x = a") (auto simp: host_entry_def)
  qed
  moreover have "flagged ?s x ov = (if x = a then overload h = ov else flagged s x ov)" for x ov
    using a(2) by (auto simp: flagged_def)
  moreover have "x \<in> set (idle_list s) \<longleftrightarrow> flagged s x False" "x \<in> set (overload_list s) \<longleftrightarrow> flagged s x True" for x
    using inv unfolding lb_inv_def by blast+
  moreover have "distinct (map fst (host_map s))" "distinct (map snd (host_map s))"
    using inv unfolding lb_inv_def by blast+
  ultimately show ?thesis using l unfolding lb_inv_def by (auto split: if_splits)
qed

lemma lb_inv_same_lists:
  assumes "lb_inv s" and "host_heap s a = Some h0" "a \<in> snd ` set (host_map s)"
    and "h_ip h = h_ip h0" "h_port h = h_port h0" "overload h = overload h0" "overload h \<longrightarrow> overload_ts h \<noteq> None"
  shows "lb_inv (set_host a h s)"
proof -
  have id: "s\<lparr>idle_list := idle_list s, overload_list := overload_list s\<rparr> = s" by simp
  have "a \<in> set (idle_list s) \<longleftrightarrow> \<not> overload h" "a \<in> set (overload_list s) \<longleftrightarrow> overload h"
    "distinct (idle_list s)" "distinct (overload_list s)"
    using assms(1-3,6) unfolding lb_inv_def by (auto simp: flagged_def)
  with lb_inv_update_host [OF assms(1-5,7), of "idle_list s" "overload_list s"] show ?thesis
    by (auto simp: insert_absorb)
qed

section \<open>The state machine of one host\<close>

text \<open>
  What one reported result does to the host it is about, as a function of that host alone: the
  specification \<open>report\<close> implements.
\<close>

definition report_host :: "load_balance_config \<Rightarrow> int \<Rightarrow> int \<Rightarrow> bool \<Rightarrow> host_info \<Rightarrow> host_info" where
  "report_host cfg t0 t1 succ h0 =
     (let h = count_result succ h0
      in if \<not> overload h0 then
           (if \<not> succ \<and> turns_overload cfg h then set_overload cfg t1 h
            else if idle_timeout cfg \<le> t0 - idle_ts h0 then set_idle cfg t1 h else h)
         else
           (if succ \<and> turns_idle cfg h \<or> overload_timeout cfg \<le> t0 - the (overload_ts h0) then set_idle cfg t1 h
            else h))"

lemma count_result_simps [simp]:
  "h_ip (count_result b h) = h_ip h" "h_port (count_result b h) = h_port h" "overload (count_result b h) = overload h"
  "overload_ts (count_result b h) = overload_ts h" "idle_ts (count_result b h) = idle_ts h"
  by (simp_all add: count_result_def)

lemma set_state_simps [simp]:
  "h_ip (set_idle c t h) = h_ip h" "h_port (set_idle c t h) = h_port h" "\<not> overload (set_idle c t h)"
  "h_ip (set_overload c t h) = h_ip h" "h_port (set_overload c t h) = h_port h" "overload (set_overload c t h)"
  "overload_ts (set_overload c t h) = Some t"
  by (simp_all add: set_idle_def set_overload_def)

text \<open>How the lists follow a change of the flag.\<close>

definition follow_flag :: "addr \<Rightarrow> bool \<Rightarrow> bool \<Rightarrow> load_balance \<Rightarrow> addr list \<times> addr list" where
  "follow_flag a old new s =
     (if old = new then (idle_list s, overload_list s)
      else if new then (removeAll a (idle_list s), overload_list s @ [a])
      else (idle_list s @ [a], removeAll a (overload_list s)))"

lemma lb_report_spec:
  assumes inv: "lb_inv s" and k: "map_of (host_map s) (mk_key ip port) = Some a" and h0: "host_heap s a = Some h0"
  shows "\<exists>s'. lb_report cfg t0 t1 ip port succ s = Inr s' \<and>
    s' = set_host a (report_host cfg t0 t1 succ h0)
      (s\<lparr>idle_list := fst (follow_flag a (overload h0) (overload (report_host cfg t0 t1 succ h0)) s),
         overload_list := snd (follow_flag a (overload h0) (overload (report_host cfg t0 t1 succ h0)) s)\<rparr>)"
proof -
  obtain ts where ts: "overload h0 \<longrightarrow> overload_ts h0 = Some ts"
    using lb_inv_host [OF inv k] h0 by (metis not_None_eq option.inject)
  have sh: "set_host a h (set_host a h' s) = set_host a h s" for h h' s by (simp add: set_host_def)
  have sl: "set_host a h (set_host a h' s\<lparr>idle_list := il, overload_list := ol\<rparr>) = set_host a h (s\<lparr>idle_list := il, overload_list := ol\<rparr>)"
    "set_host a h (set_host a h' s\<lparr>overload_list := ol, idle_list := il\<rparr>) = set_host a h (s\<lparr>idle_list := il, overload_list := ol\<rparr>)"
    for h h' il ol by (simp_all add: set_host_def)
  have id: "set_host a h (s\<lparr>idle_list := idle_list s, overload_list := overload_list s\<rparr>) = set_host a h s" for h
    by (simp add: set_host_def)
  show ?thesis
    using k h0 ts
    by (cases "overload h0"; cases succ)
      (auto simp: lb_report_def host_at_def Let_def report_host_def follow_flag_def check_window_def sh sl id)
qed

lemma lb_report_inv:
  assumes inv: "lb_inv s" and k: "map_of (host_map s) (mk_key ip port) = Some a" and h0: "host_heap s a = Some h0"
    and run: "lb_report cfg t0 t1 ip port succ s = Inr s'"
  shows "lb_inv s'"
proof -
  let ?h = "report_host cfg t0 t1 succ h0"
  obtain s1: "s' = set_host a ?h (s\<lparr>idle_list := fst (follow_flag a (overload h0) (overload ?h) s),
         overload_list := snd (follow_flag a (overload h0) (overload ?h) s)\<rparr>)"
    using lb_report_spec [OF inv k h0, of cfg t0 t1 succ] run by auto
  obtain h where h: "host_heap s a = Some h" "overload h \<longrightarrow> overload_ts h \<noteq> None"
      "a \<in> set (idle_list s) \<longleftrightarrow> \<not> overload h" "a \<in> set (overload_list s) \<longleftrightarrow> overload h" "a \<in> snd ` set (host_map s)"
    using lb_inv_host [OF inv k] by metis
  have same: "h_ip ?h = h_ip h0" "h_port ?h = h_port h0" "overload ?h \<longrightarrow> overload_ts ?h \<noteq> None"
    using h(1,2) h0 by (auto simp: report_host_def Let_def)
  have d: "distinct (idle_list s)" "distinct (overload_list s)" using inv by (auto simp: lb_inv_def)
  have "distinct (removeAll a (idle_list s))" "distinct (removeAll a (overload_list s))"
    using d by (simp_all add: distinct_removeAll)
  with d h h0 show ?thesis unfolding s1
    by (intro lb_inv_update_host [OF inv h0 h(5) same]) (auto simp: follow_flag_def)
qed

section \<open>Sequences of choices\<close>

definition host_of :: "load_balance \<Rightarrow> addr \<Rightarrow> u32 \<times> i32" where
  "host_of s a = (case host_heap s a of None \<Rightarrow> (0, 0) | Some h \<Rightarrow> (h_ip h, h_port h))"

fun choices :: "load_balance_config \<Rightarrow> nat \<Rightarrow> load_balance \<Rightarrow> ((ret_code \<times> (u32 \<times> i32) option) list \<times> load_balance) res" where
  "choices cfg 0 s = Inr ([], s)"
| "choices cfg (Suc m) s =
     rbind (choice_one_host cfg s) (\<lambda>(r, h, s1). rbind (choices cfg m s1) (\<lambda>(rs, s2). Inr ((r, h) # rs, s2)))"

lemma lb_inv_listed:
  assumes "lb_inv s" and "a \<in> set (idle_list s) \<or> a \<in> set (overload_list s)"
  shows "\<exists>h. host_heap s a = Some h \<and> (overload h \<longleftrightarrow> a \<in> set (overload_list s))"
proof -
  have "a \<in> set (idle_list s) \<longleftrightarrow> flagged s a False" "a \<in> set (overload_list s) \<longleftrightarrow> flagged s a True"
    using assms(1) unfolding lb_inv_def by blast+
  with assms(2) show ?thesis by (auto simp: flagged_def)
qed

lemma get_host_ok:
  assumes "lb_inv s" and "l \<noteq> []" and "l = idle_list s \<or> l = overload_list s"
  shows "get_host_from_list s l = Inr (host_of s (hd l), rotate1 l)"
proof -
  obtain h where "host_heap s (hd l) = Some h" using lb_inv_listed [OF assms(1), of "hd l"] assms(2,3) by auto
  with assms(2) show ?thesis by (cases l) (simp_all add: get_host_from_list_def host_at_def host_of_def)
qed

lemma lb_inv_cong:
  assumes "lb_inv s" and "host_map s' = host_map s" "host_heap s' = host_heap s" "fresh_host s' = fresh_host s"
    and "set (idle_list s') = set (idle_list s)" "distinct (idle_list s')"
    and "set (overload_list s') = set (overload_list s)" "distinct (overload_list s')"
  shows "lb_inv s'"
proof -
  have "host_entry s' k a = host_entry s k a" "flagged s' a b = flagged s a b" for k a b
    using assms(2-4) by (simp_all add: host_entry_def flagged_def)
  with assms show ?thesis unfolding lb_inv_def by auto
qed

lemma lb_inv_lists: "lb_inv s \<Longrightarrow> distinct (idle_list s) \<and> distinct (overload_list s)"
  by (simp add: lb_inv_def)

text \<open>The four branches of \<open>choice_one_host\<close>, and that it keeps the invariant.\<close>

lemma choice_idle:
  assumes "lb_inv s" and "idle_list s \<noteq> []" and "overload_list s = [] \<or> access_cnt s < probe_num cfg"
  shows "choice_one_host cfg s = Inr (RET_SUCC, Some (host_of s (hd (idle_list s))),
    s\<lparr>idle_list := rotate1 (idle_list s), access_cnt := access_cnt s + (if overload_list s = [] then 0 else 1)\<rparr>)"
proof -
  have "lb_inv (s\<lparr>access_cnt := n\<rparr>)" for n using lb_inv_lists [OF assms(1)] by (intro lb_inv_cong [OF assms(1)]) simp_all
  from get_host_ok [OF this] get_host_ok [OF assms(1,2)] assms(2,3) show ?thesis
    by (auto simp: choice_one_host_def from_idle_def host_of_def)
qed

lemma choice_probe:
  assumes "lb_inv s" and "overload_list s \<noteq> []" and "probe_num cfg \<le> access_cnt s"
  shows "choice_one_host cfg s = Inr (RET_SUCC, Some (host_of s (hd (overload_list s))),
    s\<lparr>overload_list := rotate1 (overload_list s), access_cnt := 0\<rparr>)"
proof -
  have "lb_inv (s\<lparr>access_cnt := n\<rparr>)" for n using lb_inv_lists [OF assms(1)] by (intro lb_inv_cong [OF assms(1)]) simp_all
  from get_host_ok [OF this] assms(2,3) show ?thesis
    by (auto simp: choice_one_host_def from_overload_def host_of_def)
qed

lemma choice_wait:
  "idle_list s = [] \<Longrightarrow> access_cnt s < probe_num cfg \<Longrightarrow>
   choice_one_host cfg s = Inr (RET_OVERLOAD, None, s\<lparr>access_cnt := access_cnt s + 1\<rparr>)"
  by (simp add: choice_one_host_def)

lemma choice_none:
  "idle_list s = [] \<Longrightarrow> overload_list s = [] \<Longrightarrow> probe_num cfg \<le> access_cnt s \<Longrightarrow>
   choice_one_host cfg s = Inl EmptyFront"
  by (simp add: choice_one_host_def from_overload_def get_host_from_list_def)

lemma choice_inv:
  assumes "lb_inv s" and "choice_one_host cfg s = Inr (r, h, s')"
  shows "lb_inv s'"
proof (cases "idle_list s \<noteq> [] \<and> (overload_list s = [] \<or> access_cnt s < probe_num cfg)")
  case True
  with choice_idle [OF assms(1)] assms lb_inv_lists [OF assms(1)] show ?thesis
    by (auto intro!: lb_inv_cong [OF assms(1)])
next
  case False
  show ?thesis
  proof (cases "access_cnt s < probe_num cfg")
    case True
    with False choice_wait [of s cfg] assms lb_inv_lists [OF assms(1)] show ?thesis
      by (auto intro!: lb_inv_cong [OF assms(1)])
  next
    case b: False
    then have "overload_list s \<noteq> []" using False choice_none [of s cfg] assms(2) by auto
    with b choice_probe [OF assms(1)] assms lb_inv_lists [OF assms(1)] show ?thesis
      by (auto intro!: lb_inv_cong [OF assms(1)])
  qed
qed

lemma choices_add:
  "choices cfg (m + n) s = rbind (choices cfg m s) (\<lambda>(rs, s1). rbind (choices cfg n s1) (\<lambda>(rs2, s2). Inr (rs @ rs2, s2)))"
proof (induction m arbitrary: s)
  case 0
  show ?case by (cases "choices cfg n s") auto
next
  case (Suc m)
  then show ?case by (auto simp: rbind_assoc rbind_def split: sum.splits prod.splits)
qed

lemma choices_idle:
  assumes "lb_inv s" and "idle_list s \<noteq> []" and "overload_list s = [] \<or> access_cnt s + int m \<le> probe_num cfg"
  shows "choices cfg m s = Inr
    (map (\<lambda>j. (RET_SUCC, Some (host_of s (idle_list s ! (j mod length (idle_list s)))))) [0..<m],
     s\<lparr>idle_list := rotate m (idle_list s), access_cnt := access_cnt s + (if overload_list s = [] then 0 else int m)\<rparr>)"
  using assms
proof (induction m arbitrary: s)
  case (Suc m)
  let ?l = "idle_list s"
  let ?s1 = "s\<lparr>idle_list := rotate1 ?l, access_cnt := access_cnt s + (if overload_list s = [] then 0 else 1)\<rparr>"
  have ch: "choice_one_host cfg s = Inr (RET_SUCC, Some (host_of s (hd ?l)), ?s1)"
    using choice_idle [OF Suc.prems(1,2)] Suc.prems(3) by auto
  have inv: "lb_inv ?s1" using choice_inv [OF Suc.prems(1) ch] .
  have rot: "rotate1 ?l ! (j mod length ?l) = ?l ! (Suc j mod length ?l)" for j
    using Suc.prems(2) by (simp add: nth_rotate1 mod_Suc_eq)
  have ho: "host_of ?s1 = host_of s" by (simp add: host_of_def fun_eq_iff)
  have "choices cfg m ?s1 = Inr
      (map (\<lambda>j. (RET_SUCC, Some (host_of s (?l ! (Suc j mod length ?l))))) [0..<m],
       s\<lparr>idle_list := rotate (Suc m) ?l, access_cnt := access_cnt s + (if overload_list s = [] then 0 else int (Suc m))\<rparr>)"
    using Suc.IH [OF inv] Suc.prems(2,3) rot ho by (auto simp: rotate1_rotate_swap rotate1_is_Nil_conv)
  then show ?case using ch Suc.prems(2) by (simp add: map_upt_Suc hd_conv_nth del: upt_Suc)
qed simp

lemma choices_wait:
  "idle_list s = [] \<Longrightarrow> access_cnt s + int m \<le> probe_num cfg \<Longrightarrow>
   choices cfg m s = Inr (replicate m (RET_OVERLOAD, None), s\<lparr>access_cnt := access_cnt s + int m\<rparr>)"
  by (induction m arbitrary: s) (simp_all add: choice_wait)

section \<open>Adding and deleting hosts\<close>

lemma add_host_inv:
  assumes "lb_inv s"
  shows "lb_inv (add_host cfg now h s)"
proof (cases "map_of (host_map s) (host_key h)")
  case None
  let ?a = "fresh_host s" let ?s = "add_host cfg now h s"
  have eq: "host_map ?s = host_map s @ [(host_key h, ?a)]" "idle_list ?s = idle_list s @ [?a]"
    "overload_list ?s = overload_list s" "fresh_host ?s = Suc ?a"
    "host_heap ?s = (host_heap s)(?a \<mapsto> host_info_new (fst h) (snd h) (init_succ_cnt cfg) now)"
    using None by (simp_all add: add_host_def Let_def)
  have entry: "host_entry s k x" if "(k, x) \<in> set (host_map s)" for k x
    using assms that by (simp add: lb_inv_def)
  have new: "?a \<notin> snd ` set (host_map s)"
  proof
    assume "?a \<in> snd ` set (host_map s)"
    then obtain k where "(k, ?a) \<in> set (host_map s)" by auto
    from entry [OF this] show False by (simp add: host_entry_def)
  qed
  have key: "host_key h \<notin> fst ` set (host_map s)" using None by (simp add: map_of_eq_None_iff)
  have "host_entry ?s k x" if "(k, x) \<in> set (host_map ?s)" for k x
  proof (cases "x = ?a")
    case True
    then have "k = host_key h" using that new by (auto simp: eq image_iff)
    with True show ?thesis by (simp add: host_entry_def eq host_info_new_def host_key_def)
  next
    case False
    with that have "host_entry s k x" by (auto simp: eq intro: entry)
    with False show ?thesis by (auto simp: host_entry_def eq)
  qed
  moreover have "flagged ?s x ov = (if x = ?a then \<not> ov else flagged s x ov)" for x ov
    using new by (auto simp: flagged_def eq host_info_new_def)
  moreover have "x \<in> set (idle_list s) \<longleftrightarrow> flagged s x False" "x \<in> set (overload_list s) \<longleftrightarrow> flagged s x True" for x
    using assms unfolding lb_inv_def by blast+
  moreover have "\<not> flagged s ?a ov" for ov using new by (simp add: flagged_def)
  moreover have "distinct (map fst (host_map s))" "distinct (map snd (host_map s))" "distinct (idle_list s)" "distinct (overload_list s)"
    using assms by (simp_all add: lb_inv_def)
  ultimately show ?thesis using new key unfolding lb_inv_def by (auto simp: eq)
next
  case (Some a)
  then show ?thesis using assms by (simp add: add_host_def)
qed

lemma add_hosts_inv: "lb_inv s \<Longrightarrow> lb_inv (fold (add_host cfg now) hosts s)"
  by (induction hosts arbitrary: s) (simp_all add: add_host_inv)

text \<open>The map after step 2: the old entries, then the new keys of the response.\<close>

lemma add_host_map:
  "map_of (host_map (add_host cfg now h s)) k =
     (if k = host_key h \<and> map_of (host_map s) k = None then Some (fresh_host s) else map_of (host_map s) k)"
  by (auto simp: add_host_def Let_def map_add_def split: option.splits)

lemma add_hosts_keys: "fst ` set (host_map (fold (add_host cfg now) hosts s)) = fst ` set (host_map s) \<union> host_key ` set hosts"
proof (induction hosts arbitrary: s)
  case (Cons h hosts)
  have "fst ` set (host_map (add_host cfg now h s)) = insert (host_key h) (fst ` set (host_map s))"
    by (auto simp: add_host_def Let_def map_of_eq_None_iff split: option.splits dest!: map_of_SomeD)
      (metis fst_conv image_eqI)
  with Cons show ?case by simp
qed simp

lemma add_hosts_old:
  "map_of (host_map s) k = Some a \<Longrightarrow> map_of (host_map (fold (add_host cfg now) hosts s)) k = Some a"
  by (induction hosts arbitrary: s) (simp_all add: add_host_map)

lemma add_host_heap:
  "lb_inv s \<Longrightarrow> map_of (host_map s) k = Some a \<Longrightarrow> host_heap (add_host cfg now h s) a = host_heap s a"
  using lb_inv_host [of s k a]
  by (auto simp: add_host_def Let_def lb_inv_def host_entry_def dest!: map_of_SomeD split: option.splits)

text \<open>Deleting hosts that are all still there: their objects are gone, their entries in the map are not.\<close>

lemma delete_hosts_ok:
  assumes "distinct ks" and "distinct (map fst (host_map s))" and "distinct (map snd (host_map s))"
    and "\<forall>k \<in> set ks. \<exists>a h. map_of (host_map s) k = Some a \<and> host_heap s a = Some h"
  shows "\<exists>s'. delete_hosts ks s = Inr s' \<and> host_map s' = host_map s \<and> access_cnt s' = access_cnt s \<and>
    (\<forall>k a. map_of (host_map s) k = Some a \<longrightarrow> host_heap s' a = (if k \<in> set ks then None else host_heap s a))"
  using assms
proof (induction ks arbitrary: s)
  case (Cons k ks)
  obtain a h where a: "map_of (host_map s) k = Some a" "host_heap s a = Some h" using Cons.prems(4) by auto
  obtain s1 where s1: "delete_host k s = Inr s1" "host_map s1 = host_map s" "access_cnt s1 = access_cnt s"
      "host_heap s1 = (host_heap s)(a := None)"
    using a by (auto simp: delete_host_def host_at_def Let_def)
  have inj: "k' = k" if "map_of (host_map s) k' = Some a" for k'
  proof -
    have "(k', a) \<in> set (host_map s)" "(k, a) \<in> set (host_map s)" using that a(1) by (auto dest: map_of_SomeD)
    moreover have "inj_on snd (set (host_map s))" using Cons.prems(3) by (simp add: distinct_map)
    ultimately show ?thesis by (metis inj_onD prod.inject snd_conv)
  qed
  have "\<forall>k' \<in> set ks. \<exists>a' h'. map_of (host_map s1) k' = Some a' \<and> host_heap s1 a' = Some h'"
    using Cons.prems(1,4) inj s1 by fastforce
  then obtain s2 where s2: "delete_hosts ks s1 = Inr s2" "host_map s2 = host_map s1" "access_cnt s2 = access_cnt s1"
      "\<forall>k a. map_of (host_map s1) k = Some a \<longrightarrow> host_heap s2 a = (if k \<in> set ks then None else host_heap s1 a)"
    using Cons.IH [of s1] Cons.prems(1-3) s1(2) by auto
  have "host_heap s2 a' = (if k' \<in> set (k # ks) then None else host_heap s a')"
    if "map_of (host_map s) k' = Some a'" for k' a'
  proof -
    have e: "host_heap s2 a' = (if k' \<in> set ks then None else host_heap s1 a')" using s2(4) that s1(2) by simp
    show ?thesis
    proof (cases "a' = a")
      case True
      with that have "k' = k" by (simp add: inj)
      with True e s1(4) show ?thesis by simp
    next
      case False
      then have "k' \<noteq> k" using that a(1) by auto
      with False e s1(4) show ?thesis by simp
    qed
  qed
  with s1 s2 show ?case by auto
qed simp

lemma delete_hosts_fresh: "delete_hosts ks s = Inr s' \<Longrightarrow> fresh_host s' = fresh_host s"
  by (induction ks arbitrary: s)
    (auto simp: rbind_eq_Inr delete_host_def Let_def split: option.splits if_splits)

lemma delete_hosts_dangling:
  "k \<in> set ks \<Longrightarrow> map_of (host_map s) k = Some a \<Longrightarrow> host_heap s a = None \<Longrightarrow> \<exists>e. delete_hosts ks s = Inl e"
proof (induction ks arbitrary: s)
  case (Cons k' ks)
  show ?case
  proof (cases "delete_host k' s")
    case (Inr s1)
    then have "k' \<noteq> k" using Cons.prems(2,3) by (auto simp: delete_host_def host_at_def)
    moreover have "host_map s1 = host_map s" "host_heap s1 a = None"
      using Inr Cons.prems(3) by (auto simp: delete_host_def rbind_eq_Inr Let_def split: option.splits)
    ultimately show ?thesis using Cons.IH [of s1] Cons.prems Inr by simp
  qed simp
qed simp

lemma need_delete_iff: "k \<in> set (need_delete hosts s) \<longleftrightarrow> k \<in> fst ` set (host_map s) \<and> k \<notin> host_key ` set hosts"
  by (auto simp: need_delete_def)

text \<open>
  \<open>commit\<close> queues one request that reports every host of the balancer exactly once, the idle ones first,
  with its real counters and its state; an empty balancer reports nothing.
\<close>

lemma commit_reports:
  assumes "lb_inv s" and "ev_counter q < 18446744073709551614"
  shows "\<exists>q'. commit now s q = Inr q' \<and>
    (if lb_empty s then q' = q
     else \<exists>req. q_items q' = q_items q @ [req] \<and> sr_modid req = lb_modid s \<and> sr_cmdid req = lb_cmdid s \<and>
       sr_ts req = word_of_int now \<and> sr_caller req = 127 \<and>
       sr_results req = map (\<lambda>a. let h = the (host_heap s a) in
         \<lparr>cr_ip = h_ip h, cr_port = h_port h, cr_succ = rsucc h, cr_err = rerr h, cr_overload = overload h\<rparr>)
         (idle_list s @ overload_list s)) \<and>
    distinct (idle_list s @ overload_list s) \<and> set (idle_list s @ overload_list s) = snd ` set (host_map s)"
proof -
  let ?r = "\<lambda>a. let h = the (host_heap s a) in
    \<lparr>cr_ip = h_ip h, cr_port = h_port h, cr_succ = rsucc h, cr_err = rerr h, cr_overload = overload h\<rparr>"
  have res: "results_of s ov as = Inr (map ?r as)"
    if "\<forall>a \<in> set as. \<exists>h. host_heap s a = Some h \<and> overload h = ov" for ov as
    using that by (induction as) (auto simp: host_at_def)
  have l: "x \<in> set (idle_list s) \<longleftrightarrow> flagged s x False" "x \<in> set (overload_list s) \<longleftrightarrow> flagged s x True" for x
    using assms(1) unfolding lb_inv_def by blast+
  have "distinct (idle_list s @ overload_list s)"
    using lb_inv_lists [OF assms(1)] l by (auto simp: flagged_def)
  moreover have "x \<in> set (idle_list s @ overload_list s) \<longleftrightarrow> x \<in> snd ` set (host_map s)" for x
  proof -
    have "flagged s x False \<or> flagged s x True" if x: "x \<in> snd ` set (host_map s)"
    proof -
      from x obtain k where "(k, x) \<in> set (host_map s)" by auto
      then have "host_entry s k x" using assms(1) by (simp add: lb_inv_def)
      with x show ?thesis by (auto simp: flagged_def host_entry_def)
    qed
    then show ?thesis using l [of x] by (auto simp: flagged_def)
  qed
  moreover have "results_of s False (idle_list s) = Inr (map ?r (idle_list s))"
    "results_of s True (overload_list s) = Inr (map ?r (overload_list s))"
    using l by (auto intro!: res simp: flagged_def)
  ultimately show ?thesis using assms(2) by (auto simp: commit_def send_def)
qed

section \<open>Properties\<close>

text \<open>
  C6: one reported result, for every state of the balancer in which no pointer dangles. A report for an
  unknown host is ignored. Otherwise the host it is about, and no other, changes exactly as the state
  machine \<open>report_host\<close> says, and if this flips its overload flag it moves from the one list to the end of the
  other; the invariant is kept and no branch of the code faults.
\<close>

theorem report_refines:
  assumes "lb_inv s"
  shows "case map_of (host_map s) (mk_key ip port) of
      None \<Rightarrow> lb_report cfg t0 t1 ip port succ s = Inr s
    | Some a \<Rightarrow> \<exists>h0 s'. host_heap s a = Some h0 \<and> lb_report cfg t0 t1 ip port succ s = Inr s' \<and> lb_inv s' \<and>
        host_heap s' = (host_heap s)(a \<mapsto> report_host cfg t0 t1 succ h0) \<and> host_map s' = host_map s \<and>
        (idle_list s', overload_list s') =
          follow_flag a (overload h0) (overload (report_host cfg t0 t1 succ h0)) s"
proof (cases "map_of (host_map s) (mk_key ip port)")
  case None
  then show ?thesis by (simp add: lb_report_def)
next
  case (Some a)
  obtain h0 where h0: "host_heap s a = Some h0" using lb_inv_host [OF assms Some] by metis
  obtain s' where s': "lb_report cfg t0 t1 ip port succ s = Inr s'"
      "s' = set_host a (report_host cfg t0 t1 succ h0)
      (s\<lparr>idle_list := fst (follow_flag a (overload h0) (overload (report_host cfg t0 t1 succ h0)) s),
         overload_list := snd (follow_flag a (overload h0) (overload (report_host cfg t0 t1 succ h0)) s)\<rparr>)"
    using lb_report_spec [OF assms Some h0, of cfg t0 t1 succ] by blast
  from lb_report_inv [OF assms Some h0 s'(1)] s' h0 Some show ?thesis by simp
qed

text \<open>A balancer with two hosts, for the witnesses.\<close>

definition demo_cfg :: load_balance_config where
  "demo_cfg = \<lparr>probe_num = 3, init_succ_cnt = 180, init_err_cnt = 5, err_rate = 1 / 8, succ_rate = 15 / 16,
     contin_err_limit = 1, contin_succ_limit = 2, idle_timeout = 15, overload_timeout = 15, update_timeout = 15\<rparr>"

definition demo_lb :: load_balance where
  "demo_lb = (case lb_update demo_cfg 100 [(1, 80), (2, 80)] (load_balance_new 1 1 100) of
     Inr s \<Rightarrow> s | Inl _ \<Rightarrow> load_balance_new 1 1 100)"

lemma demo_keys [simp]:
  "mk_key_u 1 80 = 4294967376" "mk_key_u 2 80 = 8589934672" "mk_key 1 80 = 4294967376" "mk_key 2 80 = 8589934672"
  by (simp_all add: mk_key_u_int mk_key_int)

lemma demo_lb_eq:
  "lb_update demo_cfg 100 [(1, 80), (2, 80)] (load_balance_new 1 1 100) = Inr demo_lb"
  "host_map demo_lb = [(4294967376, 0), (8589934672, 1)]" "idle_list demo_lb = [0, 1]" "overload_list demo_lb = []"
  "access_cnt demo_lb = 0" "host_of demo_lb 0 = (1, 80)" "host_of demo_lb 1 = (2, 80)"
  "host_heap demo_lb = [0 \<mapsto> host_info_new 1 80 180 100, 1 \<mapsto> host_info_new 2 80 180 100]"
  by (simp_all add: demo_lb_def lb_update_def add_host_def host_key_def load_balance_new_def Let_def need_delete_def
      host_of_def host_info_new_def demo_cfg_def)

lemma demo_lb_inv: "lb_inv demo_lb"
proof -
  define f where "f = fold (add_host demo_cfg 100) [(1, 80), (2, 80)] (load_balance_new 1 1 100)"
  have inv: "lb_inv f" unfolding f_def by (intro add_hosts_inv lb_inv_new)
  have eq: "demo_lb = f\<lparr>last_update_time := 100, lb_status := NEW\<rparr>" unfolding f_def
    by (simp add: demo_lb_def lb_update_def add_host_def host_key_def load_balance_new_def Let_def need_delete_def demo_cfg_def)
  show ?thesis unfolding eq by (rule lb_inv_cong [OF inv]) (use lb_inv_lists [OF inv] in simp_all)
qed

lemma report_refines_witness:
  "\<exists>s'. lb_report demo_cfg 101 101 2 80 False demo_lb = Inr s' \<and> lb_inv s'"
  using report_refines [OF demo_lb_inv, where ip = 2 and port = 80 and cfg = demo_cfg and ?t0.0 = 101 and ?t1.0 = 101 and succ = False] by (auto simp: demo_lb_eq)

text \<open>
  With no overloaded host, successive choices go round the idle hosts in turn: the \<open>j\<close>-th choice is the
  host at place \<open>j\<close> modulo the number of hosts, every call succeeds, and nothing else changes.
\<close>

theorem choice_round_robin:
  assumes "lb_inv s" and "idle_list s \<noteq> []" and "overload_list s = []"
  shows "choices cfg m s = Inr
    (map (\<lambda>j. (RET_SUCC, Some (host_of s (idle_list s ! (j mod length (idle_list s)))))) [0..<m],
     s\<lparr>idle_list := rotate m (idle_list s)\<rparr>)"
  using choices_idle [OF assms(1,2), of m cfg] assms(3) by simp

lemma choice_round_robin_witness:
  "choices demo_cfg 3 demo_lb = Inr ([(RET_SUCC, Some (1, 80)), (RET_SUCC, Some (2, 80)), (RET_SUCC, Some (1, 80))],
     demo_lb\<lparr>idle_list := [1, 0]\<rparr>)"
  using choice_round_robin [OF demo_lb_inv, of demo_cfg 3]
  by (simp add: demo_lb_eq demo_lb_eq(7) [unfolded One_nat_def] upt_rec mod_Suc eval_nat_numeral del: choices.simps)

text \<open>
  C20: with overloaded hosts, each is probed at a fixed rate: after a probe, the next \<open>probe_num\<close> choices go
  round the idle hosts (or answer \<open>RET_OVERLOAD\<close> if there are none), and the following one gives the
  overloaded host that has waited longest, moves it to the end and starts counting again.
\<close>

theorem choice_probes:
  assumes "lb_inv s" and "overload_list s \<noteq> []" and "access_cnt s = 0" and "probe_num cfg = int p"
  shows "\<exists>s'. choices cfg (p + 1) s = Inr
    ((if idle_list s = [] then replicate p (RET_OVERLOAD, None)
      else map (\<lambda>j. (RET_SUCC, Some (host_of s (idle_list s ! (j mod length (idle_list s)))))) [0..<p])
     @ [(RET_SUCC, Some (host_of s (hd (overload_list s))))], s') \<and>
    access_cnt s' = 0 \<and> overload_list s' = rotate1 (overload_list s) \<and> set (idle_list s') = set (idle_list s) \<and> lb_inv s'"
proof -
  let ?s1 = "s\<lparr>idle_list := rotate p (idle_list s), access_cnt := int p\<rparr>"
  have inv: "lb_inv ?s1" using lb_inv_lists [OF assms(1)] by (intro lb_inv_cong [OF assms(1)]) simp_all
  have one: "choice_one_host cfg ?s1 = Inr (RET_SUCC, Some (host_of s (hd (overload_list s))),
      ?s1\<lparr>overload_list := rotate1 (overload_list s), access_cnt := 0\<rparr>)"
    using choice_probe [OF inv, of cfg] assms(2,4) by (simp add: host_of_def)
  have "choices cfg p s = Inr (if idle_list s = [] then replicate p (RET_OVERLOAD, None)
      else map (\<lambda>j. (RET_SUCC, Some (host_of s (idle_list s ! (j mod length (idle_list s)))))) [0..<p], ?s1)"
    using choices_idle [OF assms(1), of p cfg] choices_wait [of s p cfg] assms(2-4) by auto
  with one show ?thesis
    using choice_inv [OF inv one] unfolding choices_add by (simp add: rotate1_rotate_swap)
qed

text \<open>The same balancer after the first host has failed.\<close>

definition demo_ov :: load_balance where
  "demo_ov = (case lb_report demo_cfg 101 101 1 80 False demo_lb of Inr s \<Rightarrow> s | Inl _ \<Rightarrow> demo_lb)"

lemma demo_ov_eq:
  "lb_report demo_cfg 101 101 1 80 False demo_lb = Inr demo_ov"
  "idle_list demo_ov = [1]" "overload_list demo_ov = [0]" "access_cnt demo_ov = 0"
  "host_of demo_ov 0 = (1, 80)" "host_of demo_ov 1 = (2, 80)"
  by (simp_all add: demo_ov_def lb_report_def demo_lb_eq host_at_def Let_def turns_overload_def count_result_def
      host_info_new_def demo_cfg_def host_of_def)

lemma demo_ov_inv: "lb_inv demo_ov"
  using lb_report_inv [OF demo_lb_inv _ _ demo_ov_eq(1)] by (simp add: demo_lb_eq)

lemma choice_probes_witness:
  "\<exists>s'. choices demo_cfg 4 demo_ov = Inr ([(RET_SUCC, Some (2, 80)), (RET_SUCC, Some (2, 80)),
     (RET_SUCC, Some (2, 80)), (RET_SUCC, Some (1, 80))], s') \<and> overload_list s' = [0]"
proof -
  have "probe_num demo_cfg = int 3" by (simp add: demo_cfg_def)
  from choice_probes [OF demo_ov_inv _ _ this] show ?thesis
    by (auto simp: demo_ov_eq demo_ov_eq(6) [unfolded One_nat_def] upt_rec simp del: choices.simps)
qed

text \<open>
  An update that brings every known host again, and any others, succeeds: the new hosts become idle
  at the end of the list, no known host changes its state or place, and the map then holds exactly the
  hosts of the response.
\<close>

theorem update_adds:
  assumes "lb_inv s" and "hosts \<noteq> []" and "fst ` set (host_map s) \<subseteq> host_key ` set hosts"
  shows "\<exists>s'. lb_update cfg t0 hosts s = Inr s' \<and> lb_inv s' \<and> lb_status s' = NEW \<and> last_update_time s' = t0 \<and>
    fst ` set (host_map s') = host_key ` set hosts \<and>
    (\<exists>new. idle_list s' = idle_list s @ new) \<and> overload_list s' = overload_list s \<and>
    (\<forall>k a. map_of (host_map s) k = Some a \<longrightarrow> map_of (host_map s') k = Some a \<and> host_heap s' a = host_heap s a)"
proof -
  define s1 where "s1 = fold (add_host cfg t0) hosts s"
  have inv: "lb_inv s1" using add_hosts_inv [OF assms(1)] by (simp add: s1_def)
  have keys: "fst ` set (host_map s1) = host_key ` set hosts" using assms(3) add_hosts_keys [of cfg t0 hosts s]
    by (auto simp: s1_def)
  have "k \<notin> set (need_delete hosts s1)" for k using keys by (simp add: need_delete_iff)
  then have "need_delete hosts s1 = []" by (meson list.set_sel(1))
  then have run: "lb_update cfg t0 hosts s = Inr (s1\<lparr>last_update_time := t0, lb_status := NEW\<rparr>)"
    using assms(2) by (simp add: lb_update_def s1_def)
  have "lb_inv (s1\<lparr>last_update_time := t0, lb_status := NEW\<rparr>)"
    by (rule lb_inv_cong [OF inv]) (use lb_inv_lists [OF inv] in simp_all)
  moreover have "(\<exists>new. idle_list s1 = idle_list s @ new) \<and> overload_list s1 = overload_list s \<and>
    (\<forall>k a. map_of (host_map s) k = Some a \<longrightarrow> map_of (host_map s1) k = Some a \<and> host_heap s1 a = host_heap s a)"
    unfolding s1_def using assms(1)
  proof (induction hosts arbitrary: s)
    case (Cons h hosts)
    let ?s = "add_host cfg t0 h s"
    have "\<exists>new. idle_list ?s = idle_list s @ new" "overload_list ?s = overload_list s"
      by (auto simp: add_host_def Let_def split: option.splits)
    moreover have "map_of (host_map ?s) k = Some a \<and> host_heap ?s a = host_heap s a" if "map_of (host_map s) k = Some a" for k a
      using that add_host_heap [OF Cons.prems that] by (simp add: add_host_map)
    ultimately have step: "\<exists>new. idle_list ?s = idle_list s @ new" "overload_list ?s = overload_list s"
      "\<And>k a. map_of (host_map s) k = Some a \<Longrightarrow> map_of (host_map ?s) k = Some a \<and> host_heap ?s a = host_heap s a"
      by blast+
    let ?t = "fold (add_host cfg t0) hosts ?s"
    have "\<exists>new. idle_list ?t = idle_list ?s @ new" "overload_list ?t = overload_list ?s"
      "\<And>k a. map_of (host_map ?s) k = Some a \<Longrightarrow> map_of (host_map ?t) k = Some a \<and> host_heap ?t a = host_heap ?s a"
      using Cons.IH [OF add_host_inv [OF Cons.prems]] by blast+
    with step have "\<exists>new. idle_list ?t = idle_list s @ new" "overload_list ?t = overload_list s"
      "\<And>k a. map_of (host_map s) k = Some a \<Longrightarrow> map_of (host_map ?t) k = Some a \<and> host_heap ?t a = host_heap s a"
      by (metis append_assoc)+
    then show ?case by simp
  qed simp
  ultimately show ?thesis using run keys by auto
qed

lemma update_adds_witness:
  "\<exists>s'. lb_update demo_cfg 200 [(2, 80), (3, 80), (1, 80)] demo_lb = Inr s' \<and> lb_inv s' \<and>
     host_heap s' 1 = Some (host_info_new 2 80 180 100)"
proof -
  have "fst ` set (host_map demo_lb) \<subseteq> host_key ` set [(2, 80), (3, 80), (1, 80)]"
    by (simp add: demo_lb_eq host_key_def)
  from update_adds [OF demo_lb_inv _ this, of demo_cfg 200] obtain s' where
    s': "lb_update demo_cfg 200 [(2, 80), (3, 80), (1, 80)] demo_lb = Inr s'" "lb_inv s'"
      "\<forall>k a. map_of (host_map demo_lb) k = Some a \<longrightarrow> map_of (host_map s') k = Some a \<and> host_heap s' a = host_heap demo_lb a"
    by blast
  have "map_of (host_map demo_lb) 8589934672 = Some 1" by (simp add: demo_lb_eq)
  with s'(3) have "host_heap s' 1 = host_heap demo_lb 1" by blast
  with s'(1,2) show ?thesis by (simp add: demo_lb_eq)
qed

text \<open>
  An update that leaves out a known host deletes its object but not its entry in \<open>_host_map\<close>. A later
  report for that host, and every later update that still leaves it out, uses the deleted object.
\<close>

theorem update_leaves_dangling:
  assumes "lb_inv s" and "hosts \<noteq> []" and "map_of (host_map s) (mk_key ip port) = Some a"
    and "mk_key ip port \<notin> host_key ` set hosts"
  shows "\<exists>s'. lb_update cfg t0 hosts s = Inr s' \<and> map_of (host_map s') (mk_key ip port) = Some a \<and>
    lb_report cfg t1 t2 ip port succ s' = Inl UseAfterFree \<and>
    (\<forall>hosts2. mk_key ip port \<notin> host_key ` set hosts2 \<longrightarrow> (\<exists>e. lb_update cfg t3 hosts2 s' = Inl e))"
proof -
  let ?k = "mk_key ip port"
  define s1 where "s1 = fold (add_host cfg t0) hosts s"
  have inv: "lb_inv s1" using add_hosts_inv [OF assms(1)] by (simp add: s1_def)
  have k1: "map_of (host_map s1) ?k = Some a" using add_hosts_old [OF assms(3)] by (simp add: s1_def)
  have d: "distinct (map fst (host_map s1))" "distinct (map snd (host_map s1))" using inv by (simp_all add: lb_inv_def)
  have "\<exists>a h. map_of (host_map s1) k = Some a \<and> host_heap s1 a = Some h" if "k \<in> set (need_delete hosts s1)" for k
  proof -
    from that obtain x where "map_of (host_map s1) k = Some x"
      by (metis need_delete_iff map_of_eq_None_iff not_None_eq)
    then show ?thesis using lb_inv_host [OF inv] by metis
  qed
  moreover have "distinct (need_delete hosts s1)" using d(1) by (simp add: need_delete_def)
  ultimately obtain s2 where s2: "delete_hosts (need_delete hosts s1) s1 = Inr s2" "host_map s2 = host_map s1"
      "\<forall>k a. map_of (host_map s1) k = Some a \<longrightarrow>
         host_heap s2 a = (if k \<in> set (need_delete hosts s1) then None else host_heap s1 a)"
    using delete_hosts_ok [OF _ d] by blast
  have "?k \<in> set (need_delete hosts s1)"
    using k1 assms(4) by (metis need_delete_iff map_of_eq_None_iff option.distinct(1))
  then have dead: "host_heap s2 a = None" using s2(3) k1 by simp
  let ?s' = "s2\<lparr>last_update_time := t0, lb_status := NEW\<rparr>"
  have run: "lb_update cfg t0 hosts s = Inr ?s'" using assms(2) s2(1) by (simp add: lb_update_def s1_def)
  have rep: "lb_report cfg t1 t2 ip port succ ?s' = Inl UseAfterFree"
    using k1 s2(2) dead by (simp add: lb_report_def host_at_def)
  have "\<exists>e. lb_update cfg t3 hosts2 ?s' = Inl e" if "?k \<notin> host_key ` set hosts2" for hosts2
  proof -
    let ?s3 = "fold (add_host cfg t3) hosts2 ?s'"
    have k3: "map_of (host_map ?s3) ?k = Some a" using add_hosts_old k1 s2(2) by simp
    have "host_heap ?s3 a = None \<and> a < fresh_host ?s3"
    proof -
      have "a < fresh_host s2" if "fresh_host s2 = fresh_host s1"
        using lb_inv_host [OF inv k1] inv k1 that
        by (auto simp: lb_inv_def host_entry_def dest!: map_of_SomeD)
      moreover have "fresh_host s2 = fresh_host s1" using s2(1) by (rule delete_hosts_fresh)
      moreover have "host_heap (fold (add_host cfg t3) hs x) a = None \<and> a < fresh_host (fold (add_host cfg t3) hs x)"
        if "host_heap x a = None" "a < fresh_host x" for hs x
        using that by (induction hs arbitrary: x) (auto simp: add_host_def Let_def split: option.splits)
      ultimately show ?thesis using dead by simp
    qed
    moreover have "?k \<in> set (need_delete hosts2 ?s3)"
      using k3 that by (metis need_delete_iff map_of_eq_None_iff option.distinct(1))
    ultimately obtain e where "delete_hosts (need_delete hosts2 ?s3) ?s3 = Inl e"
      using delete_hosts_dangling k3 by blast
    then show ?thesis by (auto simp: lb_update_def)
  qed
  with run rep k1 s2(2) show ?thesis by auto
qed

lemma update_leaves_dangling_witness:
  "\<exists>s'. lb_update demo_cfg 200 [(2, 80)] demo_lb = Inr s' \<and>
     lb_report demo_cfg 201 201 1 80 True s' = Inl UseAfterFree"
proof -
  have "mk_key 1 80 \<notin> host_key ` set [(2, 80)]" "map_of (host_map demo_lb) (mk_key 1 80) = Some 0"
    by (simp_all add: demo_lb_eq host_key_def)
  from update_leaves_dangling [OF demo_lb_inv _ this(2,1)] show ?thesis by blast
qed

text \<open>
  When one host replaces another and then the first one comes back alone, the balancer is not empty but has no host on
  either list, and once \<open>probe_num\<close> choices have been answered with \<open>RET_OVERLOAD\<close> the next one takes the front of
  an empty list.
\<close>

theorem only_host_lost:
  assumes "host_key h1 \<noteq> host_key h2" and "probe_num cfg = int p"
  shows "\<exists>s1 s2 s3 s4. lb_update cfg t1 [h1] (load_balance_new m c t0) = Inr s1 \<and> lb_update cfg t2 [h2] s1 = Inr s2 \<and>
    lb_update cfg t3 [h1] s2 = Inr s3 \<and> \<not> lb_empty s3 \<and> idle_list s3 = [] \<and> overload_list s3 = [] \<and>
    choices cfg p s3 = Inr (replicate p (RET_OVERLOAD, None), s4) \<and> choice_one_host cfg s4 = Inl EmptyFront"
proof -
  obtain s1 where s1: "lb_update cfg t1 [h1] (load_balance_new m c t0) = Inr s1" "host_map s1 = [(host_key h1, 0)]"
      "idle_list s1 = [0]" "overload_list s1 = []" "fresh_host s1 = 1" "access_cnt s1 = 0"
      "host_heap s1 = [0 \<mapsto> host_info_new (fst h1) (snd h1) (init_succ_cnt cfg) t1]"
    by (simp add: lb_update_def add_host_def load_balance_new_def Let_def need_delete_def)
  obtain s2 where s2: "lb_update cfg t2 [h2] s1 = Inr s2" "host_map s2 = [(host_key h1, 0), (host_key h2, 1)]"
      "idle_list s2 = [1]" "overload_list s2 = []" "access_cnt s2 = 0"
      "host_heap s2 = [1 \<mapsto> host_info_new (fst h2) (snd h2) (init_succ_cnt cfg) t2]"
    using s1(2-7) assms(1)
    by (simp add: lb_update_def add_host_def Let_def need_delete_def delete_host_def host_at_def host_info_new_def)
  obtain s3 where s3: "lb_update cfg t3 [h1] s2 = Inr s3" "host_map s3 = [(host_key h1, 0), (host_key h2, 1)]"
      "idle_list s3 = []" "overload_list s3 = []" "access_cnt s3 = 0"
    using s2(2-6) assms(1)
    by (simp add: lb_update_def add_host_def Let_def need_delete_def delete_host_def host_at_def host_info_new_def)
  have "choices cfg p s3 = Inr (replicate p (RET_OVERLOAD, None), s3\<lparr>access_cnt := int p\<rparr>)"
    using choices_wait [of s3 p cfg] s3 assms(2) by simp
  moreover have "choice_one_host cfg (s3\<lparr>access_cnt := int p\<rparr>) = Inl EmptyFront"
    using choice_none s3 assms(2) by simp
  ultimately show ?thesis using s1(1) s2(1) s3 by (auto simp: lb_empty_def)
qed

lemma only_host_lost_witness:
  "\<exists>s1 s2 s3. lb_update demo_cfg 1 [(1, 80)] (load_balance_new 1 1 0) = Inr s1 \<and> lb_update demo_cfg 2 [(2, 80)] s1 = Inr s2 \<and>
    lb_update demo_cfg 3 [(1, 80)] s2 = Inr s3 \<and> idle_list s3 = [] \<and> overload_list s3 = []"
proof -
  have "host_key (1, 80) \<noteq> host_key (2, 80)" "probe_num demo_cfg = int 3" by (simp_all add: host_key_def demo_cfg_def)
  from only_host_lost [OF this] show ?thesis by blast
qed

end
