(* ===== verification/Agent.thy ===== *)
theory Agent
  imports Udp Lars_Api Tcp_Client Load_Balance
begin

text \<open>
  The agent (\<open>lars_lb_agent/src/agent_udp_server.cpp\<close>, \<open>dns_client.cpp\<close>): three UDP servers answer the API,
  each from its own \<open>route_lb\<close>; the DNS client passes their route requests on and hands the answers back.
  The source of class \<open>route_lb\<close> is not in the repository: its methods are parameters over a state \<open>'r\<close>;
  each runs under the object's mutex. Serialisation is a parameter as in \<open>Lars_Api\<close>.
\<close>

record 'r route_lb_ops =
  rl_get_host :: "i32 \<Rightarrow> i32 \<Rightarrow> 'r \<Rightarrow> (ret_code \<times> (u32 \<times> i32)) \<times> 'r"
  rl_get_route :: "i32 \<Rightarrow> i32 \<Rightarrow> 'r \<Rightarrow> (u32 \<times> i32) list \<times> 'r"
  rl_update_host :: "i32 \<Rightarrow> i32 \<Rightarrow> route_response \<Rightarrow> 'r \<Rightarrow> 'r"
  rl_report_host :: "report_request \<Rightarrow> 'r \<Rightarrow> 'r"
  rl_reset_lb_status :: "'r \<Rightarrow> 'r"

record agent_proto =
  parse_host_req :: "u8 list option \<Rightarrow> int \<Rightarrow> get_host_request"
  parse_report_req :: "u8 list option \<Rightarrow> int \<Rightarrow> report_request"
  parse_route_req :: "u8 list option \<Rightarrow> int \<Rightarrow> i32 \<times> i32"
  host_rsp_bytes :: "get_host_response \<Rightarrow> u8 list"
  route_rsp_bytes :: "route_response \<Rightarrow> u8 list"
  parse_dns_rsp :: "u8 list option \<Rightarrow> int \<Rightarrow> route_response"
  dns_req_bytes :: "i32 \<times> i32 \<Rightarrow> u8 list"
  DNS_GetRouteRequest :: int
  DNS_GetRouteResponse :: int

section \<open>The UDP servers\<close>

text \<open>\<open>udp_app\<close> is the array \<open>r_lb\<close>, and \<open>user_data\<close> the index of the server's own element.\<close>

type_synonym ('p, 'r) agent_srv = "('p, 'r list) udp"

definition report_cb :: "'r route_lb_ops \<Rightarrow> agent_proto \<Rightarrow> u8 list option \<Rightarrow> int \<Rightarrow> nat \<Rightarrow> ('p, 'r) agent_srv \<Rightarrow> ('p, 'r) agent_srv res" where
  "report_cb ops ap data len i s =
     Inr (s\<lparr>udp_app := (udp_app s)[i := rl_report_host ops (parse_report_req ap data len) (udp_app s ! i)]\<rparr>)"

definition get_host_cb ::
  "'r route_lb_ops \<Rightarrow> agent_proto \<Rightarrow> api_proto \<Rightarrow> bool \<Rightarrow> u8 list option \<Rightarrow> int \<Rightarrow> nat \<Rightarrow> ('p, 'r) agent_srv \<Rightarrow> ('p, 'r) agent_srv res" where
  "get_host_cb ops ap pb accepted data len i s =
     (let req = parse_host_req ap data len;
          modid = hq_modid req; cmdid = hq_cmdid req;
          ((retcode, host), r') = rl_get_host ops modid cmdid (udp_app s ! i);
          rsp = \<lparr>hr_seq = hq_seq req, hr_modid = modid, hr_cmdid = cmdid, hr_retcode = retcode, hr_host = host\<rparr>;
          s1 = s\<lparr>udp_app := (udp_app s)[i := r']\<rparr>
      in rbind (udp_send_message accepted (host_rsp_bytes ap rsp) (ID_GetHostResponse pb) s1) (\<lambda>(_, s2). Inr s2))"

definition get_route_cb ::
  "'r route_lb_ops \<Rightarrow> agent_proto \<Rightarrow> api_proto \<Rightarrow> bool \<Rightarrow> u8 list option \<Rightarrow> int \<Rightarrow> nat \<Rightarrow> ('p, 'r) agent_srv \<Rightarrow> ('p, 'r) agent_srv res" where
  "get_route_cb ops ap pb accepted data len i s =
     (let (modid, cmdid) = parse_route_req ap data len;
          (hosts, r') = rl_get_route ops modid cmdid (udp_app s ! i);
          rsp = \<lparr>rr_modid = modid, rr_cmdid = cmdid, rr_hosts = hosts\<rparr>;
          s1 = s\<lparr>udp_app := (udp_app s)[i := r']\<rparr>
      in rbind (udp_send_message accepted (route_rsp_bytes ap rsp) (ID_API_GetRouteResponse pb) s1) (\<lambda>(_, s2). Inr s2))"

text \<open>The callbacks by the numbers under which \<open>agent_server_main\<close> registers them.\<close>

definition agent_cb :: "'r route_lb_ops \<Rightarrow> agent_proto \<Rightarrow> api_proto \<Rightarrow> bool \<Rightarrow> ('p, 'r list) udp_cb" where
  "agent_cb ops ap pb accepted cb data len i0 u user_data s =
     (case user_data of
        None \<Rightarrow> Inl NullDeref
      | Some i \<Rightarrow>
          if length (udp_app s) \<le> i then Inl OutOfBounds
          else if cb = 0 then get_host_cb ops ap pb accepted data len i s
          else if cb = 1 then report_cb ops ap data len i s
          else get_route_cb ops ap pb accepted data len i s)"

definition agent_server_main :: "api_proto \<Rightarrow> nat \<Rightarrow> ('p, 'r) agent_srv \<Rightarrow> ('p, 'r) agent_srv" where
  "agent_server_main pb i s =
     udp_add_msg_router (ID_API_GetRouteRequest pb) 2 i
       (udp_add_msg_router (ID_ReportRequest pb) 1 i
         (udp_add_msg_router (ID_GetHostRequest pb) 0 i s))"

section \<open>The DNS client\<close>

record 'r dns_side =
  r_lb :: "'r list"
  dns_queue :: "(i32 \<times> i32) tqueue"

type_synonym 'r dns_client = "'r dns_side client"

definition upd_side :: "('r dns_side \<Rightarrow> 'r dns_side) \<Rightarrow> 'r dns_client \<Rightarrow> 'r dns_client" where
  "upd_side f c = c\<lparr>c_app := f (c_app c)\<rparr>"

text \<open>\<open>index = (modid + cmdid) % 3\<close>, the expression of the API.\<close>

definition deal_recv_route :: "'r route_lb_ops \<Rightarrow> agent_proto \<Rightarrow> u8 list option \<Rightarrow> int \<Rightarrow> 'r dns_client \<Rightarrow> 'r dns_client res" where
  "deal_recv_route ops ap data len c =
     (let rsp = parse_dns_rsp ap data len; modid = rr_modid rsp; cmdid = rr_cmdid rsp
      in rbind (sock_index modid cmdid) (\<lambda>index.
           Inr (upd_side (\<lambda>a. a\<lparr>r_lb := (r_lb a)[index := rl_update_host ops modid cmdid rsp (r_lb a ! index)]\<rparr>) c)))"

fun send_requests :: "agent_proto \<Rightarrow> (i32 \<times> i32) list \<Rightarrow> 'r dns_client \<Rightarrow> 'r dns_client res" where
  "send_requests ap [] c = Inr c"
| "send_requests ap (r # rs) c =
     rbind (client_send_message (dns_req_bytes ap r) (DNS_GetRouteRequest ap) c) (\<lambda>(_, c1). send_requests ap rs c1)"

definition new_dns_request :: "agent_proto \<Rightarrow> 'r dns_client \<Rightarrow> 'r dns_client res" where
  "new_dns_request ap c =
     (let (msgs, q) = recv (dns_queue (c_app c))
      in send_requests ap msgs (upd_side (\<lambda>a. a\<lparr>dns_queue := q\<rparr>) c))"

definition conn_init :: "'r route_lb_ops \<Rightarrow> 'r dns_client \<Rightarrow> 'r dns_client res" where
  "conn_init ops c = Inr (upd_side (\<lambda>a. a\<lparr>r_lb := map (rl_reset_lb_status ops) (take 3 (r_lb a)) @ drop 3 (r_lb a)\<rparr>) c)"

text \<open>
  \<open>dns_client_thread\<close>: the client, the queue of requests in its loop, the callback for the answers and the
  hook. The client connects in its constructor, before hook and callback are set.
\<close>

definition dns_client_env :: "'r route_lb_ops \<Rightarrow> agent_proto \<Rightarrow> 'r dns_side cli_env" where
  "dns_client_env ops ap =
     \<lparr>cli_start_cb = Some (conn_init ops), cli_close_cb = None,
      cli_router = snd (register_msg_router (DNS_GetRouteResponse ap) 0 0 msg_router_new),
      cli_msg_cb = (\<lambda>cb data len i u a c. deal_recv_route ops ap data len c)\<rparr>"

definition dns_client_thread ::
  "'r route_lb_ops \<Rightarrow> agent_proto \<Rightarrow> int \<Rightarrow> conn_ret \<Rightarrow> int \<Rightarrow> pool_st \<Rightarrow> 'r dns_side \<Rightarrow> ('r dns_side cli_env \<times> 'r dns_client) res" where
  "dns_client_thread ops ap sock conn so_error pool side =
     rbind (tcp_client_new \<lparr>cli_start_cb = None, cli_close_cb = None, cli_router = msg_router_new,
              cli_msg_cb = cli_msg_cb (dns_client_env ops ap)\<rparr> sock conn so_error pool event_loop_new side) (\<lambda>c.
       let q = set_queue_loop 0 (dns_queue (c_app c));
           c1 = upd_side (\<lambda>a. a\<lparr>dns_queue := q\<rparr>) c
       in Inr (dns_client_env ops ap, c_upd_loop (add_io_event True (evfd q) new_dns_request_cb EPOLLIN (Some 0)) c1))"

section \<open>Lemmas\<close>

lemma udp_send_ok:
  "length data \<le> 65519 \<Longrightarrow> \<exists>s'. udp_send_message True data i s = Inr (int (length data) + 8, s') \<and>
    outbox s' = outbox s @ [(peer s, encode_msg (i, data))] \<and> udp_app s' = udp_app s"
proof -
  assume l: "length data \<le> 65519"
  let ?h = "encode_head \<lparr>msgid = i, msglen = int (length data)\<rparr>"
  let ?w = "mem_write (mem_write (write_mem s) 0 ?h) 8 data"
  have "mem_read ?w 0 (int (length data) + 8) = mem_read ?w 0 8 @ mem_read ?w 8 (int (length data))"
    using mem_read_append [of 8 "int (length data)" ?w 0] by (simp add: add.commute)
  moreover have "mem_read (mem_write (write_mem s) 0 ?h) 0 8 = ?h"
    using mem_read_write_prefix [of 8 ?h "write_mem s" 0] by simp
  ultimately have "mem_read ?w 0 (int (length data) + 8) = encode_msg (i, data)"
    by (simp add: encode_msg_def)
  with l show ?thesis
    by (simp add: udp_send_message_def Let_def MESSAGE_LENGTH_LIMIT_def MESSAGE_HEAD_LEN_def)
qed

definition ids_ok :: "api_proto \<Rightarrow> bool" where
  "ids_ok pb \<longleftrightarrow> distinct [ID_GetHostRequest pb, ID_ReportRequest pb, ID_API_GetRouteRequest pb] \<and>
     (\<forall>i \<in> {ID_GetHostRequest pb, ID_ReportRequest pb, ID_API_GetRouteRequest pb, ID_GetHostResponse pb, ID_API_GetRouteResponse pb}. in_int i)"

lemma agent_router:
  assumes "ids_ok pb" and "udp_router s = msg_router_new"
  shows "router (udp_router (agent_server_main pb i s)) (ID_GetHostRequest pb) = Some 0"
    "args (udp_router (agent_server_main pb i s)) (ID_GetHostRequest pb) = Some i"
    "router (udp_router (agent_server_main pb i s)) (ID_API_GetRouteRequest pb) = Some 2"
    "args (udp_router (agent_server_main pb i s)) (ID_API_GetRouteRequest pb) = Some i"
  using assms by (auto simp: agent_server_main_def udp_add_msg_router_def register_msg_router_def msg_router_new_def ids_ok_def)

lemma agent_server_keeps [simp]:
  "udp_app (agent_server_main pb i s) = udp_app s" "outbox (agent_server_main pb i s) = outbox s"
  by (simp_all add: agent_server_main_def udp_add_msg_router_def)

lemma dgram_body_encode:
  assumes "in_int i" and "length body \<le> 65519"
  shows "dgram_body i (encode_msg (i, body)) = Some body"
proof -
  have "msg_ok (i, body)" using assms by (simp add: msg_ok_def MESSAGE_LENGTH_LIMIT_def MESSAGE_HEAD_LEN_def)
  from decode_encode_msg(1) [OF this, of "[]"] assms(2) show ?thesis
    by (simp add: dgram_body_def encode_msg_def)
qed

text \<open>The encodings of one request and of one response arrive as they were sent and fit in a datagram.\<close>

definition host_req_sent :: "api_proto \<Rightarrow> agent_proto \<Rightarrow> get_host_request \<Rightarrow> bool" where
  "host_req_sent pb ap r \<longleftrightarrow> length (host_req_bytes pb r) \<le> 4088 \<and>
     parse_host_req ap (Some (host_req_bytes pb r)) (int (length (host_req_bytes pb r))) = r"

definition host_rsp_sent :: "api_proto \<Rightarrow> agent_proto \<Rightarrow> get_host_response \<Rightarrow> bool" where
  "host_rsp_sent pb ap r \<longleftrightarrow> length (host_rsp_bytes ap r) \<le> 65519 \<and>
     parse_host_rsp pb (host_rsp_bytes ap r) (int (length (host_rsp_bytes ap r))) = Some r"

text \<open>
  A request of the API is answered: the datagram \<open>get_host\<close> sends goes to socket \<open>(modid + cmdid) % 3\<close>; the
  agent's server of that number reads it, asks its own \<open>route_lb\<close> and sends one datagram back to the
  sender; and with that datagram \<open>get_host\<close> returns exactly the return code and host \<open>route_lb\<close> gave.
\<close>

lemma agent_answers:
  assumes "ids_ok pb" and "0 \<le> sint modid + sint cmdid" and "in_int (sint modid + sint cmdid)"
    and "i = nat ((sint modid + sint cmdid) mod 3)" and "length rlbs = 3"
    and "host_req_sent pb ap \<lparr>hq_seq = seqid st, hq_modid = modid, hq_cmdid = cmdid\<rparr>"
    and "host_rsp_sent pb ap \<lparr>hr_seq = seqid st, hr_modid = modid, hr_cmdid = cmdid, hr_retcode = retcode, hr_host = (ip, port)\<rparr>"
    and "udp_router s = msg_router_new" and "udp_app s = rlbs"
    and "rl_get_host ops modid cmdid (rlbs ! i) = ((retcode, ip, port), r')"
  shows "\<exists>request answer s' st'.
    udp_server_do_read (agent_cb ops ap pb True) [Dgram p request, RecvEagain] (agent_server_main pb i s) = Inr s' \<and>
    udp_app s' = rlbs[i := r'] \<and> outbox s' = outbox s @ [(Some p, answer)] \<and>
    api_get_host pb True buf [Got answer] modid cmdid st =
      Inr (retcode, if retcode = RET_SUCC then Some (inet_ntoa ip, port) else None, st') \<and>
    api_sent st' = api_sent st @ [(i, request)]"
proof -
  let ?req = "\<lparr>hq_seq = seqid st, hq_modid = modid, hq_cmdid = cmdid\<rparr>"
  let ?rsp = "\<lparr>hr_seq = seqid st, hr_modid = modid, hr_cmdid = cmdid, hr_retcode = retcode, hr_host = (ip, port)\<rparr>"
  let ?body = "host_req_bytes pb ?req"
  let ?request = "encode_msg (ID_GetHostRequest pb, ?body)"
  let ?answer = "encode_msg (ID_GetHostResponse pb, host_rsp_bytes ap ?rsp)"
  let ?s0 = "(agent_server_main pb i s)\<lparr>peer := Some p\<rparr>"
  let ?s1 = "?s0\<lparr>read_mem := mem_write (read_mem ?s0) 0 ?request\<rparr>"
  have ids: "in_int (ID_GetHostRequest pb)" "in_int (ID_GetHostResponse pb)" using assms(1) by (simp_all add: ids_ok_def)
  have len: "length ?body \<le> 4088" "length (host_rsp_bytes ap ?rsp) \<le> 65519" using assms(6,7) by (simp_all add: host_req_sent_def host_rsp_sent_def)
  have i: "i < 3" "sock_index modid cmdid = Inr i" using assms(2-4) by (simp_all add: sock_index_cases nat_less_iff)
  have take: "take 65527 ?request = ?request" using len(1) by simp
  have "handle_dgram (agent_cb ops ap pb True) ?request ?s0 =
      agent_cb ops ap pb True 0 (Some ?body) (int (length ?body)) (ID_GetHostRequest pb) () (Some i) ?s1"
    using dgram_msg_encode [OF ids(1), of ?body] len(1) agent_router [OF assms(1,8), of i]
    by (simp add: handle_dgram_spec take router_call_def Let_def)
  also have "\<dots> = get_host_cb ops ap pb True (Some ?body) (int (length ?body)) i ?s1"
    using i(1) assms(5,9) by (simp add: agent_cb_def)
  also have "\<dots> = rbind (udp_send_message True (host_rsp_bytes ap ?rsp) (ID_GetHostResponse pb) (?s1\<lparr>udp_app := rlbs[i := r']\<rparr>)) (\<lambda>(_, s2). Inr s2)"
    using assms(6,9,10) by (simp add: get_host_cb_def Let_def host_req_sent_def)
  finally have run: "handle_dgram (agent_cb ops ap pb True) ?request ?s0 = \<dots>" .
  obtain s' where s': "udp_send_message True (host_rsp_bytes ap ?rsp) (ID_GetHostResponse pb) (?s1\<lparr>udp_app := rlbs[i := r']\<rparr>) =
      Inr (int (length (host_rsp_bytes ap ?rsp)) + 8, s')" "outbox s' = outbox s @ [(Some p, ?answer)]" "udp_app s' = rlbs[i := r']"
    using udp_send_ok [OF len(2), of "ID_GetHostResponse pb" "?s1\<lparr>udp_app := rlbs[i := r']\<rparr>"] by auto
  have "host_dgram pb ?answer = Some ?rsp"
    using dgram_body_encode [OF ids(2) len(2)] assms(7) by (simp add: host_dgram_def host_rsp_sent_def)
  then have "api_get_host pb True buf [Got ?answer] modid cmdid st =
      Inr (retcode, if retcode = RET_SUCC then Some (inet_ntoa ip, port) else None,
        st\<lparr>seqid := seqid st + 1, api_sent := api_sent st @ [(i, ?request)]\<rparr>)"
    using get_host_run [OF i(2) len(1), of "[]" ?answer ?rsp buf "[]"] by (simp add: host_of_ip_def)
  moreover have "udp_server_do_read (agent_cb ops ap pb True) [Dgram p ?request, RecvEagain] (agent_server_main pb i s) = Inr s'"
    using run s'(1) by simp
  ultimately show ?thesis using s'(2,3)
    by (intro exI [of _ ?request] exI [of _ ?answer] exI [of _ s'] exI [of _ "st\<lparr>seqid := seqid st + 1, api_sent := api_sent st @ [(i, ?request)]\<rparr>"]) simp
qed

text \<open>A DNS answer changes the one \<open>route_lb\<close> whose number the API computes for the module.\<close>

lemma deal_recv_route_run:
  assumes "parse_dns_rsp ap data len = rsp" and "rr_modid rsp = modid" and "rr_cmdid rsp = cmdid"
    and "0 \<le> sint modid + sint cmdid" and "in_int (sint modid + sint cmdid)"
    and "i = nat ((sint modid + sint cmdid) mod 3)"
  shows "deal_recv_route ops ap data len c =
    Inr (upd_side (\<lambda>a. a\<lparr>r_lb := (r_lb a)[i := rl_update_host ops modid cmdid rsp (r_lb a ! i)]\<rparr>) c)"
  using assms by (simp add: deal_recv_route_def Let_def sock_index_cases)

text \<open>
  What an answer of the DNS service does to the array \<open>r_lb\<close>, and the answers the agent can take: not empty
  and for a module with a \<open>route_lb\<close>.
\<close>

definition lb_number :: "i32 \<Rightarrow> i32 \<Rightarrow> nat" where
  "lb_number modid cmdid = nat ((sint modid + sint cmdid) mod 3)"

definition apply_route :: "'r route_lb_ops \<Rightarrow> route_response \<Rightarrow> 'r list \<Rightarrow> 'r list" where
  "apply_route ops rsp lbs =
     (let i = lb_number (rr_modid rsp) (rr_cmdid rsp)
      in lbs[i := rl_update_host ops (rr_modid rsp) (rr_cmdid rsp) rsp (lbs ! i)])"

definition module_ok :: "i32 \<Rightarrow> i32 \<Rightarrow> bool" where
  "module_ok modid cmdid \<longleftrightarrow> 0 \<le> sint modid + sint cmdid \<and> in_int (sint modid + sint cmdid)"

definition dns_answer :: "agent_proto \<Rightarrow> u8 list \<Rightarrow> route_response" where
  "dns_answer ap body = parse_dns_rsp ap (Some body) (int (length body))"

definition answer_ok :: "agent_proto \<Rightarrow> msg \<Rightarrow> bool" where
  "answer_ok ap m \<longleftrightarrow> fst m = DNS_GetRouteResponse ap \<and> snd m \<noteq> [] \<and>
     module_ok (rr_modid (dns_answer ap (snd m))) (rr_cmdid (dns_answer ap (snd m)))"

lemma dns_client_acts:
  "ci.acts_ok (client_msg_call (dns_client_env ops ap)) (answer_ok ap) (\<lambda>m. apply_route ops (dns_answer ap (snd m))) (r_lb \<circ> c_app)"
proof -
  have "\<exists>c'. client_msg_call (dns_client_env ops ap) i (int (length body)) (if c_ibuf c = NULL then None else Some body) c = Inr c' \<and>
      ci.holds c' d \<and> c_ibuf c' = c_ibuf c \<and> r_lb (c_app c') = apply_route ops (dns_answer ap body) (r_lb (c_app c))"
    if "answer_ok ap (i, body)" "ci.holds c d" "c_ibuf c = NULL \<longrightarrow> body = []" for i body c d
  proof -
    let ?rsp = "dns_answer ap body"
    have ok: "i = DNS_GetRouteResponse ap" "c_ibuf c \<noteq> NULL"
        "0 \<le> sint (rr_modid ?rsp) + sint (rr_cmdid ?rsp)" "in_int (sint (rr_modid ?rsp) + sint (rr_cmdid ?rsp))"
      using that by (auto simp: answer_ok_def module_ok_def)
    then have "client_msg_call (dns_client_env ops ap) i (int (length body)) (if c_ibuf c = NULL then None else Some body) c =
        deal_recv_route ops ap (Some body) (int (length body)) c"
      by (simp add: client_msg_call_def dns_client_env_def router_call_def register_msg_router_def msg_router_new_def)
    with deal_recv_route_run [OF dns_answer_def [symmetric] refl refl ok(3,4) refl, of ops c] that(2)
    show ?thesis by (simp add: apply_route_def lb_number_def upd_side_def ci.holds_def Let_def)
  qed
  then show ?thesis by (auto simp: ci.acts_ok_def c_put_ibuf_def)
qed

text \<open>\<open>do_read\<close> of the DNS client: the complete answers are applied in order.\<close>

lemma dns_client_reads:
  assumes "ci.holds c d" and "rb_ready (c_pool c) (c_ibuf c)"
    and "reserve (int (length bs)) (c_ibuf c) (c_pool c) = Inr (True, q, s1)" and "bs \<noteq> []"
    and "parse (d @ bs) = (ms, r, False)" and "\<not> ends_empty (d @ bs)" and "\<forall>m \<in> set ms. answer_ok ap m"
  shows "\<exists>c'. client_do_read (dns_client_env ops ap) (Some (int (length bs))) [Rd bs] c = Inr c' \<and> ci.holds c' r \<and>
    rb_ready (c_pool c') (c_ibuf c') \<and>
    r_lb (c_app c') = fold (apply_route ops) (map (\<lambda>m. dns_answer ap (snd m)) ms) (r_lb (c_app c))"
proof -
  have rd: "read_retry [Rd bs] = Inr (Rd bs, [])" by simp
  have "length ms \<le> max_frames" using client_fuel [OF assms(1-3) rd refl assms(5)] .
  from ci.read_frames_acts [OF assms(1,2) dns_client_acts assms(3) rd assms(4) refl assms(5,6) this assms(7)]
  show ?thesis unfolding client_do_read_def by (simp add: fold_map comp_def)
qed

text \<open>Requests for which the output buffer has room.\<close>

definition client_room :: "int \<Rightarrow> 'u client \<Rightarrow> bool" where
  "client_room k c \<longleftrightarrow> (\<exists>a b. c_obuf c = Ptr a \<and> bufs (c_pool c) a = Some b \<and> buf_len b + k \<le> capacity b)"

lemma client_room_app [simp]: "client_room k (upd_side f c) = client_room k c"
  by (simp add: client_room_def upd_side_def)

lemma holds_app [simp]: "co.holds (upd_side f c) e = co.holds c e"
  by (simp add: co.holds_def upd_side_def)

lemma client_send_room:
  assumes h: "co.holds c e" and rdy: "rb_ready (c_pool c) (c_obuf c)" and room: "client_room k c" and fits: "8 + int (length data) \<le> k"
  shows "\<exists>c'. client_send_message data i c = Inr (0, c') \<and> client_room (k - 8 - int (length data)) c' \<and> c_app c' = c_app c"
proof -
  let ?h = "encode_head \<lparr>msgid = i, msglen = int (length data)\<rparr>"
  obtain a b where ab: "c_obuf c = Ptr a" "bufs (c_pool c) a = Some b" "buf_len b + k \<le> capacity b"
    using room by (auto simp: client_room_def)
  have o: "pool_inv (c_pool c)" "rb_holds (c_pool c) (Ptr a) e" "rb_ready (c_pool c) (Ptr a)"
    using h rdy ab(1) by (auto simp: co.holds_def)
  obtain s1 b1 where s1: "send_data ?h (Ptr a) (c_pool c) = Inr (0, Ptr a, s1)" "bufs s1 a = Some b1"
      "capacity b1 = capacity b" "buf_len b1 = buf_len b + 8"
    using send_data_room [OF o ab(2), of ?h] ab(3) fits by auto
  have o1: "pool_inv s1" "rb_holds s1 (Ptr a) (e @ ?h)" "rb_ready s1 (Ptr a)"
    using send_data_ok [OF o s1(1)] by simp_all
  obtain s2 b2 where s2: "send_data data (Ptr a) s1 = Inr (0, Ptr a, s2)" "bufs s2 a = Some b2"
      "capacity b2 = capacity b1" "buf_len b2 = buf_len b1 + int (length data)"
    using send_data_room [OF o1 s1(2), of data] s1(3,4) ab(3) fits by auto
  have "\<exists>c'. client_send_message data i c = Inr (0, c') \<and> c_pool c' = s2 \<and> c_obuf c' = Ptr a \<and> c_app c' = c_app c"
    using co.holds_length [OF h] ab(1) s1(1) s2(1)
    by (simp add: client_send_message_def send_framed_def Let_def c_put_obuf_def c_upd_loop_def)
  then show ?thesis using s1(3,4) s2(2-4) ab(3) by (auto simp: client_room_def)
qed

abbreviation dns_msg :: "agent_proto \<Rightarrow> i32 \<times> i32 \<Rightarrow> msg" where
  "dns_msg ap r \<equiv> (DNS_GetRouteRequest ap, dns_req_bytes ap r)"

lemma send_requests_ok:
  "co.holds c e \<Longrightarrow> rb_ready (c_pool c) (c_obuf c) \<Longrightarrow>
   client_room (\<Sum>r\<leftarrow>rs. 8 + int (length (dns_req_bytes ap r))) c \<Longrightarrow>
   \<exists>c'. send_requests ap rs c = Inr c' \<and> co.holds c' (e @ concat (map (\<lambda>r. encode_msg (dns_msg ap r)) rs)) \<and>
     c_app c' = c_app c \<and> c_sockfd c' = c_sockfd c \<and>
     c_loop c' = (if e = [] \<and> rs \<noteq> [] then add_io_event True (c_sockfd c) write_callback EPOLLOUT (Some 0) (c_loop c) else c_loop c)"
proof (induction rs arbitrary: c e)
  case (Cons r rs)
  let ?m = "encode_msg (dns_msg ap r)"
  have ne: "?m \<noteq> []" by (simp add: encode_msg_def encode_head_def le32_def)
  have nn: "0 \<le> (\<Sum>r\<leftarrow>rs. 8 + int (length (dns_req_bytes ap r)))" by (induction rs) auto
  obtain c1 where c1: "client_send_message (dns_req_bytes ap r) (DNS_GetRouteRequest ap) c = Inr (0, c1)"
      "client_room (\<Sum>r\<leftarrow>rs. 8 + int (length (dns_req_bytes ap r))) c1" "c_app c1 = c_app c"
    using client_send_room [OF Cons.prems, where data = "dns_req_bytes ap r" and i = "DNS_GetRouteRequest ap"] nn by auto
  note ok = client_send_ok [OF Cons.prems(1,2) c1(1)]
  obtain c' where c': "send_requests ap rs c1 = Inr c'" "co.holds c' ((e @ ?m) @ concat (map (\<lambda>r. encode_msg (dns_msg ap r)) rs))"
      "c_app c' = c_app c1" "c_sockfd c' = c_sockfd c1" "c_loop c' = c_loop c1"
    using Cons.IH [of c1 "e @ ?m"] ok c1(2) ne by auto
  then show ?case using ok c1(1,3) by (intro exI [of _ c']) (simp del: c_upd_loop_simps)
qed simp

section \<open>Participants for the witnesses\<close>

definition demo_agent_proto :: agent_proto where
  "demo_agent_proto =
     \<lparr>parse_host_req = (\<lambda>b n. \<lparr>hq_seq = (case b of Some [q] \<Rightarrow> ucast q | _ \<Rightarrow> 0), hq_modid = 1, hq_cmdid = 2\<rparr>),
      parse_report_req = (\<lambda>b n. \<lparr>pq_modid = 1, pq_cmdid = 2, pq_retcode = 0, pq_host = (16777343, 80)\<rparr>),
      parse_route_req = (\<lambda>b n. (1, 2)), host_rsp_bytes = (\<lambda>r. [ucast (hr_seq r)]), route_rsp_bytes = (\<lambda>r. [0]),
      parse_dns_rsp = (\<lambda>b n. \<lparr>rr_modid = 1, rr_cmdid = 2, rr_hosts = [(16777343, 80)]\<rparr>),
      dns_req_bytes = (\<lambda>(m, c). [ucast m, ucast c]), DNS_GetRouteRequest = 1, DNS_GetRouteResponse = 2\<rparr>"

text \<open>A \<open>route_lb\<close> that keeps the hosts of the last answer and returns the first.\<close>

definition demo_route_lb :: "(u32 \<times> i32) list route_lb_ops" where
  "demo_route_lb =
     \<lparr>rl_get_host = (\<lambda>m c r. (case r of [] \<Rightarrow> (RET_NOEXIST, (0, 0)) | h # _ \<Rightarrow> (RET_SUCC, h), r)),
      rl_get_route = (\<lambda>m c r. (r, r)), rl_update_host = (\<lambda>m c rsp r. rr_hosts rsp),
      rl_report_host = (\<lambda>q r. r), rl_reset_lb_status = id\<rparr>"

definition demo_dns_client :: "(u32 \<times> i32) list dns_client" where
  "demo_dns_client = \<lparr>c_pool = demo_pool, c_loop = event_loop_new, c_sockfd = 6, c_ibuf = NULL, c_obuf = Ptr 0, c_closed = [],
     c_app = \<lparr>r_lb = [[], [], []], dns_queue = \<lparr>evfd = 9, ev_counter = 0, q_items = [], q_loop = None\<rparr>\<rparr>\<rparr>"

definition demo_agent_srv :: "(nat, (u32 \<times> i32) list) agent_srv" where
  "demo_agent_srv = \<lparr>read_mem = (\<lambda>_. 0), write_mem = (\<lambda>_. 0), peer = None, outbox = [], udp_router = msg_router_new,
     udp_app = [[(16777343, 80)], [], []]\<rparr>"

section \<open>Properties\<close>

text \<open>
  C15: a route the DNS service sends reaches the caller of the API. \<open>deal_recv_route\<close> hands the answer to the
  \<open>route_lb\<close> number \<open>(modid + cmdid) % 3\<close> and changes no other. A later \<open>get_host\<close> for the module sends its
  datagram to the socket of that number; the server behind it reads the datagram, asks this same
  \<open>route_lb\<close> and sends one answer to the sender; with it \<open>get_host\<close> returns exactly the code and host that
  \<open>route_lb\<close> chose.
\<close>

theorem route_reaches_caller:
  assumes "ids_ok pb" and "0 \<le> sint modid + sint cmdid" and "in_int (sint modid + sint cmdid)"
    and "i = nat ((sint modid + sint cmdid) mod 3)" and "length (r_lb (c_app c)) = 3"
    and "parse_dns_rsp ap data len = rsp" and "rr_modid rsp = modid" and "rr_cmdid rsp = cmdid"
    and "udp_router s = msg_router_new" and "deal_recv_route ops ap data len c = Inr c'" and "udp_app s = r_lb (c_app c')"
    and "rl_get_host ops modid cmdid (rl_update_host ops modid cmdid rsp (r_lb (c_app c) ! i)) = ((retcode, ip, port), r')"
    and "host_req_sent pb ap \<lparr>hq_seq = seqid st, hq_modid = modid, hq_cmdid = cmdid\<rparr>"
    and "host_rsp_sent pb ap \<lparr>hr_seq = seqid st, hr_modid = modid, hr_cmdid = cmdid, hr_retcode = retcode, hr_host = (ip, port)\<rparr>"
  shows "(\<forall>j. j \<noteq> i \<longrightarrow> r_lb (c_app c') ! j = r_lb (c_app c) ! j) \<and>
    (\<exists>request answer s' st'.
      udp_server_do_read (agent_cb ops ap pb True) [Dgram p request, RecvEagain] (agent_server_main pb i s) = Inr s' \<and>
      udp_app s' = (r_lb (c_app c))[i := r'] \<and> outbox s' = outbox s @ [(Some p, answer)] \<and>
      api_get_host pb True buf [Got answer] modid cmdid st =
        Inr (retcode, if retcode = RET_SUCC then Some (inet_ntoa ip, port) else None, st') \<and>
      api_sent st' = api_sent st @ [(i, request)])"
proof -
  have i: "i < 3" using assms(2,4) by (simp add: nat_less_iff)
  have c': "r_lb (c_app c') = (r_lb (c_app c))[i := rl_update_host ops modid cmdid rsp (r_lb (c_app c) ! i)]"
    using assms(10) deal_recv_route_run [OF assms(6-8,2-4), of ops c] by (auto simp: upd_side_def)
  with assms(5,12) i have "rl_get_host ops modid cmdid (r_lb (c_app c') ! i) = ((retcode, ip, port), r')" by simp
  moreover have "length (r_lb (c_app c')) = 3" using c' assms(5) by simp
  ultimately show ?thesis
    using agent_answers [OF assms(1-4) _ assms(13,14,9,11), of ops r' p buf] c' by auto
qed

lemma route_reaches_caller_witness:
  "\<exists>c' s' st' request answer.
     deal_recv_route demo_route_lb demo_agent_proto None 0 demo_dns_client = Inr c' \<and>
     udp_server_do_read (agent_cb demo_route_lb demo_agent_proto demo_api_proto True) [Dgram 4 request, RecvEagain]
       (agent_server_main demo_api_proto 0 demo_agent_srv) = Inr s' \<and> outbox s' = [(Some 4, answer)] \<and>
     api_get_host demo_api_proto True (\<lambda>_. 0) [Got answer] 1 2 \<lparr>seqid = 7, api_sent = []\<rparr> =
       Inr (RET_SUCC, Some (inet_ntoa 16777343, 80), st')"
proof -
  let ?rsp = "\<lparr>rr_modid = 1, rr_cmdid = 2, rr_hosts = [(16777343, 80)]\<rparr> :: route_response"
  let ?st = "\<lparr>seqid = 7, api_sent = []\<rparr> :: api"
  obtain c' where c': "deal_recv_route demo_route_lb demo_agent_proto None 0 demo_dns_client = Inr c'"
      "r_lb (c_app c') = udp_app demo_agent_srv"
    using deal_recv_route_run [of demo_agent_proto None 0 ?rsp 1 2 0 demo_route_lb demo_dns_client]
    by (simp add: demo_agent_proto_def demo_dns_client_def upd_side_def demo_route_lb_def demo_agent_srv_def in_int_def)
  have h: "ids_ok demo_api_proto" "0 \<le> sint (1 :: i32) + sint (2 :: i32)" "in_int (sint (1 :: i32) + sint (2 :: i32))"
    "0 = nat ((sint (1 :: i32) + sint (2 :: i32)) mod 3)" "length (r_lb (c_app demo_dns_client)) = 3"
    "parse_dns_rsp demo_agent_proto None 0 = ?rsp" "rr_modid ?rsp = 1" "rr_cmdid ?rsp = 2" "udp_router demo_agent_srv = msg_router_new"
    by (simp_all add: ids_ok_def demo_api_proto_def in_int_def demo_dns_client_def demo_agent_proto_def demo_agent_srv_def)
  have "rl_get_host demo_route_lb 1 2 (rl_update_host demo_route_lb 1 2 ?rsp (r_lb (c_app demo_dns_client) ! 0)) =
      ((RET_SUCC, 16777343, 80), [(16777343, 80)])"
    "host_req_sent demo_api_proto demo_agent_proto \<lparr>hq_seq = seqid ?st, hq_modid = 1, hq_cmdid = 2\<rparr>"
    "host_rsp_sent demo_api_proto demo_agent_proto \<lparr>hr_seq = seqid ?st, hr_modid = 1, hr_cmdid = 2, hr_retcode = RET_SUCC, hr_host = (16777343, 80)\<rparr>"
    by (simp_all add: demo_route_lb_def host_req_sent_def host_rsp_sent_def demo_api_proto_def demo_agent_proto_def)
  from route_reaches_caller [OF h c'(1) c'(2) [symmetric] this, of 4 "\<lambda>_. 0"] c'(1)
  show ?thesis by (auto simp: demo_agent_srv_def)
qed

text \<open>
  C26: a module a load balancer asks for is requested from the DNS service. \<open>pull\<close> queues the request; the next
  \<open>new_dns_request\<close> takes everything queued, appends one request per module to the connection's output in
  the order of the queue, this one last, empties the queue and its wake-up counter, and arms
  \<open>EPOLLOUT\<close> if nothing was waiting to be written. It needs room for the requests in the output buffer.
\<close>

theorem pull_requested:
  assumes "pull lb q = Inr (ret, lb', q')" and "dns_queue (c_app c) = q'"
    and "co.holds c e" and "rb_ready (c_pool c) (c_obuf c)"
    and "client_room (\<Sum>r\<leftarrow>q_items q'. 8 + int (length (dns_req_bytes ap r))) c"
  shows "\<exists>c'. new_dns_request ap c = Inr c' \<and>
    co.holds c' (e @ concat (map (\<lambda>r. encode_msg (dns_msg ap r)) (q_items q)) @ encode_msg (dns_msg ap (lb_modid lb, lb_cmdid lb))) \<and>
    q_items (dns_queue (c_app c')) = [] \<and> \<not> readable (dns_queue (c_app c')) \<and> r_lb (c_app c') = r_lb (c_app c) \<and>
    c_loop c' = (if e = [] then add_io_event True (c_sockfd c) write_callback EPOLLOUT (Some 0) (c_loop c) else c_loop c)"
proof -
  have q': "q_items q' = q_items q @ [(lb_modid lb, lb_cmdid lb)]"
    using assms(1) by (auto simp: pull_def send_def Let_def rbind_eq_Inr split: if_splits)
  let ?c = "upd_side (\<lambda>a. a\<lparr>dns_queue := snd (recv q')\<rparr>) c"
  have keep: "co.holds ?c e" "rb_ready (c_pool ?c) (c_obuf ?c)" "c_sockfd ?c = c_sockfd c" "c_loop ?c = c_loop c"
    using assms(3,4) by (simp_all add: upd_side_def) (simp add: co.holds_def)
  have "new_dns_request ap c = send_requests ap (q_items q') ?c"
    using assms(2) by (simp add: new_dns_request_def recv_def)
  moreover obtain c' where "send_requests ap (q_items q') ?c = Inr c'"
      "co.holds c' (e @ concat (map (\<lambda>r. encode_msg (dns_msg ap r)) (q_items q')))" "c_app c' = c_app ?c"
      "c_loop c' = (if e = [] \<and> q_items q' \<noteq> [] then add_io_event True (c_sockfd ?c) write_callback EPOLLOUT (Some 0) (c_loop ?c) else c_loop ?c)"
    using send_requests_ok [OF keep(1,2), of ap "q_items q'"] assms(5) unfolding client_room_app by blast
  ultimately show ?thesis
    by (intro exI [of _ c']) (simp add: q' keep(3,4) upd_side_def recv_def readable_def)
qed

lemma pull_requested_witness:
  "\<exists>ret lb' q' c'. pull (load_balance_new 1 2 0) (dns_queue (c_app demo_dns_client)) = Inr (ret, lb', q') \<and>
     new_dns_request demo_agent_proto (upd_side (\<lambda>a. a\<lparr>dns_queue := q'\<rparr>) demo_dns_client) = Inr c' \<and>
     co.holds c' ([1, 2, 3] @ encode_msg (1, [1, 2]))"
proof -
  let ?lb = "load_balance_new 1 2 0"
  obtain ret lb' q' where p: "pull ?lb (dns_queue (c_app demo_dns_client)) = Inr (ret, lb', q')" "q_items q' = [(1, 2)]"
    by (simp add: pull_def send_def demo_dns_client_def load_balance_new_def)
  let ?c = "upd_side (\<lambda>a. a\<lparr>dns_queue := q'\<rparr>) demo_dns_client"
  have "dns_queue (c_app ?c) = q'" by (simp add: upd_side_def)
  moreover have "co.holds ?c [1, 2, 3]" "rb_ready (c_pool ?c) (c_obuf ?c)"
    using demo_pool_ok by (simp_all add: upd_side_def demo_dns_client_def co.holds_def)
  moreover have "client_room (\<Sum>r\<leftarrow>q_items q'. 8 + int (length (dns_req_bytes demo_agent_proto r))) ?c"
    using demo_buf p(2) by (auto simp: client_room_def upd_side_def demo_dns_client_def demo_agent_proto_def)
  ultimately show ?thesis using pull_requested [OF p(1), of ?c "[1, 2, 3]" demo_agent_proto] p(1)
    by (auto simp: demo_dns_client_def demo_agent_proto_def load_balance_new_def)
qed

definition dns_watches :: "'r dns_client \<Rightarrow> bool" where
  "dns_watches c \<longleftrightarrow>
     io_evs (c_loop c) (c_sockfd c) = Some (io_event_new\<lparr>ev_mask := EPOLLIN, read_cb := Some read_callback, rcb_args := Some 0\<rparr>) \<and>
     io_evs (c_loop c) (evfd (dns_queue (c_app c))) =
       Some (io_event_new\<lparr>ev_mask := EPOLLIN, read_cb := Some new_dns_request_cb, rcb_args := Some 0\<rparr>)"

text \<open>
  The hook of the DNS client runs only if the connection is not made at once. In both cases the loop ends up
  watching the socket for answers and the queue for requests. When \<open>connect\<close> is in progress, all three
  \<open>route_lb\<close> are reset to NEW once the connection stands; when it succeeds at once, \<open>connection_succ\<close> has run inside
  the constructor, before \<open>set_conn_start\<close>, and no \<open>route_lb\<close> is ever reset.
\<close>

theorem dns_client_start:
  assumes "sock \<noteq> - 1" and "evfd (dns_queue side) \<noteq> sock" and "length (r_lb side) = 3"
  shows "(\<exists>c c1. dns_client_thread ops ap sock ConnInProgress so_error pool side = Inr (dns_client_env ops ap, c) \<and>
      client_connection_succ (dns_client_env ops ap) sock 0 c = Inr c1 \<and>
      r_lb (c_app c1) = map (rl_reset_lb_status ops) (r_lb side) \<and> dns_watches c1) \<and>
    (\<exists>c. dns_client_thread ops ap sock ConnOk 0 pool side = Inr (dns_client_env ops ap, c) \<and>
      r_lb (c_app c) = r_lb side \<and> dns_watches c)"
proof -
  note defs = dns_client_thread_def tcp_client_new_def client_do_connect_def client_connection_succ_def c_hook_def
    dns_client_env_def conn_init_def upd_side_def c_upd_loop_def rb_length_def dns_watches_def set_queue_loop_def Let_def
    add_io_event_def del_io_event_def epoll_ctl_def event_loop_new_def io_event_new_def EPOLLIN_def EPOLLOUT_def
  show ?thesis using assms by (intro conjI) (simp_all add: defs)
qed

lemma dns_client_start_witness:
  "\<exists>c c1. dns_client_thread demo_route_lb demo_agent_proto 6 ConnInProgress 0 demo_pool (c_app demo_dns_client) =
       Inr (dns_client_env demo_route_lb demo_agent_proto, c) \<and>
     client_connection_succ (dns_client_env demo_route_lb demo_agent_proto) 6 0 c = Inr c1 \<and> dns_watches c1"
  using dns_client_start [of 6 "c_app demo_dns_client" demo_route_lb demo_agent_proto 0 demo_pool]
  by (auto simp: demo_dns_client_def)

end
