(* ===== verification/Route_Push.thy ===== *)
theory Route_Push
  imports Dns_Service Agent
begin

text \<open>
  The two ends of the connection between the DNS service and the agent: what the bytes a push task appends
  to the connection's output become when the agent's DNS client reads them.
\<close>

section \<open>What is pushed to one connection\<close>

text \<open>The bytes for the modules \<open>ms\<close> that have changed.\<close>

definition pushed_bytes :: "dns_proto \<Rightarrow> route \<Rightarrow> u64 list \<Rightarrow> u8 list" where
  "pushed_bytes pb r ms = concat (map (\<lambda>m. encode_msg (route_msg pb r m)) ms)"

lemma concat_map_one:
  assumes "distinct (map fst xs)" and "(k, v) \<in> set xs" and "\<forall>k' \<in> set (map fst xs). k' \<noteq> k \<longrightarrow> \<not> P k'"
    and "P k"
  shows "concat (map (\<lambda>(k, v). if P k then f v else []) xs) = f v"
  using assms
proof (induction xs)
  case (Cons x xs)
  have none: "concat (map (\<lambda>(k, v). if P k then f v else []) ys) = []" if "\<forall>k' \<in> set (map fst ys). \<not> P k'" for ys
    using that by (auto simp: concat_eq_Nil_conv)
  show ?case
  proof (cases "x = (k, v)")
    case True
    then have "\<forall>k' \<in> set (map fst xs). \<not> P k'" using Cons.prems(1,3) by auto
    with none [OF this] True Cons.prems(4) show ?thesis by simp
  next
    case False
    then have "(k, v) \<in> set xs" using Cons.prems(2) by auto
    moreover from this have "fst x \<noteq> k" using Cons.prems(1) by (force simp: image_iff)
    then have "\<not> P (fst x)" using Cons.prems(3) by simp
    ultimately show ?thesis using Cons.IH Cons.prems by (cases x) auto
  qed
qed simp

lemma pushed_to:
  assumes "sub_inv n" and "push_ok (push_list (app n))" and "conn_of fd n = Some c" and "(fd, ms) \<in> set (push_list (app n))"
    and "fd \<in> listen_fds (loops n l)"
  shows "concat [encode_msg (route_msg pb r m). (fd', ms') \<leftarrow> [(fd, ms) \<leftarrow> push_list (app n). fd \<in> listen_fds (loops n l)],
      conn_of fd' n = Some c, m \<leftarrow> ms'] = pushed_bytes pb r ms"
proof -
  let ?due = "[(fd, ms) \<leftarrow> push_list (app n). fd \<in> listen_fds (loops n l)]"
  have d: "distinct (map fst ?due)" using assms(2) by (auto simp: push_ok_def distinct_map_filter)
  have one: "conn_of fd' n \<noteq> Some c" if "fd' \<noteq> fd" for fd'
    using sub_invD(1) [OF assms(1), of fd' c] sub_invD(1) [OF assms(1,3)] that by auto
  have mem: "(fd, ms) \<in> set ?due" using assms(4,5) by simp
  have "concat (map (\<lambda>(k, v). if conn_of k n = Some c then pushed_bytes pb r v else []) ?due) = pushed_bytes pb r ms"
    by (rule concat_map_one [OF d mem]) (use one assms(3) in auto)
  moreover have "concat [encode_msg (route_msg pb r m). (fd', ms') \<leftarrow> xs, conn_of fd' n = Some c, m \<leftarrow> ms'] =
      concat (map (\<lambda>(k, v). if conn_of k n = Some c then pushed_bytes pb r v else []) xs)" for xs
    by (induction xs) (auto simp: pushed_bytes_def)
  ultimately show ?thesis by simp
qed

section \<open>What the agent makes of it\<close>

text \<open>The answer as the agent decodes it, and what the encodings have to achieve for it.\<close>

definition current_route :: "route \<Rightarrow> u64 \<Rightarrow> route_response" where
  "current_route r m =
     \<lparr>rr_modid = key_hi m, rr_cmdid = key_lo m,
      rr_hosts = map (\<lambda>v. (key_hi v, key_lo v)) (get_hosts (key_hi m) (key_lo m) r)\<rparr>"

definition route_sent :: "dns_proto \<Rightarrow> agent_proto \<Rightarrow> route \<Rightarrow> u64 \<Rightarrow> bool" where
  "route_sent pb ap r m \<longleftrightarrow> msg_ok (route_msg pb r m) \<and> snd (route_msg pb r m) \<noteq> [] \<and>
     dns_answer ap (snd (route_msg pb r m)) = current_route r m \<and> module_ok (key_hi m) (key_lo m)"

lemma parse_pushed:
  assumes "parse d = (old, [], False)" and "\<forall>m \<in> set ms. route_sent pb ap r m"
  shows "parse (d @ pushed_bytes pb r ms) = (old @ map (route_msg pb r) ms, [], False)"
proof -
  have "parse (concat (map encode_msg (map (route_msg pb r) ms)) @ []) = (map (route_msg pb r) ms, [], False)"
    using assms(2) by (subst parse_encode_msgs) (auto simp: route_sent_def parse_short)
  then show ?thesis using parse_append [of d "pushed_bytes pb r ms"] by (simp add: assms(1) pushed_bytes_def comp_def)
qed

lemma pushed_applied:
  assumes "ci.holds ag d" and "rb_ready (c_pool ag) (c_ibuf ag)"
    and "reserve (int (length bs)) (c_ibuf ag) (c_pool ag) = Inr (True, q, s1)"
    and "bs = e @ pushed_bytes pb r ms" and "ms \<noteq> []" and "parse (d @ e) = (old, [], False)"
    and "\<forall>m \<in> set old. answer_ok ap m" and "\<forall>m \<in> set ms. route_sent pb ap r m"
    and "DNS_GetRouteResponse ap = ID_GetRouteResponse pb"
  shows "\<exists>ag'. client_do_read (dns_client_env ops ap) (Some (int (length bs))) [Rd bs] ag = Inr ag' \<and> ci.holds ag' [] \<and>
    rb_ready (c_pool ag') (c_ibuf ag') \<and>
    r_lb (c_app ag') = fold (apply_route ops) (map (\<lambda>m. dns_answer ap (snd m)) old @ map (current_route r) ms) (r_lb (c_app ag))"
proof -
  let ?ms = "old @ map (route_msg pb r) ms"
  have p: "parse (d @ bs) = (?ms, [], False)" using parse_pushed [OF assms(6,8)] assms(4) by simp
  have "answer_ok ap (route_msg pb r m)" if "m \<in> set ms" for m
    using assms(8,9) that by (auto simp: route_sent_def answer_ok_def current_route_def) (auto simp: route_msg_def)
  then have good: "\<forall>m \<in> set ?ms. answer_ok ap m" using assms(7) by auto
  have "snd (last ?ms) \<noteq> []" using assms(5,8) by (auto simp: route_sent_def last_map)
  then have ne: "\<not> ends_empty (d @ bs)" by (simp add: ends_empty_def p)
  have "bs \<noteq> []" using assms(4,5) by (cases ms) (auto simp: pushed_bytes_def encode_msg_def encode_head_def le32_def)
  from dns_client_reads [OF assms(1-3) this p ne good, of ops] show ?thesis
    using assms(8) by (auto simp: route_sent_def comp_def cong: map_cong)
qed

end
