(* ===== verification/Tcp_Stream.thy ===== *)
theory Tcp_Stream
  imports Tcp_Conn
begin

text \<open>
  Messages over a TCP stream: what \<open>send_message\<close> puts into the output buffer of one end reaches the other end as
  bytes, cut into chunks by the network, one \<open>do_read\<close> for each. \<open>send_all\<close> and \<open>read_chunks\<close> repeat the two operations.
\<close>

fun send_all :: "addr \<Rightarrow> msg list \<Rightarrow> 'u net \<Rightarrow> (int list \<times> 'u net) res" where
  "send_all c [] n = Inr ([], n)"
| "send_all c (m # ms) n =
     rbind (send_message c (snd m) (fst m) n) (\<lambda>(r, n1). rbind (send_all c ms n1) (\<lambda>(rs, n2). Inr (r # rs, n2)))"

fun read_chunks :: "'u srv_env \<Rightarrow> addr \<Rightarrow> u8 list list \<Rightarrow> 'u net \<Rightarrow> 'u net res" where
  "read_chunks env c [] n = Inr n"
| "read_chunks env c (bs # bss) n = rbind (do_read env c (Some (int (length bs))) [Rd bs] n) (read_chunks env c bss)"

lemma send_all_ok:
  assumes "conn_ok c n d e" and "send_all c ms n = Inr (rs, n')" and "\<forall>r \<in> set rs. r = 0"
  shows "conn_ok c n' d (e @ concat (map encode_msg ms))"
  using assms
proof (induction ms arbitrary: n e rs)
  case (Cons m ms)
  obtain r n1 rs1 where r: "send_message c (snd m) (fst m) n = Inr (r, n1)" "send_all c ms n1 = Inr (rs1, n')" "rs = r # rs1"
    using Cons.prems(2) by (auto simp: rbind_eq_Inr)
  with Cons.prems(3) have "r = 0" "\<forall>r \<in> set rs1. r = 0" by simp_all
  with send_message_ok [OF Cons.prems(1), of "snd m" "fst m" n1] r(1) have "conn_ok c n1 d (e @ encode_msg m)" by simp
  from Cons.IH [OF this r(2)] \<open>\<forall>r \<in> set rs1. r = 0\<close> show ?case by simp
qed simp

section \<open>What has arrived\<close>

text \<open>The bytes that have arrived are a prefix of the encoded messages: some whole messages and a part of the next.\<close>

lemma parse_prefix:
  assumes "\<forall>m \<in> set ms. msg_ok m" and "concat (map encode_msg ms) = d @ rest"
  shows "\<exists>k part. k \<le> length ms \<and> parse d = (take k ms, part, False) \<and> part @ rest = concat (map encode_msg (drop k ms)) \<and>
    (k < length ms \<longrightarrow> length part < length (encode_msg (ms ! k)))"
  using assms
proof (induction ms arbitrary: d)
  case Nil
  then show ?case by (intro exI [of _ 0] exI [of _ "[]"]) (simp add: parse_short)
next
  case (Cons m ms)
  show ?case
  proof (cases "length (encode_msg m) \<le> length d")
    case True
    have "encode_msg m @ concat (map encode_msg ms) = d @ rest" using Cons.prems(2) by simp
    then obtain us where "encode_msg m @ us = d \<and> concat (map encode_msg ms) = us @ rest \<or>
        encode_msg m = d @ us \<and> us @ concat (map encode_msg ms) = rest" by (auto simp: append_eq_append_conv2)
    moreover have "us = []" if "encode_msg m = d @ us" using True unfolding that by simp
    ultimately obtain d' where d: "d = encode_msg m @ d'" "concat (map encode_msg ms) = d' @ rest" by fastforce
    have mok: "msg_ok m" "\<forall>m \<in> set ms. msg_ok m" using Cons.prems(1) by simp_all
    obtain k part where k: "k \<le> length ms" "parse d' = (take k ms, part, False)"
        "part @ rest = concat (map encode_msg (drop k ms))" "k < length ms \<longrightarrow> length part < length (encode_msg (ms ! k))"
      using Cons.IH [OF mok(2) d(2)] by blast
    then show ?thesis unfolding d(1) parse_encode_msg [OF mok(1)]
      by (intro exI [of _ "Suc k"] exI [of _ part]) simp
  next
    case False
    have "encode_msg m @ concat (map encode_msg ms) = d @ rest" using Cons.prems(2) by simp
    then obtain u where "encode_msg m @ u = d \<or> encode_msg m = d @ u" by (auto simp: append_eq_append_conv2)
    then have u: "encode_msg m = d @ u" using False by auto
    have "u \<noteq> []" using False unfolding u by auto
    have "msg_ok m" using Cons.prems(1) by simp
    from parse_partial [OF this u \<open>u \<noteq> []\<close>] False show ?thesis using Cons.prems(2)
      by (intro exI [of _ 0] exI [of _ d]) auto
  qed
qed

lemma reserve_fault_small:
  assumes "pool_inv s" and "rb_holds s p d" and "rb_ready s p" and "0 \<le> k" and "k + int (length d) \<le> 8388608"
    and "reserve k p s = Inl e"
  shows "\<exists>m. alloc_buf m s = Inl e"
proof -
  have "\<exists>m. alloc_buf m s = Inl e" if "e = SignedOverflow"
    using assms(2)
  proof (cases rule: rb_holds_cases)
    case null
    then show ?thesis using assms(6) by (auto simp: reserve_def reserve_with_def rbind_eq_Inl)
  next
    case (buf a b)
    have "buf_len b = int (length d)" using pool.held_wf [OF assms(1) buf(2)] buf(3) by (auto simp: wf_buf_def)
    then have "in_int (k + buf_len b)" using assms(4,5) by (simp add: in_int_def)
    then have c: "cint_add k (buf_len b) = Inr (k + buf_len b)" by simp
    have copy: "io_buf_copy x y \<noteq> Inl SignedOverflow" "revert x' s' \<noteq> Inl SignedOverflow" for x y x' s'
      by (auto simp: io_buf_copy_def buf_write_def revert_def rbind_eq_Inl Let_def split: if_splits option.splits)
    show ?thesis
    proof (cases "alloc_buf (k + buf_len b) s")
      case (Inr v)
      obtain q s1 where v: "v = (q, s1)" by (cases v)
      show ?thesis using Inr assms(6) buf(1,2) that c pool.alloc_result [of "k + buf_len b" s q s1] unfolding v
        by (auto simp: reserve_def reserve_with_def held_bufs rbind_eq_Inl copy cint_add_def split: if_splits option.splits)
    qed (use assms(6) buf(1,2) that c in \<open>auto simp: reserve_def reserve_with_def held_bufs cint_add_def split: if_splits\<close>)
  qed
  with reserve_fault [OF assms(1-3,6)] show ?thesis by blast
qed

lemma parse_rest_short: "parse r = ([], r, False) \<Longrightarrow> length r \<le> 65535"
  using parse_Nil [of r r False] by (auto simp: bad_head_def MESSAGE_LENGTH_LIMIT_def MESSAGE_HEAD_LEN_def)

text \<open>A read of a chunk: there is room, and the messages are handed over; or the pool fails.\<close>

lemma do_read_fits:
  assumes h: "ib.holds c n d" "rb_ready (net_pool n) (ibuf_of c n)" and cb: "callbacks_ok env c seen"
    and bs: "bs \<noteq> []" "length d + length bs \<le> 8388608"
    and res: "reserve (int (length bs)) (ibuf_of c n) (net_pool n) = Inr (ok, q, s1)"
    and p: "parse (d @ bs) = (ms, r, False)" and ne: "\<forall>m \<in> set ms. snd m \<noteq> []"
  shows "\<exists>n'. do_read env c (Some (int (length bs))) [Rd bs] n = Inr n' \<and> ib.holds c n' r \<and>
    rb_ready (net_pool n') (ibuf_of c n') \<and> seen n' = seen n @ filter (\<lambda>m. registered env (fst m)) ms"
proof -
  have "pool_inv (net_pool n)" "rb_holds (net_pool n) (ibuf_of c n) d" using h(1) by (simp_all add: ib.holds_def)
  from reserve_ok [OF this h(2) res] bs(2) have ok by (cases ok) auto
  moreover have "read_retry [Rd bs] = Inr (Rd bs, [])" by simp
  moreover have "length ms \<le> max_frames" using length_parse [OF p] bs(2) by (simp add: max_frames_def)
  moreover have "\<not> ends_empty (d @ bs)" using p ne by (auto simp: ends_empty_def)
  ultimately show ?thesis
    using ib.read_frames_ok [OF h callbacks_handler [OF cb] _ _ bs(1) refl p, of q s1 "[Rd bs]" "[]" max_frames "clean_conn env c"] res
    by (auto simp: do_read_def)
qed

lemma do_read_chunk:
  assumes h: "ib.holds c n d" "rb_ready (net_pool n) (ibuf_of c n)" and cb: "callbacks_ok env c seen"
    and d: "parse d = ([], d, False)" and bs: "bs \<noteq> []" "length bs \<le> 8000000"
    and p: "parse (d @ bs) = (ms, r, False)" and ne: "\<forall>m \<in> set ms. snd m \<noteq> []"
  shows "(\<exists>n'. do_read env c (Some (int (length bs))) [Rd bs] n = Inr n' \<and> ib.holds c n' r \<and>
      rb_ready (net_pool n') (ibuf_of c n') \<and> seen n' = seen n @ filter (\<lambda>m. registered env (fst m)) ms) \<or>
    (\<exists>e k s. do_read env c (Some (int (length bs))) [Rd bs] n = Inl e \<and> pool_inv s \<and> alloc_buf k s = Inl e)"
proof -
  have h': "pool_inv (net_pool n)" "rb_holds (net_pool n) (ibuf_of c n) d" using h(1) by (simp_all add: ib.holds_def)
  have small: "length d + length bs \<le> 8388608" using parse_rest_short [OF d] bs(2) by simp
  show ?thesis
  proof (cases "reserve (int (length bs)) (ibuf_of c n) (net_pool n)")
    case (Inl e)
    obtain k where "alloc_buf k (net_pool n) = Inl e" using reserve_fault_small [OF h' h(2) _ _ Inl] small by auto
    moreover have "do_read env c (Some (int (length bs))) [Rd bs] n = Inl e"
      using Inl by (simp add: do_read_def read_frames_def read_data_def)
    ultimately show ?thesis using h'(1) by blast
  next
    case (Inr v)
    obtain ok q s1 where v: "v = (ok, q, s1)" by (cases v)
    from do_read_fits [OF h cb bs(1) small Inr [unfolded v] p ne] show ?thesis by blast
  qed
qed

lemma read_chunks_parse:
  assumes "ib.holds c n d" "rb_ready (net_pool n) (ibuf_of c n)" and "callbacks_ok env c seen"
    and "parse d = ([], d, False)" and "\<forall>bs \<in> set chunks. bs \<noteq> [] \<and> length bs \<le> 8000000"
    and "parse (d @ concat chunks) = (ms, r, False)" and "\<forall>m \<in> set ms. snd m \<noteq> []"
  shows "(\<exists>n'. read_chunks env c chunks n = Inr n' \<and> ib.holds c n' r \<and> rb_ready (net_pool n') (ibuf_of c n') \<and>
      seen n' = seen n @ filter (\<lambda>m. registered env (fst m)) ms) \<or>
    (\<exists>e k s. read_chunks env c chunks n = Inl e \<and> pool_inv s \<and> alloc_buf k s = Inl e)"
  using assms
proof (induction chunks arbitrary: n d ms)
  case Nil
  then show ?case by simp
next
  case (Cons bs chunks)
  obtain ms2 r2 b2 where p: "parse (d @ bs) = (ms2, r2, b2)" by (cases "parse (d @ bs)")
  have b2: "\<not> b2" using Cons.prems(6) parse_append [of "d @ bs" "concat chunks"] p by (cases b2) auto
  have self: "parse r2 = ([], r2, False)" using parse_idem p b2 by simp
  obtain ms3 where ms3: "parse (r2 @ concat chunks) = (ms3, r, False)" "ms = ms2 @ ms3"
    using Cons.prems(6) parse_append [of "d @ bs" "concat chunks"] p b2 by (auto split: prod.splits)
  have bs: "bs \<noteq> []" "length bs \<le> 8000000" using Cons.prems(5) by simp_all
  from do_read_chunk [OF Cons.prems(1-4) bs, of ms2 r2] p b2 Cons.prems(7) ms3(2)
  consider n1 where "do_read env c (Some (int (length bs))) [Rd bs] n = Inr n1" "ib.holds c n1 r2"
      "rb_ready (net_pool n1) (ibuf_of c n1)" "seen n1 = seen n @ filter (\<lambda>m. registered env (fst m)) ms2"
    | e k s where "do_read env c (Some (int (length bs))) [Rd bs] n = Inl e" "pool_inv s" "alloc_buf k s = Inl e"
    by auto
  then show ?case
  proof cases
    case 1
    from Cons.IH [OF 1(2,3) Cons.prems(3) self _ ms3(1)] Cons.prems(5,7) ms3(2) 1(1,4) show ?thesis by auto
  next
    case 2
    then show ?thesis by auto
  qed
qed

section \<open>The property\<close>

text \<open>
  C13: messages over the stream. One end sends the messages \<open>ms\<close>, and its output buffer gives up bytes that reach the
  other end cut into chunks in any way; more may be under way. Then the reads hand exactly the first \<open>k\<close> messages
  to the callbacks (of the message numbers that have one), in order and unchanged, and keep as the unread bytes the rest
  of what has arrived, which is less than the next message; when no bytes are under way, these are all messages and
  nothing is left. The only other outcome is that the
  buffer pool has no buffer for a chunk and ends the process. Messages without a body are excluded, since they can
  abort the reader.
\<close>

theorem stream_chunks:
  assumes "conn_ok cs m [] []" and "send_all cs ms m = Inr (rs, m')" and "\<forall>r \<in> set rs. r = 0"
    and "\<forall>(i, body) \<in> set ms. in_int i \<and> body \<noteq> [] \<and> length body \<le> 65527"
    and "ob.holds cs m' (concat chunks @ under_way)" and "\<forall>bs \<in> set chunks. bs \<noteq> [] \<and> length bs \<le> 8000000"
    and "ib.holds c n []" and "rb_ready (net_pool n) (ibuf_of c n)" and "callbacks_ok env c seen"
  shows "(\<exists>n' k rest. read_chunks env c chunks n = Inr n' \<and> k \<le> length ms \<and>
      seen n' = seen n @ filter (\<lambda>m. registered env (fst m)) (take k ms) \<and> ib.holds c n' rest \<and>
      rest @ under_way = concat (map encode_msg (drop k ms)) \<and>
      (if k < length ms then length rest < 8 + length (snd (ms ! k)) else rest = []) \<and>
      (under_way = [] \<longrightarrow> k = length ms)) \<or>
    (\<exists>e j s. read_chunks env c chunks n = Inl e \<and> pool_inv s \<and> alloc_buf j s = Inl e)"
proof -
  have mok: "\<forall>m \<in> set ms. msg_ok m" and ne: "\<forall>m \<in> set ms. snd m \<noteq> []"
    using assms(4) by (auto simp: msg_ok_def MESSAGE_LENGTH_LIMIT_def MESSAGE_HEAD_LEN_def)
  have "conn_ok cs m' [] (concat (map encode_msg ms))" using send_all_ok [OF assms(1-3)] by simp
  then have bytes: "concat (map encode_msg ms) = concat chunks @ under_way"
    using assms(5) by (auto simp: conn_ok_def ob.holds_def dest: rb_holds_unique)
  obtain k part where k: "k \<le> length ms" "parse (concat chunks) = (take k ms, part, False)"
      "part @ under_way = concat (map encode_msg (drop k ms))" "k < length ms \<longrightarrow> length part < length (encode_msg (ms ! k))"
    using parse_prefix [OF mok bytes] by blast
  have part: "if k < length ms then length part < 8 + length (snd (ms ! k)) else part = []" using k(1,3,4) by auto
  have all: "k = length ms" if "under_way = []"
  proof (rule ccontr)
    assume "k \<noteq> length ms"
    then have lt: "k < length ms" using k(1) by simp
    then have "drop k ms = ms ! k # drop (Suc k) ms" by (simp add: Cons_nth_drop_Suc)
    then have "length part = length (concat (map encode_msg (ms ! k # drop (Suc k) ms)))" using k(3) that by (metis append_Nil2)
    with k(4) lt show False by simp
  qed
  have d: "parse [] = ([], [], False)" by (simp add: parse_short)
  have "parse ([] @ concat chunks) = (take k ms, part, False)" "\<forall>m \<in> set (take k ms). snd m \<noteq> []"
    using k(2) ne by (auto dest: in_set_takeD)
  from read_chunks_parse [OF assms(7,8,9) d assms(6) this] k(1,3) part all show ?thesis by metis
qed

text \<open>Two messages in three chunks, the second of which ends one message and begins the other.\<close>

definition demo_link :: "msg list net" where
  "demo_link = demo_net\<lparr>tcps := (\<lambda>_. \<lparr>connfd = 5, conn_loop = 1, ibuf = NULL, obuf = NULL\<rparr>)\<rparr>"

lemma demo_link_sends:
  "\<exists>m'. send_all 0 [(1, [7]), (1, [8, 9])] demo_link = Inr ([0, 0], m')"
  by (simp add: demo_link_def demo_net_def demo_pool_def pool_eval send_message_def send_framed_def rb_length_def Let_def
      put_obuf_def upd_conn_def obuf_of_def)

lemma stream_chunks_witness:
  "\<exists>m' chunks n'. send_all 0 [(1, [7]), (1, [8, 9])] demo_link = Inr ([0, 0], m') \<and> ob.holds 0 m' (concat chunks) \<and>
     length chunks = 2 \<and> read_chunks demo_env 0 chunks demo_link = Inr n' \<and> app n' = [(1, [7]), (1, [8, 9])] \<and> ib.holds 0 n' []"
proof -
  let ?ms = "[(1, [7]), (1, [8, 9])] :: msg list"
  let ?c1 = "encode_msg (1, [7]) @ take 2 (encode_msg (1, [8, 9]))" let ?c2 = "drop 2 (encode_msg (1, [8, 9]))"
  have link: "ibuf_of 0 demo_link = NULL" "obuf_of 0 demo_link = NULL" "net_pool demo_link = demo_pool" "app demo_link = []"
    by (simp_all add: demo_link_def demo_net_def ibuf_of_def obuf_of_def)
  have ok: "conn_ok 0 demo_link [] []" "ib.holds 0 demo_link []" "rb_ready (net_pool demo_link) (ibuf_of 0 demo_link)"
    using demo_pool_ok by (simp_all add: conn_ok_def ib.holds_def link)
  have mok: "msg_ok (1, [7])" "msg_ok (1, [8, 9])" by (simp_all add: msg_ok_def in_int_def MESSAGE_LENGTH_LIMIT_def MESSAGE_HEAD_LEN_def)
  have cut: "?c1 @ ?c2 = concat (map encode_msg ?ms)" by simp
  obtain m' where m': "send_all 0 ?ms demo_link = Inr ([0, 0], m')" using demo_link_sends by blast
  have sent: "ob.holds 0 m' (concat [?c1, ?c2] @ [])"
    using send_all_ok [OF ok(1) m'] cut by (simp add: conn_ok_def ob.holds_def)
  have len: "length ?c1 = 11" "length ?c2 = 8" by simp_all
  have ne: "?c1 \<noteq> []" "?c2 \<noteq> []" by (simp_all flip: length_greater_0_conv)
  have part: "parse (take 2 (encode_msg (1, [8, 9]))) = ([], take 2 (encode_msg (1, [8, 9])), False)"
    by (rule parse_short) simp
  have p1: "parse ([] @ ?c1) = ([(1, [7])], take 2 (encode_msg (1, [8, 9])), False)"
    using parse_encode_msg [OF mok(1), of "take 2 (encode_msg (1, [8, 9]))"] part by simp
  obtain s1 where "reserve (int (length ?c1)) (ibuf_of 0 demo_link) (net_pool demo_link) = Inr (True, Ptr 1, s1)"
    using demo_alloc [of 11] len(1) link by auto
  from do_read_fits [OF ok(2,3) demo_callbacks ne(1) _ this p1] obtain n1 where
    n1: "do_read demo_env 0 (Some (int (length ?c1))) [Rd ?c1] demo_link = Inr n1" "ib.holds 0 n1 (take 2 (encode_msg (1, [8, 9])))"
      "rb_ready (net_pool n1) (ibuf_of 0 n1)" using len by auto
  have "take 2 (encode_msg (1, [8, 9])) \<noteq> []" by (simp flip: length_greater_0_conv)
  then have "ibuf_of 0 n1 \<noteq> NULL" using ib.holds_NULL [OF n1(2)] by blast
  then obtain a where a: "ibuf_of 0 n1 = Ptr a" using n1(2) by (auto simp: ib.holds_def rb_holds_def)
  have "reserve (int (length ?c2)) (ibuf_of 0 n1) (net_pool n1) = Inr (True, Ptr a, net_pool n1)"
    using reserve_small [of "net_pool n1" "Ptr a" "take 2 (encode_msg (1, [8, 9]))" "length ?c2"] n1(2,3) len(2)
      \<open>take 2 (encode_msg (1, [8, 9])) \<noteq> []\<close>
    by (simp add: a ib.holds_def)
  moreover have "parse (take 2 (encode_msg (1, [8, 9])) @ ?c2) = ([(1, [8, 9])], [], False)"
    using parse_encode_msg [OF mok(2), of "[]"] by (simp add: parse_short)
  ultimately obtain n2 where "do_read demo_env 0 (Some (int (length ?c2))) [Rd ?c2] n1 = Inr n2"
    using do_read_fits [OF n1(2,3) demo_callbacks ne(2)] by fastforce
  then have run: "read_chunks demo_env 0 [?c1, ?c2] demo_link = Inr n2" using n1(1) by simp
  have reg: "registered demo_env 1" by (simp add: demo_registered)
  have "\<forall>bs \<in> set [?c1, ?c2]. bs \<noteq> [] \<and> length bs \<le> 8000000" using ne by simp
  from stream_chunks [OF ok(1) m' _ _ sent this ok(2,3) demo_callbacks] run obtain k rest where
    "k \<le> length ?ms" "app n2 = filter (\<lambda>m. registered demo_env (fst m)) (take k ?ms)" "ib.holds 0 n2 rest"
    "if k < length ?ms then length rest < 8 + length (snd (?ms ! k)) else rest = []" "k = length ?ms"
    by (auto simp: link in_int_def)
  then have "app n2 = ?ms" "ib.holds 0 n2 []" using reg by simp_all
  with m' sent run show ?thesis by (intro exI [of _ m'] exI [of _ "[?c1, ?c2]"] exI [of _ n2]) simp
qed

end
