(* ===== verification/Balance_Run.thy ===== *)
theory Balance_Run
  imports Load_Balance
begin

text \<open>
  A \<open>load_balance\<close> over time: the choices, the reported results and the route answers that arrive, in any
  order. Each host then follows \<open>report_host\<close> over the results reported about it alone, which gives what the
  thresholds of the configuration are for: a failing host becomes overloaded, a recovered one idle
  again, and an overloaded one gets no more than its share of the probes.
\<close>

datatype lb_event =
    Choose
  | Result i32 i32 bool int int    \<comment> \<open>ip, port, success, and the readings of the clock\<close>
  | Routes int "(u32 \<times> i32) list"  \<comment> \<open>the clock and the hosts of a \<open>GetRouteResponse\<close>\<close>

type_synonym choice = "ret_code \<times> (u32 \<times> i32) option"

fun lb_step :: "load_balance_config \<Rightarrow> lb_event \<Rightarrow> load_balance \<Rightarrow> (choice list \<times> load_balance) res" where
  "lb_step cfg Choose s = rbind (choice_one_host cfg s) (\<lambda>(r, h, s'). Inr ([(r, h)], s'))"
| "lb_step cfg (Result ip port succ t0 t1) s = rbind (lb_report cfg t0 t1 ip port succ s) (\<lambda>s'. Inr ([], s'))"
| "lb_step cfg (Routes now hosts) s = rbind (lb_update cfg now hosts s) (\<lambda>s'. Inr ([], s'))"

fun lb_run :: "load_balance_config \<Rightarrow> lb_event list \<Rightarrow> load_balance \<Rightarrow> (choice list \<times> load_balance) res" where
  "lb_run cfg [] s = Inr ([], s)"
| "lb_run cfg (e # es) s =
     rbind (lb_step cfg e s) (\<lambda>(out, s1). rbind (lb_run cfg es s1) (\<lambda>(outs, s2). Inr (out @ outs, s2)))"

text \<open>The route answers of a run in which no host ever leaves; \<open>ks\<close> are the keys already known.\<close>

fun none_leaves :: "u64 set \<Rightarrow> lb_event list \<Rightarrow> bool" where
  "none_leaves ks [] \<longleftrightarrow> True"
| "none_leaves ks (Routes now hosts # es) \<longleftrightarrow>
     hosts \<noteq> [] \<and> ks \<subseteq> host_key ` set hosts \<and> none_leaves (host_key ` set hosts) es"
| "none_leaves ks (_ # es) \<longleftrightarrow> none_leaves ks es"

text \<open>The results of a run that are about the host with a given key.\<close>

fun results_about :: "u64 \<Rightarrow> lb_event list \<Rightarrow> (bool \<times> int \<times> int) list" where
  "results_about k [] = []"
| "results_about k (Result ip port succ t0 t1 # es) =
     (if mk_key ip port = k then [(succ, t0, t1)] else []) @ results_about k es"
| "results_about k (_ # es) = results_about k es"

definition report_hosts :: "load_balance_config \<Rightarrow> (bool \<times> int \<times> int) list \<Rightarrow> host_info \<Rightarrow> host_info" where
  "report_hosts cfg = fold (\<lambda>(succ, t0, t1). report_host cfg t0 t1 succ)"

lemma report_hosts_simps [simp]:
  "report_hosts cfg [] h = h"
  "report_hosts cfg ((b, t0, t1) # rs) h = report_hosts cfg rs (report_host cfg t0 t1 b h)"
  by (simp_all add: report_hosts_def)

section \<open>Every host follows the results about it\<close>

abbreviation keys :: "load_balance \<Rightarrow> u64 set" where
  "keys s \<equiv> fst ` set (host_map s)"

text \<open>A balancer with hosts in which no pointer dangles; it can always choose.\<close>

definition lb_ready :: "load_balance \<Rightarrow> bool" where
  "lb_ready s \<longleftrightarrow> lb_inv s \<and> host_map s \<noteq> []"

lemma ready_lists: "lb_ready s \<Longrightarrow> idle_list s \<noteq> [] \<or> overload_list s \<noteq> []"
proof -
  assume r: "lb_ready s"
  then obtain k a ps where m: "host_map s = (k, a) # ps" unfolding lb_ready_def by (cases "host_map s") auto
  have inv: "lb_inv s" using r by (simp add: lb_ready_def)
  from m have "map_of (host_map s) k = Some a" by simp
  from lb_inv_host [OF inv this] show ?thesis by (metis empty_iff empty_set)
qed

lemma choose_ok:
  assumes "lb_ready s"
  obtains r h s' where "choice_one_host cfg s = Inr (r, h, s')" "lb_ready s'" "host_map s' = host_map s"
    "host_heap s' = host_heap s"
proof -
  have inv: "lb_inv s" and ne: "host_map s \<noteq> []" using assms by (simp_all add: lb_ready_def)
  have "\<exists>r h s'. choice_one_host cfg s = Inr (r, h, s') \<and> host_map s' = host_map s \<and> host_heap s' = host_heap s"
  proof (cases "idle_list s \<noteq> [] \<and> (overload_list s = [] \<or> access_cnt s < probe_num cfg)")
    case True
    with choice_idle [OF inv] show ?thesis by auto
  next
    case b: False
    show ?thesis
    proof (cases "access_cnt s < probe_num cfg")
      case True
      with b choice_wait [of s cfg] show ?thesis by auto
    next
      case False
      with b ready_lists [OF assms] have "overload_list s \<noteq> []" by blast
      with False choice_probe [OF inv] show ?thesis by auto
    qed
  qed
  with choice_inv [OF inv] ne that show thesis unfolding lb_ready_def by metis
qed

text \<open>One step: it returns, the balancer stays ready, and the host follows.\<close>

lemma step_ok:
  assumes r: "lb_ready s" and nl: "none_leaves (keys s) (e # es)"
    and a: "map_of (host_map s) k = Some a" "host_heap s a = Some h"
  obtains out s' where "lb_step cfg e s = Inr (out, s')" "lb_ready s'" "none_leaves (keys s') es"
    "map_of (host_map s') k = Some a" "host_heap s' a = Some (report_hosts cfg (results_about k [e]) h)"
proof (cases e)
  case Choose
  obtain r' h' s' where s': "choice_one_host cfg s = Inr (r', h', s')" "lb_ready s'" "host_map s' = host_map s"
      "host_heap s' = host_heap s" using choose_ok [OF r] by metis
  with Choose nl a show thesis by (intro that [of "[(r', h')]" s']) simp_all
next
  case (Routes now hosts)
  have inv: "lb_inv s" using r by (simp add: lb_ready_def)
  obtain s' where s': "lb_update cfg now hosts s = Inr s'" "lb_inv s'" "keys s' = host_key ` set hosts"
      "map_of (host_map s') k = Some a" "host_heap s' a = host_heap s a"
    using update_adds [OF inv, of hosts cfg now] nl a(1) unfolding Routes none_leaves.simps by blast
  then have "lb_ready s'" by (auto simp: lb_ready_def)
  with s' Routes nl a show thesis by (intro that [of "[]" s']) simp_all
next
  case (Result ip port succ t0 t1)
  have inv: "lb_inv s" using r by (simp add: lb_ready_def)
  show thesis
  proof (cases "map_of (host_map s) (mk_key ip port)")
    case None
    then have "lb_report cfg t0 t1 ip port succ s = Inr s" by (simp add: lb_report_def)
    with None Result nl a r show thesis by (intro that [of "[]" s]) auto
  next
    case (Some b)
    obtain h0 where h0: "host_heap s b = Some h0" using lb_inv_host [OF inv Some] by metis
    obtain s' where run: "lb_report cfg t0 t1 ip port succ s = Inr s'"
        and m: "host_map s' = host_map s" "host_heap s' = (host_heap s)(b \<mapsto> report_host cfg t0 t1 succ h0)"
      using lb_report_spec [OF inv Some h0, of cfg t0 t1 succ] by auto
    have "lb_ready s'" using lb_report_inv [OF inv Some h0 run] r m(1) by (simp add: lb_ready_def)
    moreover have "b = a \<longleftrightarrow> mk_key ip port = k"
      using lb_inv_host [OF inv Some] lb_inv_host [OF inv a(1)] a(1) Some h0 a(2) by (metis option.inject)
    ultimately show thesis using run m h0 Result nl a by (intro that [of "[]" s']) auto
  qed
qed

lemma results_about_Cons: "results_about k (e # es) = results_about k [e] @ results_about k es"
  by (cases e) simp_all

lemma report_hosts_append: "report_hosts cfg (xs @ ys) h = report_hosts cfg ys (report_hosts cfg xs h)"
  by (simp add: report_hosts_def)

lemma run_ok:
  assumes "lb_ready s" and "none_leaves (keys s) es"
    and "map_of (host_map s) k = Some a" "host_heap s a = Some h"
  shows "\<exists>outs t. lb_run cfg es s = Inr (outs, t) \<and> lb_ready t \<and> map_of (host_map t) k = Some a \<and>
    host_heap t a = Some (report_hosts cfg (results_about k es) h)"
  using assms
proof (induction es arbitrary: s h)
  case (Cons e es)
  obtain out s' where s': "lb_step cfg e s = Inr (out, s')" "lb_ready s'" "none_leaves (keys s') es"
      "map_of (host_map s') k = Some a" "host_heap s' a = Some (report_hosts cfg (results_about k [e]) h)"
    using step_ok [OF Cons.prems] by metis
  from Cons.IH [OF s'(2-5)] s'(1) show ?case
    by (auto simp: results_about_Cons [of k e es] report_hosts_append simp del: results_about.simps(2))
qed simp

text \<open>The lists say what the flag says.\<close>

lemma listed_iff:
  assumes "lb_ready s" and "map_of (host_map s) k = Some a" and "host_heap s a = Some h"
  shows "a \<in> set (overload_list s) \<longleftrightarrow> overload h" and "a \<in> set (idle_list s) \<longleftrightarrow> \<not> overload h"
  using lb_inv_host [OF _ assms(2)] assms(1,3) unfolding lb_ready_def by (metis option.inject)+

section \<open>What the thresholds are for\<close>

text \<open>Results that are all failures (successes), reported while the time window of the host's state is open.\<close>

definition failures_within :: "load_balance_config \<Rightarrow> int \<Rightarrow> (bool \<times> int \<times> int) list \<Rightarrow> bool" where
  "failures_within cfg t rs \<longleftrightarrow> (\<forall>(succ, t0, t1) \<in> set rs. \<not> succ \<and> t0 - t < overload_timeout cfg)"

lemma unat_inc:
  assumes "(x :: u32) < y"
  shows "unat (x + 1) = Suc (unat x)"
proof -
  have "unat x < unat y" using assms by (simp add: word_less_nat_alt)
  moreover have "unat y < 2 ^ 32" using unsigned_less [of y, where 'a = nat] by simp
  ultimately have "Suc (unat x) < 2 ^ 32" by linarith
  then show ?thesis by (simp add: unat_word_ariths)
qed

lemma failures_keep_overload:
  assumes "overload h" and "overload_ts h = Some t" and "failures_within cfg t rs"
  shows "overload (report_hosts cfg rs h) \<and> overload_ts (report_hosts cfg rs h) = Some t"
  using assms
proof (induction rs arbitrary: h)
  case (Cons r rs)
  obtain t0 t1 where r: "r = (False, t0, t1)" "t0 - t < overload_timeout cfg" "failures_within cfg t rs"
    using Cons.prems(3) by (cases r) (auto simp: failures_within_def)
  then have "report_host cfg t0 t1 False h = count_result False h"
    using Cons.prems(1,2) by (simp add: report_host_def Let_def)
  with Cons r show ?case by simp
qed simp

text \<open>
  An idle host: after as many failures as are missing to the limit it is overloaded. Its own window must be
  open, and the clock must not be so far ahead of its first readings that the new window ends.
\<close>

lemma failures_overload:
  assumes "\<not> overload h" and "contin_err h < contin_err_limit cfg"
    and "\<forall>(succ, t0, t1) \<in> set rs. \<not> succ \<and> t0 - idle_ts h < idle_timeout cfg \<and> t0 < now + overload_timeout cfg \<and> now \<le> t1"
    and "unat (contin_err_limit cfg) - unat (contin_err h) \<le> length rs"
  shows "overload (report_hosts cfg rs h)"
  using assms
proof (induction rs arbitrary: h)
  case Nil
  then show ?case by (simp add: word_less_nat_alt)
next
  case (Cons r rs)
  obtain t0 t1 where r: "r = (False, t0, t1)" "t0 - idle_ts h < idle_timeout cfg" "now \<le> t1"
    using Cons.prems(3) by (cases r) auto
  let ?h = "count_result False h"
  have ce: "contin_err ?h = contin_err h + 1" by (simp add: count_result_def)
  note un = unat_inc [OF Cons.prems(2)]
  show ?case
  proof (cases "turns_overload cfg ?h")
    case True
    then have e: "report_host cfg t0 t1 False h = set_overload cfg t1 ?h"
      using Cons.prems(1) by (simp add: report_host_def)
    have "failures_within cfg t1 rs" using Cons.prems(3) r(3) by (auto simp: failures_within_def)
    from failures_keep_overload [OF _ _ this] show ?thesis unfolding r(1) by (simp add: e)
  next
    case False
    then have e: "report_host cfg t0 t1 False h = ?h"
      using Cons.prems(1) r(2) by (simp add: report_host_def)
    from False have "contin_err ?h < contin_err_limit cfg" by (simp add: turns_overload_def not_le)
    moreover have "unat (contin_err_limit cfg) - unat (contin_err ?h) \<le> length rs"
      using Cons.prems(4) un unfolding ce by simp
    moreover have "\<forall>(succ, t0, t1) \<in> set rs. \<not> succ \<and> t0 - idle_ts ?h < idle_timeout cfg \<and> t0 < now + overload_timeout cfg \<and> now \<le> t1"
      using Cons.prems(3) by simp
    ultimately have "overload (report_hosts cfg rs ?h)" using Cons.prems(1) by (intro Cons.IH) simp_all
    then show ?thesis unfolding r(1) by (simp add: e)
  qed
qed

text \<open>The way back. A success never makes an idle host overloaded, so no window matters.\<close>

lemma success_keeps_idle: "\<not> overload h \<Longrightarrow> \<not> overload (report_host cfg t0 t1 True h)"
  by (simp add: report_host_def Let_def)

lemma successes_keep_idle:
  "\<not> overload h \<Longrightarrow> \<forall>r \<in> set rs. fst r \<Longrightarrow> \<not> overload (report_hosts cfg rs h)"
  by (induction rs arbitrary: h) (auto simp: success_keeps_idle)

lemma successes_idle:
  assumes "overload h" and "contin_succ h < contin_succ_limit cfg" and "\<forall>r \<in> set rs. fst r"
    and "unat (contin_succ_limit cfg) - unat (contin_succ h) \<le> length rs"
  shows "\<not> overload (report_hosts cfg rs h)"
  using assms
proof (induction rs arbitrary: h)
  case Nil
  then show ?case by (simp add: word_less_nat_alt)
next
  case (Cons r rs)
  obtain t0 t1 where r: "r = (True, t0, t1)" using Cons.prems(3) by (cases r) auto
  let ?h = "count_result True h"
  have ce: "contin_succ ?h = contin_succ h + 1" by (simp add: count_result_def)
  note un = unat_inc [OF Cons.prems(2)]
  show ?case
  proof (cases "overload (report_host cfg t0 t1 True h)")
    case True
    then have e: "report_host cfg t0 t1 True h = ?h" and n: "\<not> turns_idle cfg ?h"
      using Cons.prems(1) by (auto simp: report_host_def Let_def split: if_splits)
    from n have "contin_succ ?h < contin_succ_limit cfg" by (simp add: turns_idle_def not_le)
    moreover have "unat (contin_succ_limit cfg) - unat (contin_succ ?h) \<le> length rs"
      using Cons.prems(4) un unfolding ce by simp
    ultimately have "\<not> overload (report_hosts cfg rs ?h)" using Cons.prems(1,3) by (intro Cons.IH) simp_all
    then show ?thesis unfolding r by (simp add: e)
  next
    case False
    then show ?thesis using successes_keep_idle [OF False] Cons.prems(3) unfolding r by simp
  qed
qed

section \<open>The share of an overloaded host\<close>

lemma host_of_inj:
  assumes "lb_inv s" and "map_of (host_map s) k = Some a" and "b \<in> snd ` set (host_map s)" and "host_of s b = host_of s a"
  shows "b = a"
proof -
  obtain k' where b: "(k', b) \<in> set (host_map s)" using assms(3) by auto
  have d: "distinct (map fst (host_map s))" using assms(1) by (simp add: lb_inv_def)
  have b': "map_of (host_map s) k' = Some b" using map_of_is_SomeI [OF d b] .
  obtain h where h: "host_heap s a = Some h" "k = mk_key_u (h_ip h) (h_port h)"
    using lb_inv_host [OF assms(1,2)] by metis
  obtain h' where h': "host_heap s b = Some h'" "k' = mk_key_u (h_ip h') (h_port h')"
    using lb_inv_host [OF assms(1) b'] by metis
  have "k' = k" using h h' assms(4) by (simp add: host_of_def)
  with b' assms(2) show ?thesis by simp
qed

lemma host_of_named:
  assumes "lb_ready s" and "map_of (host_map s) (mk_key ip port) = Some a" and "host_heap s a = Some h"
  shows "host_of s a = (ip, port)"
proof -
  have "mk_key ip port = mk_key_u (h_ip h) (h_port h)"
    using lb_inv_host [OF _ assms(2)] assms(1,3) unfolding lb_ready_def by (metis option.inject)
  then show ?thesis using assms(3) by (simp add: mk_key_u_eq host_of_def)
qed

text \<open>An answer with a host is a success.\<close>

lemma run_answers: "lb_run cfg es s = Inr (outs, s') \<Longrightarrow> (r, Some h) \<in> set outs \<Longrightarrow> r = RET_SUCC"
proof (induction es arbitrary: s outs)
  case (Cons e es)
  obtain out s1 outs2 where o: "lb_step cfg e s = Inr (out, s1)" "lb_run cfg es s1 = Inr (outs2, s')" "outs = out @ outs2"
    using Cons.prems(1) by (auto simp: rbind_eq_Inr)
  have "r = RET_SUCC" if "(r, Some h) \<in> set out"
    using o(1) that by (cases e) (auto simp: rbind_eq_Inr choice_one_host_def from_idle_def from_overload_def split: if_splits)
  with Cons.IH [OF o(2)] Cons.prems(2) o(3) show ?case by auto
qed simp

text \<open>
  \<open>access_cnt\<close> pays for the probes: each choice adds at most one, and a choice of an overloaded host takes
  at least \<open>probe_num\<close>.
\<close>

lemma choice_pays:
  assumes "lb_ready s" and "map_of (host_map s) k = Some a" and "a \<in> set (overload_list s)" and "0 \<le> access_cnt s"
    and "choice_one_host cfg s = Inr (r, h, s')"
  shows "0 \<le> access_cnt s' \<and>
    access_cnt s' + (if h = Some (host_of s a) then probe_num cfg + 1 else 0) \<le> access_cnt s + 1"
proof (cases "access_cnt s < probe_num cfg")
  case False
  have "lb_inv s" "overload_list s \<noteq> []" using assms(1,3) by (auto simp: lb_ready_def)
  from choice_probe [OF this, of cfg] False assms(4,5) show ?thesis by auto
next
  case True
  have inv: "lb_inv s" using assms(1) by (simp add: lb_ready_def)
  show ?thesis
  proof (cases "idle_list s = []")
    case True
    with \<open>access_cnt s < probe_num cfg\<close> choice_wait [of s cfg] assms(4,5) show ?thesis by simp
  next
    case False
    let ?b = "hd (idle_list s)"
    have b: "flagged s ?b False" "flagged s a True"
      using False inv assms(3) hd_in_set [OF False] unfolding lb_inv_def by blast+
    then have "?b \<noteq> a" by (auto simp: flagged_def)
    moreover have "?b \<in> snd ` set (host_map s)" using b(1) by (simp add: flagged_def)
    ultimately have "host_of s ?b \<noteq> host_of s a" using host_of_inj [OF inv assms(2)] by blast
    with choice_idle [OF inv False, of cfg] True assms(4,5) show ?thesis by (auto split: if_splits)
  qed
qed

definition times_chosen :: "u32 \<times> i32 \<Rightarrow> choice list \<Rightarrow> nat" where
  "times_chosen h outs = length (filter (\<lambda>c. snd c = Some h) outs)"

definition choices_made :: "lb_event list \<Rightarrow> nat" where
  "choices_made es = length (filter (\<lambda>e. e = Choose) es)"

lemma counts_simps [simp]:
  "times_chosen h [] = 0" "times_chosen h (c # cs) = (if snd c = Some h then 1 else 0) + times_chosen h cs"
  "choices_made [] = 0" "choices_made (e # es) = (if e = Choose then 1 else 0) + choices_made es"
  by (simp_all add: times_chosen_def choices_made_def)

lemma update_access: "lb_update cfg now hosts s = Inr s' \<Longrightarrow> access_cnt s' = access_cnt s"
proof -
  assume run: "lb_update cfg now hosts s = Inr s'"
  have f: "access_cnt (fold (add_host cfg now) hosts s) = access_cnt s"
    by (induction hosts arbitrary: s) (simp_all add: add_host_def Let_def split: option.splits)
  have d: "delete_hosts ks u = Inr v \<Longrightarrow> access_cnt v = access_cnt u" for ks u v
    by (induction ks arbitrary: u) (auto simp: rbind_eq_Inr delete_host_def Let_def split: option.splits if_splits)
  from run d f show ?thesis by (auto simp: lb_update_def rbind_eq_Inr Let_def split: if_splits)
qed

lemma report_access: "lb_report cfg t0 t1 ip port b s = Inr s' \<Longrightarrow> access_cnt s' = access_cnt s"
  by (auto simp: lb_report_def rbind_eq_Inr Let_def check_window_def split: option.splits if_splits)

lemma report_hosts_id [simp]:
  "h_ip (report_hosts cfg rs h) = h_ip h" "h_port (report_hosts cfg rs h) = h_port h"
  by (induction rs arbitrary: h) (auto simp: report_host_def Let_def)

lemma step_pays:
  assumes "lb_ready s" and "map_of (host_map s) k = Some a" and "a \<in> set (overload_list s)" and "0 \<le> access_cnt s"
    and "lb_step cfg e s = Inr (out, s')"
  shows "0 \<le> access_cnt s' \<and> access_cnt s' + (probe_num cfg + 1) * int (times_chosen (host_of s a) out)
    \<le> access_cnt s + (if e = Choose then 1 else 0)"
proof (cases e)
  case Choose
  with assms(5) obtain r h where "choice_one_host cfg s = Inr (r, h, s')" "out = [(r, h)]"
    by (auto simp: rbind_eq_Inr)
  with choice_pays [OF assms(1-4), of cfg r h s'] Choose show ?thesis by auto
qed (use assms in \<open>auto simp: rbind_eq_Inr dest: update_access report_access\<close>)

lemma run_pays:
  assumes "lb_ready s" and "none_leaves (keys s) es" and "map_of (host_map s) k = Some a"
    and "host_heap s a = Some h" and "overload h" and "overload_ts h = Some t"
    and "failures_within cfg t (results_about k es)" and "0 \<le> access_cnt s"
    and "lb_run cfg es s = Inr (outs, s')"
  shows "0 \<le> access_cnt s' \<and> access_cnt s' + (probe_num cfg + 1) * int (times_chosen (host_of s a) outs)
    \<le> access_cnt s + int (choices_made es)"
  using assms
proof (induction es arbitrary: s h outs)
  case (Cons e es)
  obtain out s1 where s1: "lb_step cfg e s = Inr (out, s1)" "lb_ready s1" "none_leaves (keys s1) es"
      "map_of (host_map s1) k = Some a" "host_heap s1 a = Some (report_hosts cfg (results_about k [e]) h)"
    using step_ok [OF Cons.prems(1-4)] by metis
  obtain outs2 where r: "lb_run cfg es s1 = Inr (outs2, s')" "outs = out @ outs2"
    using Cons.prems(9) s1(1) by (auto simp: rbind_eq_Inr)
  have fw: "failures_within cfg t (results_about k [e])" "failures_within cfg t (results_about k es)"
    using Cons.prems(7) by (auto simp: failures_within_def results_about_Cons [of k e es] simp del: results_about.simps)
  note ov = failures_keep_overload [OF Cons.prems(5,6) fw(1)]
  have "a \<in> set (overload_list s)" using listed_iff(1) [OF Cons.prems(1,3,4)] Cons.prems(5) by simp
  note p1 = step_pays [OF Cons.prems(1,3) this Cons.prems(8) s1(1)]
  have "host_of s1 a = host_of s a" using s1(5) Cons.prems(4) by (simp add: host_of_def)
  with Cons.IH [OF s1(2-5) _ _ fw(2) _ r(1)] ov p1
  have p2: "0 \<le> access_cnt s' \<and> access_cnt s' + (probe_num cfg + 1) * int (times_chosen (host_of s a) outs2)
    \<le> access_cnt s1 + int (choices_made es)" by simp
  have "(probe_num cfg + 1) * int (times_chosen (host_of s a) outs) =
      (probe_num cfg + 1) * int (times_chosen (host_of s a) out) + (probe_num cfg + 1) * int (times_chosen (host_of s a) outs2)"
    unfolding r(2) by (simp add: times_chosen_def distrib_left)
  moreover have "int (choices_made (e # es)) = (if e = Choose then 1 else 0) + int (choices_made es)" by simp
  ultimately show ?case using p1 p2 by linarith
qed simp

section \<open>Properties\<close>

text \<open>
  C22: a balancer over time. Whatever choices, reports and route answers come, in whatever order, as long as
  no host leaves, every call returns and the balancer stays in order; and each host is then exactly what
  \<open>report_host\<close> makes of the results reported about it, in their order, whatever else happened in between.
\<close>

theorem hosts_follow_reports:
  assumes "lb_ready s" and "none_leaves (keys s) es"
    and "map_of (host_map s) (mk_key ip port) = Some a" and "host_heap s a = Some h"
  shows "\<exists>outs t. lb_run cfg es s = Inr (outs, t) \<and> lb_ready t \<and> map_of (host_map t) (mk_key ip port) = Some a \<and>
    host_heap t a = Some (report_hosts cfg (results_about (mk_key ip port) es) h)"
  by (rule run_ok [OF assms])

text \<open>A run with everything in it, on the balancer of two hosts.\<close>

definition demo_run :: "lb_event list" where
  "demo_run = [Result 1 80 False 101 101, Choose, Result 2 80 True 102 102, Routes 103 [(2, 80), (3, 80), (1, 80)],
     Result 1 80 False 103 103, Choose, Result 1 80 False 104 104]"

lemma demo_ov_host:
  "host_map demo_ov = host_map demo_lb"
  "host_heap demo_ov 0 = Some (set_overload demo_cfg 101 (count_result False (host_info_new 1 80 180 100)))"
  by (simp_all add: demo_ov_def lb_report_def demo_lb_eq host_at_def Let_def turns_overload_def count_result_def
      host_info_new_def demo_cfg_def)

lemma demo_ready: "lb_ready demo_lb" "lb_ready demo_ov"
  by (simp_all add: lb_ready_def demo_lb_inv demo_ov_inv demo_ov_host(1) demo_lb_eq)

lemma demo_run_ok:
  "none_leaves (keys demo_lb) demo_run"
  "results_about (mk_key 1 80) demo_run = [(False, 101, 101), (False, 103, 103), (False, 104, 104)]"
  by (auto simp: demo_run_def demo_lb_eq host_key_def simp del: demo_keys(3,4))

lemma hosts_follow_reports_witness:
  "\<exists>outs t. lb_run demo_cfg demo_run demo_lb = Inr (outs, t) \<and>
     host_heap t 0 = Some (report_hosts demo_cfg [(False, 101, 101), (False, 103, 103), (False, 104, 104)]
       (host_info_new 1 80 180 100))"
  using hosts_follow_reports [OF demo_ready(1) demo_run_ok(1), of 1 80 0 _ demo_cfg] unfolding demo_run_ok(2)
  by (auto simp: demo_lb_eq)

definition demo_cfg3 :: load_balance_config where
  "demo_cfg3 = demo_cfg\<lparr>contin_err_limit := 3, contin_succ_limit := 3, succ_rate := 1\<rparr>"

text \<open>
  C23: the way back. In a run in which no host leaves, an overloaded host about which only successes are reported, as
  many as are missing to \<open>contin_succ_limit\<close>, is idle again at the end; no time limit is needed for this.
\<close>

theorem recovered_host_idle:
  assumes "lb_ready s" and "none_leaves (keys s) es"
    and "map_of (host_map s) (mk_key ip port) = Some a" and "host_heap s a = Some h"
    and "overload h" and "contin_succ h < contin_succ_limit cfg"
    and "\<forall>r \<in> set (results_about (mk_key ip port) es). fst r"
    and "unat (contin_succ_limit cfg) - unat (contin_succ h) \<le> length (results_about (mk_key ip port) es)"
  shows "\<exists>outs t. lb_run cfg es s = Inr (outs, t) \<and> a \<in> set (idle_list t) \<and> a \<notin> set (overload_list t)"
proof -
  obtain outs t where t: "lb_run cfg es s = Inr (outs, t)" "lb_ready t" "map_of (host_map t) (mk_key ip port) = Some a"
      "host_heap t a = Some (report_hosts cfg (results_about (mk_key ip port) es) h)"
    using run_ok [OF assms(1-4)] by blast
  with listed_iff [OF t(2-4)] successes_idle [OF assms(5-8)] show ?thesis by blast
qed

lemma recovered_host_idle_witness:
  "\<exists>outs t. lb_run demo_cfg3 [Result 1 80 True 102 102, Choose, Result 1 80 True 103 103, Result 1 80 True 104 104] demo_ov
      = Inr (outs, t) \<and> 0 \<in> set (idle_list t) \<and> 0 \<notin> set (overload_list t)"
  by (rule recovered_host_idle [OF demo_ready(2), where ip = 1 and port = 80, OF _ _ demo_ov_host(2)])
    (simp_all add: demo_ov_host(1) demo_lb_eq(2) host_info_new_def demo_cfg3_def demo_cfg_def set_overload_def count_result_def)

text \<open>
  C7: how often clients still get an overloaded host, in a run in which no host leaves. While only failures are
  reported about it, within its time window, it stays overloaded, and its name is the answer to at most one in
  \<open>probe_num + 1\<close> of the choices, counted with what \<open>access_cnt\<close> already was.
\<close>

theorem overloaded_share:
  assumes "lb_ready s" and "none_leaves (keys s) es"
    and "map_of (host_map s) (mk_key ip port) = Some a" and "host_heap s a = Some h"
    and "overload h" and "overload_ts h = Some t"
    and "failures_within cfg t (results_about (mk_key ip port) es)" and "0 \<le> access_cnt s"
  shows "\<exists>outs s'. lb_run cfg es s = Inr (outs, s') \<and> a \<in> set (overload_list s') \<and>
    (probe_num cfg + 1) * int (times_chosen (ip, port) outs) \<le> access_cnt s + int (choices_made es)"
proof -
  obtain outs s' where s': "lb_run cfg es s = Inr (outs, s')" "lb_ready s'" "map_of (host_map s') (mk_key ip port) = Some a"
      "host_heap s' a = Some (report_hosts cfg (results_about (mk_key ip port) es) h)"
    using run_ok [OF assms(1-4)] by blast
  have "host_of s a = (ip, port)" by (rule host_of_named [OF assms(1,3,4)])
  with run_pays [OF assms s'(1)] listed_iff(1) [OF s'(2-4)] failures_keep_overload [OF assms(5-7)] s'(1)
  show ?thesis by auto
qed

lemma overloaded_share_witness:
  "\<exists>outs s'. lb_run demo_cfg [Choose, Choose, Result 1 80 False 105 105, Choose, Choose, Choose, Choose] demo_ov = Inr (outs, s') \<and>
     4 * int (times_chosen (1, 80) outs) \<le> 6"
  using overloaded_share [OF demo_ready(2), where ip = 1 and port = 80 and cfg = demo_cfg and t = 101, OF _ _ demo_ov_host(2),
      of "[Choose, Choose, Result 1 80 False 105 105, Choose, Choose, Choose, Choose]"]
  by (simp add: demo_ov_host(1) demo_lb_eq(2) demo_ov_eq(4) failures_within_def set_overload_def demo_cfg_def) blast

end
