(* ===== verification/Balance_Churn.thy ===== *)
theory Balance_Churn
  imports Balance_Run
begin

text \<open>
  A \<open>load_balance\<close> whose hosts come and go. \<open>update\<close> deletes the object of a host that is not in the answer and
  leaves its entry in \<open>_host_map\<close>, so that entries may dangle. Everything else stays in order: without the dangling
  entries the balancer satisfies \<open>lb_inv\<close>. That is what this theory uses as an invariant of arbitrary runs, to say
  what becomes of a host that stays, and of one that leaves.
\<close>

section \<open>The invariant\<close>

definition prune :: "load_balance \<Rightarrow> load_balance" where
  "prune s = s\<lparr>host_map := filter (\<lambda>(k, a). host_heap s a \<noteq> None) (host_map s)\<rparr>"

definition lb_sound :: "load_balance \<Rightarrow> bool" where
  "lb_sound s \<longleftrightarrow> lb_inv (prune s) \<and> distinct (map fst (host_map s)) \<and> distinct (map snd (host_map s)) \<and>
     (\<forall>a \<in> snd ` set (host_map s). a < fresh_host s)"

lemma prune_simps [simp]:
  "idle_list (prune s) = idle_list s" "overload_list (prune s) = overload_list s" "access_cnt (prune s) = access_cnt s"
  "host_heap (prune s) = host_heap s" "fresh_host (prune s) = fresh_host s"
  "host_map (prune s) = filter (\<lambda>(k, a). host_heap s a \<noteq> None) (host_map s)"
  by (simp_all add: prune_def)

lemma host_of_prune [simp]: "host_of (prune s) = host_of s"
  by (simp add: host_of_def fun_eq_iff)

lemma prune_back: "prune s\<lparr>host_map := host_map s\<rparr> = s"
  by (simp add: prune_def)

lemma map_of_filter_snd:
  "distinct (map fst xs) \<Longrightarrow> map_of (filter (\<lambda>(k, a). P a) xs) k =
     (case map_of xs k of None \<Rightarrow> None | Some a \<Rightarrow> if P a then Some a else None)"
proof (induction xs)
  case (Cons x xs)
  have "map_of xs (fst x) = None" using Cons.prems by (simp add: map_of_eq_None_iff)
  with Cons show ?case by (cases x) auto
qed simp

lemma map_of_prune:
  "lb_sound s \<Longrightarrow> map_of (host_map s) k = Some a \<Longrightarrow> host_heap s a = Some h \<Longrightarrow> map_of (host_map (prune s)) k = Some a"
  by (simp add: lb_sound_def map_of_filter_snd)

lemma lb_inv_sound: "lb_inv s \<Longrightarrow> lb_sound s"
proof -
  assume inv: "lb_inv s"
  have e: "host_entry s k a" if "(k, a) \<in> set (host_map s)" for k a using inv that by (simp add: lb_inv_def)
  have "filter (\<lambda>(k, a). host_heap s a \<noteq> None) (host_map s) = host_map s"
    by (rule filter_True) (auto simp: host_entry_def dest!: e)
  then have "prune s = s" by (simp add: prune_def)
  then show ?thesis using inv e by (auto simp: lb_sound_def lb_inv_def host_entry_def)
qed

lemma sound_host:
  assumes "lb_sound s" and "map_of (host_map s) k = Some a" and "host_heap s a = Some h"
  shows "k = mk_key_u (h_ip h) (h_port h)" "overload h \<longrightarrow> overload_ts h \<noteq> None"
    "a \<in> set (idle_list s) \<longleftrightarrow> \<not> overload h" "a \<in> set (overload_list s) \<longleftrightarrow> overload h"
proof -
  have "lb_inv (prune s)" using assms(1) by (simp add: lb_sound_def)
  from lb_inv_host [OF this map_of_prune [OF assms]] assms(3)
  show "k = mk_key_u (h_ip h) (h_port h)" "overload h \<longrightarrow> overload_ts h \<noteq> None"
    "a \<in> set (idle_list s) \<longleftrightarrow> \<not> overload h" "a \<in> set (overload_list s) \<longleftrightarrow> overload h"
    by (metis option.inject prune_simps(4), metis option.inject prune_simps(4),
        metis option.inject prune_simps(1,4), metis option.inject prune_simps(2,4))
qed

text \<open>A listed host is there, under its own key.\<close>

lemma sound_listed:
  assumes "lb_sound s" and "b \<in> set (idle_list s) \<union> set (overload_list s)"
  shows "\<exists>h. host_heap s b = Some h \<and> map_of (host_map s) (mk_key_u (h_ip h) (h_port h)) = Some b"
proof -
  have inv: "lb_inv (prune s)" and d: "distinct (map fst (host_map s))" using assms(1) by (simp_all add: lb_sound_def)
  have "flagged (prune s) b False \<or> flagged (prune s) b True" using inv assms(2) unfolding lb_inv_def by auto
  then obtain k where k: "(k, b) \<in> set (host_map (prune s))" by (auto simp: flagged_def)
  then have "host_entry (prune s) k b" using inv unfolding lb_inv_def by blast
  moreover have "map_of (host_map s) k = Some b" using k d by auto
  ultimately show ?thesis by (auto simp: host_entry_def)
qed

section \<open>The operations on a balancer with dangling entries\<close>

lemma choice_map:
  "choice_one_host cfg (s\<lparr>host_map := m\<rparr>) = rbind (choice_one_host cfg s) (\<lambda>(r, h, s'). Inr (r, h, s'\<lparr>host_map := m\<rparr>))"
  by (simp add: choice_one_host_def from_idle_def from_overload_def get_host_from_list_def host_at_def
      split: list.split option.split)

lemma choice_pruned:
  "choice_one_host cfg s = rbind (choice_one_host cfg (prune s)) (\<lambda>(r, h, s'). Inr (r, h, s'\<lparr>host_map := host_map s\<rparr>))"
  using choice_map [where cfg = cfg and s = "prune s" and m = "host_map s"] by (simp only: prune_back)

lemma choice_names:
  assumes "choice_one_host cfg s = Inr (r, Some x, s')"
  shows "\<exists>b \<in> set (idle_list s) \<union> set (overload_list s). x = host_of s b"
  using assms
  by (auto simp: choice_one_host_def from_idle_def from_overload_def get_host_from_list_def host_at_def host_of_def rbind_eq_Inr
      split: if_splits list.splits option.splits)

lemma sound_choice:
  assumes "lb_sound s" and "choice_one_host cfg s = Inr (r, h, s')"
  shows "lb_sound s'" and "host_map s' = host_map s" and "host_heap s' = host_heap s"
proof -
  have inv: "lb_inv (prune s)" using assms(1) by (simp add: lb_sound_def)
  obtain u where u: "choice_one_host cfg (prune s) = Inr (r, h, u)" "s' = u\<lparr>host_map := host_map s\<rparr>"
    using assms(2) unfolding choice_pruned [of cfg s] by (auto simp: rbind_eq_Inr)
  have same: "host_map u = host_map (prune s)" "host_heap u = host_heap s" "fresh_host u = fresh_host s"
    using u(1) by (auto simp: choice_one_host_def from_idle_def from_overload_def rbind_eq_Inr split: if_splits)
  then have "prune s' = u" unfolding u(2) by (simp add: prune_def)
  then show "lb_sound s'" using choice_inv [OF inv u(1)] assms(1) same u(2) by (simp add: lb_sound_def)
  show "host_map s' = host_map s" "host_heap s' = host_heap s" using same u(2) by simp_all
qed

lemma sound_choice_runs:
  assumes "lb_sound s" and "map_of (host_map s) k = Some a" and "host_heap s a = Some h"
  shows "\<exists>r. choice_one_host cfg s = Inr r"
proof -
  have "lb_ready (prune s)" using map_of_prune [OF assms] assms(1) by (auto simp: lb_ready_def lb_sound_def dest: map_of_SomeD)
  then obtain r h' s' where "choice_one_host cfg (prune s) = Inr (r, h', s')" using choose_ok by metis
  then show ?thesis unfolding choice_pruned [of cfg s] by simp
qed

lemma report_map:
  assumes "map_of m (mk_key ip port) = map_of (host_map s) (mk_key ip port)"
  shows "lb_report cfg t0 t1 ip port b (s\<lparr>host_map := m\<rparr>) = rbind (lb_report cfg t0 t1 ip port b s) (\<lambda>s'. Inr (s'\<lparr>host_map := m\<rparr>))"
proof (cases "map_of (host_map s) (mk_key ip port)")
  case (Some a)
  show ?thesis
  proof (cases "host_heap s a")
    case (Some h)
    with \<open>map_of (host_map s) (mk_key ip port) = Some a\<close> assms show ?thesis
      by (cases "overload h"; cases b; cases "overload_ts h")
        (simp_all add: lb_report_def host_at_def set_host_def check_window_def Let_def)
  qed (use Some assms in \<open>simp add: lb_report_def host_at_def\<close>)
qed (use assms in \<open>simp add: lb_report_def\<close>)

lemma sound_report:
  assumes "lb_sound s" and k: "map_of (host_map s) (mk_key ip port) = Some b" and h0: "host_heap s b = Some h0"
  obtains s' where "lb_report cfg t0 t1 ip port succ s = Inr s'" "lb_sound s'" "host_map s' = host_map s"
    "host_heap s' = (host_heap s)(b \<mapsto> report_host cfg t0 t1 succ h0)"
    "overload_list s' = snd (follow_flag b (overload h0) (overload (report_host cfg t0 t1 succ h0)) s)"
    "access_cnt s' = access_cnt s"
proof -
  have inv: "lb_inv (prune s)" using assms(1) by (simp add: lb_sound_def)
  note k' = map_of_prune [OF assms]
  have h': "host_heap (prune s) b = Some h0" using h0 by simp
  obtain u where u: "lb_report cfg t0 t1 ip port succ (prune s) = Inr u"
      "u = set_host b (report_host cfg t0 t1 succ h0)
        (prune s\<lparr>idle_list := fst (follow_flag b (overload h0) (overload (report_host cfg t0 t1 succ h0)) (prune s)),
         overload_list := snd (follow_flag b (overload h0) (overload (report_host cfg t0 t1 succ h0)) (prune s))\<rparr>)"
    using lb_report_spec [OF inv k' h', of cfg t0 t1 succ] by blast
  let ?s = "u\<lparr>host_map := host_map s\<rparr>"
  have run: "lb_report cfg t0 t1 ip port succ s = Inr ?s"
    using report_map [where m = "host_map s" and ip = ip and port = port and s = "prune s" and cfg = cfg and b = succ and ?t0.0 = t0 and ?t1.0 = t1] u(1) k k' by (simp add: prune_back)
  have same: "host_heap u = (host_heap s)(b \<mapsto> report_host cfg t0 t1 succ h0)" "fresh_host u = fresh_host s"
    "host_map u = host_map (prune s)" by (simp_all add: u(2))
  have "filter (\<lambda>(k, a). host_heap u a \<noteq> None) (host_map s) = host_map u"
    unfolding same prune_simps by (rule filter_cong) (use h0 in auto)
  then have "prune ?s = u" by (simp add: prune_def)
  then have "lb_sound ?s" using lb_report_inv [OF inv k' h' u(1)] assms(1) same by (simp add: lb_sound_def)
  then show thesis using that [OF run] same by (simp add: u(2) follow_flag_def)
qed

lemma report_dangling:
  "map_of (host_map s) (mk_key ip port) = Some a \<Longrightarrow> host_heap s a = None \<Longrightarrow>
   lb_report cfg t0 t1 ip port b s = Inl UseAfterFree"
  by (simp add: lb_report_def host_at_def)

lemma sound_add:
  assumes "lb_sound s"
  shows "lb_sound (add_host cfg now h s)"
proof (cases "map_of (host_map s) (host_key h)")
  case None
  have inv: "lb_inv (prune s)" using assms by (simp add: lb_sound_def)
  have "map_of (host_map (prune s)) (host_key h) = None"
    using assms None by (simp add: lb_sound_def map_of_filter_snd)
  moreover have "filter (\<lambda>(k, a). a \<noteq> fresh_host s \<longrightarrow> (\<exists>h. host_heap s a = Some h)) (host_map s) =
      filter (\<lambda>(k, a). \<exists>h. host_heap s a = Some h) (host_map s)"
    by (rule filter_cong) (use assms in \<open>auto simp: lb_sound_def\<close>)
  ultimately have "prune (add_host cfg now h s) = add_host cfg now h (prune s)"
    using None by (intro load_balance.equality) (simp_all add: add_host_def Let_def prune_def)
  moreover have "host_key h \<notin> fst ` set (host_map s)" using None by (simp add: map_of_eq_None_iff)
  moreover have "fresh_host s \<notin> snd ` set (host_map s)" using assms by (auto simp: lb_sound_def)
  ultimately show ?thesis using add_host_inv [OF inv, of cfg now h] assms None
    by (auto simp: lb_sound_def add_host_def Let_def)
qed (use assms in \<open>simp add: add_host_def\<close>)

lemma sound_adds: "lb_sound s \<Longrightarrow> lb_sound (fold (add_host cfg now) hosts s)"
  by (induction hosts arbitrary: s) (simp_all add: sound_add)

lemma add_host_mapped:
  "lb_sound s \<Longrightarrow> map_of (host_map s) k = Some a \<Longrightarrow> host_heap (add_host cfg now h s) a = host_heap s a"
  by (auto simp: add_host_def Let_def lb_sound_def dest!: map_of_SomeD split: option.splits)

lemma add_hosts_mapped:
  "lb_sound s \<Longrightarrow> map_of (host_map s) k = Some a \<Longrightarrow> host_heap (fold (add_host cfg now) hosts s) a = host_heap s a"
  by (induction hosts arbitrary: s) (simp_all add: sound_add add_host_map add_host_mapped)

lemma add_hosts_overload: "overload_list (fold (add_host cfg now) hosts s) = overload_list s"
  by (induction hosts arbitrary: s) (simp_all add: add_host_def Let_def split: option.split)

lemma delete_cases:
  assumes "k \<in> fst ` set (host_map s)"
  obtains a where "map_of (host_map s) k = Some a" "host_heap s a = None" "delete_host k s = Inl UseAfterFree"
  | a h s' where "map_of (host_map s) k = Some a" "host_heap s a = Some h" "delete_host k s = Inr s'"
      "host_map s' = host_map s" "host_heap s' = (host_heap s)(a := None)" "fresh_host s' = fresh_host s"
      "idle_list s' = (if overload h then idle_list s else removeAll a (idle_list s))"
      "overload_list s' = (if overload h then removeAll a (overload_list s) else overload_list s)"
proof -
  obtain a where a: "map_of (host_map s) k = Some a" using assms by (metis map_of_eq_None_iff not_None_eq)
  show thesis
  proof (cases "host_heap s a")
    case None
    with a show thesis by (intro that(1)) (simp_all add: delete_host_def host_at_def)
  next
    case (Some h)
    let ?s1 = "if overload h then s\<lparr>overload_list := removeAll a (overload_list s)\<rparr> else s\<lparr>idle_list := removeAll a (idle_list s)\<rparr>"
    from Some a show thesis
      by (intro that(2) [of a h "?s1\<lparr>host_heap := (host_heap ?s1)(a := None)\<rparr>"]) (simp_all add: delete_host_def host_at_def Let_def)
  qed
qed

lemma sound_delete:
  assumes "lb_sound s" and "delete_host k s = Inr s'" and "k \<in> fst ` set (host_map s)"
  shows "lb_sound s'"
  using assms(3)
proof (cases rule: delete_cases)
  case (1 a)
  then show ?thesis using assms(2) by simp
next
  case (2 a h t)
  have t: "t = s'" using 2(3) assms(2) by simp
  have inv: "lb_inv (prune s)" using assms(1) by (simp add: lb_sound_def)
  have m: "set (host_map (prune s')) = {(k, x) \<in> set (host_map (prune s)). x \<noteq> a}"
    using 2(4,5) by (auto simp: t split: if_splits)
  have "host_entry (prune s') k x" if "(k, x) \<in> set (host_map (prune s'))" for k x
  proof -
    have "x \<noteq> a" "host_entry (prune s) k x" using that inv unfolding m lb_inv_def by auto
    then show ?thesis using 2(5,6) by (simp add: host_entry_def t)
  qed
  moreover have f: "flagged (prune s') x ov \<longleftrightarrow> x \<noteq> a \<and> flagged (prune s) x ov" for x ov
    using 2(5) unfolding flagged_def m by (auto simp: t)
  moreover have l: "x \<in> set (idle_list s) \<longleftrightarrow> flagged (prune s) x False" "x \<in> set (overload_list s) \<longleftrightarrow> flagged (prune s) x True" for x
    using inv unfolding lb_inv_def by auto
  have "flagged (prune s) a ov \<Longrightarrow> overload h = ov" for ov using 2(2) by (auto simp: flagged_def)
  then have "x \<in> set (idle_list s') \<longleftrightarrow> flagged (prune s') x False" "x \<in> set (overload_list s') \<longleftrightarrow> flagged (prune s') x True" for x
    using 2(7,8) unfolding f by (auto simp: t l)
  moreover have "distinct (map fst (host_map (prune s')))" "distinct (map snd (host_map (prune s')))"
    using assms(1) 2(4) unfolding lb_sound_def prune_simps t by (auto intro: distinct_map_filter)
  moreover have "distinct (idle_list s')" "distinct (overload_list s')"
    using inv 2(7,8) unfolding lb_inv_def by (auto simp: t distinct_removeAll)
  ultimately have "lb_inv (prune s')" unfolding lb_inv_def by simp
  then show ?thesis using assms(1) 2(4,6) by (simp add: lb_sound_def t)
qed

lemma delete_host_bad: "delete_host k s = Inl e \<Longrightarrow> k \<in> fst ` set (host_map s) \<Longrightarrow> e = UseAfterFree"
  by (erule delete_cases) simp_all

lemma sound_deletes:
  assumes "lb_sound s" and "set ks \<subseteq> fst ` set (host_map s)" and "delete_hosts ks s = Inr s'"
  shows "lb_sound s' \<and> host_map s' = host_map s \<and>
    (\<forall>k a. map_of (host_map s) k = Some a \<longrightarrow> k \<notin> set ks \<longrightarrow> host_heap s' a = host_heap s a) \<and>
    (\<forall>a. host_heap s a = None \<longrightarrow> host_heap s' a = None) \<and>
    (\<exists>D. overload_list s' = filter (\<lambda>x. x \<notin> D) (overload_list s) \<and>
       (\<forall>k a. map_of (host_map s) k = Some a \<longrightarrow> k \<notin> set ks \<longrightarrow> a \<notin> D))"
  using assms
proof (induction ks arbitrary: s)
  case Nil
  then show ?case by (auto intro!: exI [of _ "{}"])
next
  case (Cons k ks)
  have key: "k \<in> fst ` set (host_map s)" using Cons.prems(2) by simp
  obtain s1 where s1: "delete_host k s = Inr s1" "delete_hosts ks s1 = Inr s'" using Cons.prems(3) by (auto simp: rbind_eq_Inr)
  obtain a and h :: host_info where a: "map_of (host_map s) k = Some a" "host_map s1 = host_map s" "host_heap s1 = (host_heap s)(a := None)"
      "overload_list s1 = (if overload h then removeAll a (overload_list s) else overload_list s)"
    using key
  proof (cases rule: delete_cases)
    case (2 a h t)
    then show thesis using that [of a h] s1(1) by simp
  qed (use s1(1) in simp)
  have inj: "k' = k" if "map_of (host_map s) k' = Some a" for k'
  proof -
    have "(k', a) \<in> set (host_map s)" "(k, a) \<in> set (host_map s)" using that a(1) by (auto dest: map_of_SomeD)
    moreover have "inj_on snd (set (host_map s))" using Cons.prems(1) by (simp add: lb_sound_def distinct_map)
    ultimately show ?thesis by (metis inj_onD prod.inject snd_conv)
  qed
  obtain D where IH: "lb_sound s'" "host_map s' = host_map s1"
      "\<forall>k a. map_of (host_map s1) k = Some a \<longrightarrow> k \<notin> set ks \<longrightarrow> host_heap s' a = host_heap s1 a"
      "\<forall>a. host_heap s1 a = None \<longrightarrow> host_heap s' a = None" "overload_list s' = filter (\<lambda>x. x \<notin> D) (overload_list s1)"
      "\<forall>k a. map_of (host_map s1) k = Some a \<longrightarrow> k \<notin> set ks \<longrightarrow> a \<notin> D"
    using Cons.IH [OF sound_delete [OF Cons.prems(1) s1(1) key] _ s1(2)] Cons.prems(2) a(2) by auto
  define D' where "D' = (if overload h then insert a D else D)"
  have "overload_list s' = filter (\<lambda>x. x \<notin> D') (overload_list s)"
    unfolding IH(5) a(4) D'_def by (auto simp: removeAll_filter_not_eq intro: filter_cong)
  moreover have "a' \<notin> D'" "host_heap s' a' = host_heap s a'" if "map_of (host_map s) k' = Some a'" "k' \<notin> set (k # ks)" for k' a'
    using that IH(3,6) a(2,3) inj by (auto simp: D'_def)
  moreover have "host_heap s' a' = None" if "host_heap s a' = None" for a' using that IH(4) a(3) by simp
  ultimately show ?case using IH(1,2) a(2) by (intro conjI exI [of _ D']) simp_all
qed

lemma delete_hosts_bad:
  "delete_hosts ks s = Inl e \<Longrightarrow> set ks \<subseteq> fst ` set (host_map s) \<Longrightarrow> e = UseAfterFree"
proof (induction ks arbitrary: s)
  case (Cons k ks)
  have key: "k \<in> fst ` set (host_map s)" using Cons.prems(2) by simp
  then show ?case
  proof (cases rule: delete_cases)
    case (2 a h s1)
    then show ?thesis using Cons by simp
  qed (use Cons.prems in simp)
qed simp

text \<open>
  \<open>update\<close>: it returns or stops at a dangling entry. A host of the answer stays as it is, a host that is gone stays
  gone, and the overload list only loses hosts that are not in the answer.
\<close>

lemma sound_update:
  assumes s: "lb_sound s" and "hosts \<noteq> []"
  obtains "lb_update cfg now hosts s = Inl UseAfterFree"
  | s' D where "lb_update cfg now hosts s = Inr s'" "lb_sound s'"
      "\<And>k a. map_of (host_map s) k = Some a \<Longrightarrow> map_of (host_map s') k = Some a"
      "\<And>k a. map_of (host_map s) k = Some a \<Longrightarrow> k \<in> host_key ` set hosts \<Longrightarrow> host_heap s' a = host_heap s a"
      "\<And>k a. map_of (host_map s) k = Some a \<Longrightarrow> host_heap s a = None \<Longrightarrow> host_heap s' a = None"
      "overload_list s' = filter (\<lambda>x. x \<notin> D) (overload_list s)"
      "\<And>k a. map_of (host_map s) k = Some a \<Longrightarrow> k \<in> host_key ` set hosts \<Longrightarrow> a \<notin> D"
proof -
  define s1 where "s1 = fold (add_host cfg now) hosts s"
  have s1: "lb_sound s1" using sound_adds [OF s] by (simp add: s1_def)
  have old: "map_of (host_map s1) k = Some a" "host_heap s1 a = host_heap s a" if "map_of (host_map s) k = Some a" for k a
    using add_hosts_old [OF that] add_hosts_mapped [OF s that] by (simp_all add: s1_def)
  have ks: "set (need_delete hosts s1) \<subseteq> fst ` set (host_map s1)" by (auto simp: need_delete_iff)
  have out: "k \<notin> set (need_delete hosts s1)" if "k \<in> host_key ` set hosts" for k using that by (simp add: need_delete_iff)
  have upd: "lb_update cfg now hosts s = rbind (delete_hosts (need_delete hosts s1) s1)
      (\<lambda>s2. Inr (s2\<lparr>last_update_time := now, lb_status := NEW\<rparr>))"
    using assms(2) by (simp add: lb_update_def s1_def Let_def)
  show thesis
  proof (cases "delete_hosts (need_delete hosts s1) s1")
    case (Inl e)
    then show thesis using delete_hosts_bad [OF Inl ks] upd by (intro that(1)) simp
  next
    case (Inr s2)
    obtain D where s2: "lb_sound s2" "host_map s2 = host_map s1"
        "\<forall>k a. map_of (host_map s1) k = Some a \<longrightarrow> k \<notin> set (need_delete hosts s1) \<longrightarrow> host_heap s2 a = host_heap s1 a"
        "\<forall>a. host_heap s1 a = None \<longrightarrow> host_heap s2 a = None" "overload_list s2 = filter (\<lambda>x. x \<notin> D) (overload_list s1)"
        "\<forall>k a. map_of (host_map s1) k = Some a \<longrightarrow> k \<notin> set (need_delete hosts s1) \<longrightarrow> a \<notin> D"
      using sound_deletes [OF s1 ks Inr] by blast
    let ?t = "s2\<lparr>last_update_time := now, lb_status := NEW\<rparr>"
    have "lb_inv (prune ?t)"
      by (rule lb_inv_cong [of "prune s2"]) (use s2(1) in \<open>auto simp: lb_sound_def lb_inv_def\<close>)
    then have "lb_sound ?t" using s2(1) by (simp add: lb_sound_def)
    moreover have "overload_list ?t = filter (\<lambda>x. x \<notin> D) (overload_list s)"
      using s2(5) add_hosts_overload [of cfg now hosts s] by (simp add: s1_def)
    moreover have "host_heap ?t a = host_heap s a" "a \<notin> D" if "map_of (host_map s) k = Some a" "k \<in> host_key ` set hosts" for k a
      using s2(3,6) old [OF that(1)] out [OF that(2)] by auto
    ultimately show thesis using upd Inr s2(2,4) old by (intro that(2) [of ?t D]) simp_all
  qed
qed

lemma update_dangling:
  assumes "lb_sound s" and "hosts \<noteq> []" and "map_of (host_map s) k = Some a" and "host_heap s a = None" and "k \<notin> host_key ` set hosts"
  shows "lb_update cfg now hosts s = Inl UseAfterFree"
  using assms(1,2)
proof (cases rule: sound_update [where cfg = cfg and now = now])
  case (2 s' D)
  define s1 where "s1 = fold (add_host cfg now) hosts s"
  have "map_of (host_map s1) k = Some a" "host_heap s1 a = None"
    using add_hosts_old [OF assms(3)] add_hosts_mapped [OF assms(1,3)] assms(4) by (simp_all add: s1_def)
  moreover from this have "k \<in> set (need_delete hosts s1)"
    using assms(5) by (metis need_delete_iff map_of_eq_None_iff option.distinct(1))
  ultimately obtain e where "delete_hosts (need_delete hosts s1) s1 = Inl e" using delete_hosts_dangling by blast
  then show ?thesis using 2(1) assms(2) by (simp add: lb_update_def s1_def)
qed

section \<open>Runs\<close>

text \<open>The route answers of a run that all repeat one host; others may come and go.\<close>

fun keeps_host :: "u64 \<Rightarrow> lb_event list \<Rightarrow> bool" where
  "keeps_host k [] \<longleftrightarrow> True"
| "keeps_host k (Routes now hosts # es) \<longleftrightarrow> k \<in> host_key ` set hosts \<and> keeps_host k es"
| "keeps_host k (_ # es) \<longleftrightarrow> keeps_host k es"

lemma none_leaves_keeps: "none_leaves ks es \<Longrightarrow> k \<in> ks \<Longrightarrow> keeps_host k es"
proof (induction es arbitrary: ks)
  case (Cons e es)
  then show ?case by (cases e) auto
qed simp

text \<open>A host that stays follows the results about it, unless a dangling entry stops the balancer.\<close>

lemma churn_step:
  assumes s: "lb_sound s" and kh: "keeps_host k (e # es)"
    and a: "map_of (host_map s) k = Some a" "host_heap s a = Some h"
  obtains "lb_step cfg e s = Inl UseAfterFree"
  | out s' where "lb_step cfg e s = Inr (out, s')" "lb_sound s'" "keeps_host k es"
      "map_of (host_map s') k = Some a" "host_heap s' a = Some (report_hosts cfg (results_about k [e]) h)"
proof (cases e)
  case Choose
  obtain r h' s' where c: "choice_one_host cfg s = Inr (r, h', s')"
    using sound_choice_runs [OF s a, of cfg] by (metis prod_cases3)
  with sound_choice [OF s c] Choose kh a show thesis by (intro that(2) [of "[(r, h')]" s']) simp_all
next
  case (Routes now hosts)
  have hosts: "hosts \<noteq> []" "k \<in> host_key ` set hosts" "keeps_host k es" using kh by (auto simp: Routes)
  from s hosts(1) show thesis
  proof (cases rule: sound_update [where cfg = cfg and now = now])
    case 1
    then show thesis using Routes by (intro that(1)) simp
  next
    case (2 s' D)
    then show thesis using Routes hosts(2,3) a by (intro that(2) [of "[]" s']) auto
  qed
next
  case (Result ip port succ t0 t1)
  have kh': "keeps_host k es" using kh by (simp add: Result)
  show thesis
  proof (cases "map_of (host_map s) (mk_key ip port)")
    case None
    then have "lb_report cfg t0 t1 ip port succ s = Inr s" by (simp add: lb_report_def)
    with None Result kh' a s show thesis by (intro that(2) [of "[]" s]) auto
  next
    case (Some b)
    show thesis
    proof (cases "host_heap s b")
      case None
      from report_dangling [OF Some None] show thesis by (intro that(1)) (simp add: Result)
    next
      case h0: (Some h0)
      from sound_report [OF s Some h0, of cfg t0 t1 succ] obtain s' where
        s': "lb_report cfg t0 t1 ip port succ s = Inr s'" "lb_sound s'" "host_map s' = host_map s"
          "host_heap s' = (host_heap s)(b \<mapsto> report_host cfg t0 t1 succ h0)" by blast
      have "b = a \<longleftrightarrow> mk_key ip port = k"
        using sound_host(1) [OF s Some h0] sound_host(1) [OF s a] Some h0 a by (metis option.inject)
      then show thesis using s' h0 Result kh' a by (intro that(2) [of "[]" s']) auto
    qed
  qed
qed

lemma churn_run:
  assumes "lb_sound s" and "keeps_host k es" and "map_of (host_map s) k = Some a" and "host_heap s a = Some h"
  shows "lb_run cfg es s = Inl UseAfterFree \<or>
    (\<exists>outs t. lb_run cfg es s = Inr (outs, t) \<and> lb_sound t \<and> map_of (host_map t) k = Some a \<and>
       host_heap t a = Some (report_hosts cfg (results_about k es) h))"
  using assms
proof (induction es arbitrary: s h)
  case (Cons e es)
  from Cons.prems show ?case
  proof (cases rule: churn_step [where cfg = cfg])
    case (2 out s')
    from Cons.IH [OF 2(2-5)] 2(1) show ?thesis
      by (auto simp: results_about_Cons [of k e es] report_hosts_append simp del: results_about.simps(2))
  qed simp
qed simp

text \<open>A host that is gone stays gone, and its name is no answer any more.\<close>

lemma gone_step:
  assumes s: "lb_sound s" and a: "map_of (host_map s) (host_key h) = Some a" "host_heap s a = None"
    and run: "lb_step cfg e s = Inr (out, s')"
  shows "lb_sound s' \<and> map_of (host_map s') (host_key h) = Some a \<and> host_heap s' a = None \<and> (\<forall>r. (r, Some h) \<notin> set out)"
proof (cases e)
  case Choose
  obtain r x where c: "choice_one_host cfg s = Inr (r, x, s')" "out = [(r, x)]" using run Choose by (auto simp: rbind_eq_Inr)
  have "x \<noteq> Some h"
  proof
    assume "x = Some h"
    then obtain b where b: "b \<in> set (idle_list s) \<union> set (overload_list s)" "h = host_of s b" using choice_names c(1) by blast
    from sound_listed [OF s b(1)] obtain hb where "host_heap s b = Some hb" "map_of (host_map s) (mk_key_u (h_ip hb) (h_port hb)) = Some b"
      by blast
    with b(2) a show False by (simp add: host_of_def host_key_def)
  qed
  with sound_choice [OF s c(1)] a c(2) show ?thesis by simp
next
  case (Routes now hosts)
  with run have u: "lb_update cfg now hosts s = Inr s'" "out = []" by (auto simp: rbind_eq_Inr)
  then have "hosts \<noteq> []" by (auto simp: lb_update_def)
  with s show ?thesis
    by (cases rule: sound_update [where cfg = cfg and now = now]) (use u a in auto)
next
  case (Result ip port succ t0 t1)
  with run have u: "lb_report cfg t0 t1 ip port succ s = Inr s'" "out = []" by (auto simp: rbind_eq_Inr)
  show ?thesis
  proof (cases "map_of (host_map s) (mk_key ip port)")
    case None
    then show ?thesis using u a s by (simp add: lb_report_def)
  next
    case (Some b)
    obtain h0 where h0: "host_heap s b = Some h0" using u(1) report_dangling [OF Some] by (cases "host_heap s b") auto
    from sound_report [OF s Some h0, of cfg t0 t1 succ] u(1)
    have "lb_sound s'" "host_map s' = host_map s" "host_heap s' = (host_heap s)(b \<mapsto> report_host cfg t0 t1 succ h0)" by auto
    moreover have "b \<noteq> a" using h0 a(2) by auto
    ultimately show ?thesis using a u(2) by simp
  qed
qed

lemma gone_run:
  assumes "lb_sound s" and "map_of (host_map s) (host_key h) = Some a" and "host_heap s a = None"
    and "lb_run cfg es s = Inr (outs, s')"
  shows "lb_sound s' \<and> map_of (host_map s') (host_key h) = Some a \<and> host_heap s' a = None \<and> (\<forall>r. (r, Some h) \<notin> set outs)"
  using assms
proof (induction es arbitrary: s outs)
  case (Cons e es)
  obtain out s1 outs2 where o: "lb_step cfg e s = Inr (out, s1)" "lb_run cfg es s1 = Inr (outs2, s')" "outs = out @ outs2"
    using Cons.prems(4) by (auto simp: rbind_eq_Inr)
  from gone_step [OF Cons.prems(1-3) o(1)] Cons.IH [OF _ _ _ o(2)] o(3) show ?case by auto
qed simp

section \<open>Properties\<close>

text \<open>
  C5: a failing host is taken out of the rotation. Take an idle host that every route answer repeats and about which
  only failures are reported, as many as are missing to \<open>contin_err_limit\<close> and within its time window. Whatever
  the clients choose, whatever is reported about other hosts and whichever of those come and go, the host is overloaded
  at the end, on the overload list and not on the idle list; unless the balancer has stopped at the entry of another
  host that a route answer had dropped, by its use after free.
\<close>

theorem failing_host_overloaded:
  assumes "lb_ready s" and "keeps_host (mk_key ip port) es"
    and "map_of (host_map s) (mk_key ip port) = Some a" and "host_heap s a = Some h"
    and "\<not> overload h" and "contin_err h < contin_err_limit cfg"
    and "\<forall>(succ, t0, t1) \<in> set (results_about (mk_key ip port) es).
      \<not> succ \<and> t0 - idle_ts h < idle_timeout cfg \<and> t0 < now + overload_timeout cfg \<and> now \<le> t1"
    and "unat (contin_err_limit cfg) - unat (contin_err h) \<le> length (results_about (mk_key ip port) es)"
  shows "lb_run cfg es s = Inl UseAfterFree \<and> \<not> none_leaves (keys s) es \<or>
    (\<exists>outs t. lb_run cfg es s = Inr (outs, t) \<and> a \<in> set (overload_list t) \<and> a \<notin> set (idle_list t))"
proof -
  have s: "lb_sound s" using assms(1) by (simp add: lb_ready_def lb_inv_sound)
  have nl: "lb_run cfg es s \<noteq> Inl UseAfterFree" if "none_leaves (keys s) es"
    using run_ok [OF assms(1) that assms(3,4), of cfg] by auto
  from churn_run [OF s assms(2-4), of cfg] show ?thesis
  proof (elim disjE exE conjE)
    fix outs t
    assume t: "lb_run cfg es s = Inr (outs, t)" "lb_sound t" "map_of (host_map t) (mk_key ip port) = Some a"
      "host_heap t a = Some (report_hosts cfg (results_about (mk_key ip port) es) h)"
    with sound_host(3,4) [OF t(2-4)] failures_overload [OF assms(5-8)] show ?thesis by blast
  qed (use nl in blast)
qed

text \<open>The run of the examples; and one in which another host leaves in between.\<close>

lemma failing_host_overloaded_witness:
  "(\<exists>outs t. lb_run demo_cfg3 demo_run demo_lb = Inr (outs, t) \<and> 0 \<in> set (overload_list t) \<and> 0 \<notin> set (idle_list t)) \<and>
   (\<exists>outs t. lb_run demo_cfg3 [Result 1 80 False 101 101, Choose, Routes 102 [(1, 80), (3, 80)], Choose, Result 1 80 False 103 103,
      Result 1 80 False 104 104] demo_lb = Inr (outs, t) \<and> 0 \<in> set (overload_list t) \<and> 0 \<notin> set (idle_list t))"
proof -
  have k: "mk_key 1 80 \<in> keys demo_lb" "map_of (host_map demo_lb) (mk_key 1 80) = Some 0"
    "host_heap demo_lb 0 = Some (host_info_new 1 80 180 100)" by (simp_all add: demo_lb_eq)
  have h: "contin_err (host_info_new 1 80 180 100) < contin_err_limit demo_cfg3" "\<not> overload (host_info_new 1 80 180 100)"
    by (simp_all add: host_info_new_def demo_cfg3_def demo_cfg_def)
  note fails = failing_host_overloaded [OF demo_ready(1) _ k(2,3) h(2,1), where now = 101]
  let ?es = "[Result 1 80 False 101 101, Choose, Routes 102 [(1, 80), (3, 80)], Choose, Result 1 80 False 103 103, Result 1 80 False 104 104]"
  have 1: "\<exists>outs t. lb_run demo_cfg3 demo_run demo_lb = Inr (outs, t) \<and> 0 \<in> set (overload_list t) \<and> 0 \<notin> set (idle_list t)"
    using fails [OF none_leaves_keeps [OF demo_run_ok(1) k(1)]] demo_run_ok(1) unfolding demo_run_ok(2)
    by (simp add: demo_lb_eq(2) host_info_new_def demo_cfg3_def demo_cfg_def)
  have "lb_run demo_cfg3 ?es demo_lb \<noteq> Inl UseAfterFree"
    by (simp add: demo_lb_def load_balance_new_def lb_update_def add_host_def host_key_def Let_def need_delete_def delete_host_def
        host_at_def host_info_new_def demo_cfg_def demo_cfg3_def lb_report_def count_result_def set_host_def turns_overload_def
        rate_gt_def check_window_def choice_one_host_def from_idle_def get_host_from_list_def set_overload_def)
  then have "\<exists>outs t. lb_run demo_cfg3 ?es demo_lb = Inr (outs, t) \<and> 0 \<in> set (overload_list t) \<and> 0 \<notin> set (idle_list t)"
    using fails [of ?es] by (simp add: demo_lb_eq(2) host_info_new_def demo_cfg3_def demo_cfg_def host_key_def)
  with 1 show ?thesis by blast
qed

text \<open>
  C35: a host that leaves is lost for good, since its stale entry in \<open>_host_map\<close> makes \<open>update\<close> think it is known.
  From any balancer in order: after a route answer without it, no choice answers with it any more, however many further
  choices, reports and route answers follow, also when these bring it back; and after any of them a result
  reported about it, or a route answer without it, is a use after free.
\<close>

theorem returning_host_lost:
  assumes "lb_inv s" and "map_of (host_map s) (host_key h) = Some a" and "hosts \<noteq> []" and "host_key h \<notin> host_key ` set hosts"
  shows "\<exists>s1. lb_update cfg now hosts s = Inr s1 \<and>
    (\<forall>es outs s2. lb_run cfg es s1 = Inr (outs, s2) \<longrightarrow>
       (\<forall>r. (r, Some h) \<notin> set outs) \<and>
       (\<forall>t0 t1 b. lb_report cfg t0 t1 (fst h) (snd h) b s2 = Inl UseAfterFree) \<and>
       (\<forall>t hosts2. hosts2 \<noteq> [] \<longrightarrow> host_key h \<notin> host_key ` set hosts2 \<longrightarrow> lb_update cfg t hosts2 s2 = Inl UseAfterFree))"
proof -
  have key: "mk_key (fst h) (snd h) = host_key h" by (simp add: host_key_def mk_key_u_eq)
  obtain s1 where s1: "lb_update cfg now hosts s = Inr s1" "map_of (host_map s1) (host_key h) = Some a"
      "lb_report cfg 0 0 (fst h) (snd h) True s1 = Inl UseAfterFree"
    using update_leaves_dangling [where ip = "fst h" and port = "snd h", unfolded key, OF assms(1,3,2,4)] by blast
  have sound: "lb_sound s1"
    using lb_inv_sound [OF assms(1)] assms(3)
    by (cases rule: sound_update [where cfg = cfg and now = now]) (use s1(1) in auto)
  have gone: "host_heap s1 a = None"
  proof (cases "host_heap s1 a")
    case (Some h0)
    from sound_report [OF sound _ Some, of "fst h" "snd h" cfg 0 0 True] s1(2,3) key show ?thesis by simp
  qed
  have rest: "(\<forall>r. (r, Some h) \<notin> set outs) \<and>
      (\<forall>t0 t1 b. lb_report cfg t0 t1 (fst h) (snd h) b s2 = Inl UseAfterFree) \<and>
      (\<forall>t hosts2. hosts2 \<noteq> [] \<longrightarrow> host_key h \<notin> host_key ` set hosts2 \<longrightarrow> lb_update cfg t hosts2 s2 = Inl UseAfterFree)"
    if run: "lb_run cfg es s1 = Inr (outs, s2)" for es outs s2
  proof -
    note end_state = gone_run [OF sound s1(2) gone run]
    then have "lb_report cfg t0 t1 (fst h) (snd h) b s2 = Inl UseAfterFree" for t0 t1 b
      by (intro report_dangling [of s2 "fst h" "snd h" a]) (simp_all add: key)
    with end_state update_dangling [of s2 _ "host_key h" a] show ?thesis by blast
  qed
  show ?thesis using s1(1) rest by blast
qed

text \<open>The first host of the examples leaves and comes back: it is in every later answer, and is not chosen.\<close>

lemma returning_host_lost_witness:
  "\<exists>s1 outs s2. lb_update demo_cfg 200 [(2, 80)] demo_lb = Inr s1 \<and>
     lb_run demo_cfg [Routes 300 [(1, 80), (2, 80)], Choose, Choose] s1 = Inr (outs, s2) \<and>
     length outs = 2 \<and> (RET_SUCC, Some (1, 80)) \<notin> set outs \<and> lb_report demo_cfg 301 301 1 80 True s2 = Inl UseAfterFree"
proof -
  have k: "map_of (host_map demo_lb) (host_key (1, 80)) = Some 0" "host_key (1, 80) \<notin> host_key ` set [(2, 80)]"
    by (simp_all add: demo_lb_eq host_key_def)
  obtain s1 where s1: "lb_update demo_cfg 200 [(2, 80)] demo_lb = Inr s1"
    and lost: "\<And>es outs s2. lb_run demo_cfg es s1 = Inr (outs, s2) \<Longrightarrow> (\<forall>r. (r, Some (1, 80)) \<notin> set outs) \<and>
       (\<forall>t0 t1 b. lb_report demo_cfg t0 t1 1 80 b s2 = Inl UseAfterFree)"
    using returning_host_lost [OF demo_lb_inv k(1) _ k(2), of demo_cfg 200] by auto
  have e: "s1 = demo_lb\<lparr>idle_list := [1], host_heap := [1 \<mapsto> host_info_new 2 80 180 100], last_update_time := 200, lb_status := NEW\<rparr>"
    using s1
    by (auto simp: demo_lb_def load_balance_new_def lb_update_def add_host_def host_key_def Let_def need_delete_def delete_host_def
        host_at_def host_info_new_def demo_cfg_def)
  have "\<exists>outs s2. lb_run demo_cfg [Routes 300 [(1, 80), (2, 80)], Choose, Choose] s1 = Inr (outs, s2) \<and> length outs = 2"
    unfolding e
    by (simp add: demo_lb_eq lb_update_def add_host_def host_key_def Let_def need_delete_def
        host_at_def choice_one_host_def from_idle_def get_host_from_list_def)
  with s1 lost show ?thesis by blast
qed

end
