(* ===== verification/Server_Inv.thy ===== *)
theory Server_Inv
  imports Conn_Outputs "HOL-Library.Multiset"
begin

text \<open>
  The invariant of a running TCP server, over every interleaving of accepting, queueing, reading, writing,
  closing and the application's work: the table of connections, the buffer pool, the event loops and the
  queues of the thread pool always fit together. Steps that stop the process (\<open>Inl\<close>) have no successor.
\<close>

section \<open>The invariant\<close>

text \<open>
  \<open>watched c e n\<close>: the loop of connection \<open>c\<close> has the read callback for its descriptor, and watches for
  writing exactly if output \<open>e\<close> is waiting.
\<close>

definition watched :: "addr \<Rightarrow> u8 list \<Rightarrow> 'u net \<Rightarrow> bool" where
  "watched c e n \<longleftrightarrow> (\<exists>ev. io_evs (loops n (conn_loop (tcps n c))) (connfd (tcps n c)) = Some ev \<and>
     ev_mask ev = (if e = [] then EPOLLIN else EPOLLIN OR EPOLLOUT) \<and>
     read_cb ev = Some conn_rd_callback \<and> rcb_args ev = Some c \<and>
     (e \<noteq> [] \<longrightarrow> write_cb ev \<noteq> None) \<and>
     (write_cb ev \<noteq> None \<longrightarrow> write_cb ev = Some conn_wt_callback \<and> wcb_args ev = Some c))"

text \<open>One connection; while \<open>do_read\<close> is in its loop (\<open>c \<in> X\<close>) the input buffer need not start at the front.\<close>

definition conn_wf :: "addr set \<Rightarrow> int \<Rightarrow> addr \<Rightarrow> 'u net \<Rightarrow> bool" where
  "conn_wf X fd c n \<longleftrightarrow>
     connfd (tcps n c) = fd \<and> c < fresh_conn n \<and> (c \<notin> X \<longrightarrow> rb_ready (net_pool n) (ibuf_of c n)) \<and>
     (ibuf_of c n = obuf_of c n \<longrightarrow> ibuf_of c n = NULL) \<and>
     (\<exists>d e. rb_holds (net_pool n) (ibuf_of c n) d \<and> rb_holds (net_pool n) (obuf_of c n) e \<and> watched c e n)"

definition live :: "'u net \<Rightarrow> addr set" where
  "live n = {c. \<exists>fd. conn_of fd n = Some c}"

definition conn_fds :: "task_msg list \<Rightarrow> int list" where
  "conn_fds ts = concat (map (\<lambda>t. case t of NEW_CONN fd \<Rightarrow> [fd] | NEW_TASK f a \<Rightarrow> []) ts)"

lemma conn_fds_simps [simp]:
  "conn_fds [] = []" "conn_fds (NEW_CONN fd # ts) = fd # conn_fds ts" "conn_fds (NEW_TASK f a # ts) = conn_fds ts"
  "conn_fds (xs @ ys) = conn_fds xs @ conn_fds ys"
  by (simp_all add: conn_fds_def)

text \<open>The accepted descriptors waiting in the queues; the application may put tasks there, but no connections.\<close>

definition pending :: "'u net \<Rightarrow> int list" where
  "pending n = concat (map (\<lambda>q. conn_fds (q_items q)) (queues n))"

definition queues_kept :: "'u net \<Rightarrow> 'u net \<Rightarrow> bool" where
  "queues_kept n n' \<longleftrightarrow> length (queues n') = length (queues n) \<and> pending n' = pending n"

lemma queues_kept_refl: "queues n' = queues n \<Longrightarrow> queues_kept n n'"
  by (simp add: queues_kept_def pending_def)

lemma queues_kept_same [simp]: "queues_kept n n"
  by (simp add: queues_kept_def)

lemma queues_kept_trans: "queues_kept n m \<Longrightarrow> queues_kept m k \<Longrightarrow> queues_kept n k"
  by (simp add: queues_kept_def)

text \<open>
  \<open>E\<close> are the events of the server itself (the listening socket and the eventfds of the queues), with their
  descriptors \<open>own E\<close>; \<open>P\<close> are the descriptors accepted and not yet handed to their thread.
\<close>

type_synonym own_events = "nat \<Rightarrow> int \<Rightarrow> (io_cb, addr) io_event option"

definition own :: "own_events \<Rightarrow> int set" where
  "own E = {fd. \<exists>l. E l fd \<noteq> None}"

text \<open>No buffer is lost: whatever is out of the pool is a buffer of a connection of the table.\<close>

definition no_leak :: "'u net \<Rightarrow> bool" where
  "no_leak n \<longleftrightarrow> (\<forall>x b. bufs (net_pool n) x = Some b \<longrightarrow> \<not> is_free (net_pool n) x \<longrightarrow>
     (\<exists>c \<in> live n. Ptr x = ibuf_of c n \<or> Ptr x = obuf_of c n))"

lemma no_leakD:
  assumes "no_leak n" and "bufs (net_pool n) x = Some b" and "\<not> is_free (net_pool n) x"
  obtains c where "c \<in> live n" "Ptr x = ibuf_of c n \<or> Ptr x = obuf_of c n"
  using assms unfolding no_leak_def by blast

definition net_inv :: "own_events \<Rightarrow> addr set \<Rightarrow> int list \<Rightarrow> 'u net \<Rightarrow> bool" where
  "net_inv E X P n \<longleftrightarrow>
     pool_inv (net_pool n) \<and> curr_conns n = int (online n) \<and>
     (\<forall>fd c. conn_of fd n = Some c \<longrightarrow> conn_wf X fd c n \<and> fd \<notin> own E) \<and> bufs_apart (live n) n \<and>
     (\<forall>l. loop_inv (loops n l)) \<and>
     (\<forall>l fd. fd \<in> own E \<longrightarrow> io_evs (loops n l) fd = E l fd) \<and>
     (\<forall>l fd. io_evs (loops n l) fd \<noteq> None \<longrightarrow>
        fd \<in> own E \<or> (\<exists>c. conn_of fd n = Some c \<and> conn_loop (tcps n c) = l)) \<and>
     distinct P \<and> (\<forall>fd \<in> set P. fd \<notin> own E \<and> conn_of fd n = None) \<and> no_leak n"

lemma net_invD:
  assumes "net_inv E X P n"
  shows "pool_inv (net_pool n)" "curr_conns n = int (online n)"
    "conn_of fd n = Some c \<Longrightarrow> conn_wf X fd c n" "conn_of fd n = Some c \<Longrightarrow> fd \<notin> own E" "bufs_apart (live n) n" "loop_inv (loops n l)"
    "io_evs (loops n l) fd \<noteq> None \<Longrightarrow> fd \<in> own E \<or> (\<exists>c. conn_of fd n = Some c \<and> conn_loop (tcps n c) = l)"
    "distinct P" "fd \<in> set P \<Longrightarrow> fd \<notin> own E \<and> conn_of fd n = None" "fd \<in> own E \<Longrightarrow> io_evs (loops n l) fd = E l fd"
    "no_leak n"
  using assms unfolding net_inv_def by blast+

lemma conn_wfD:
  assumes "conn_wf X fd c n"
  shows "connfd (tcps n c) = fd" "c < fresh_conn n" "c \<notin> X \<Longrightarrow> rb_ready (net_pool n) (ibuf_of c n)"
    "ibuf_of c n = obuf_of c n \<Longrightarrow> ibuf_of c n = NULL"
    "\<exists>d e. rb_holds (net_pool n) (ibuf_of c n) d \<and> rb_holds (net_pool n) (obuf_of c n) e \<and> watched c e n"
  using assms unfolding conn_wf_def by blast+

lemma live_iff: "c \<in> live n \<longleftrightarrow> (\<exists>fd. conn_of fd n = Some c)"
  by (simp add: live_def)

lemma conn_unique:
  "net_inv E X P n \<Longrightarrow> conn_of fd n = Some c \<Longrightarrow> conn_of fd' n = Some c \<Longrightarrow> fd' = fd"
  using net_invD(3) conn_wfD(1) by metis

section \<open>Work on one connection\<close>

text \<open>
  All buffers but those of \<open>c\<close> are as before, \<open>c\<close> has taken none of them, and what it has given up is back in
  the pool.
\<close>

definition pair_kept :: "addr \<Rightarrow> 'u net \<Rightarrow> 'u net \<Rightarrow> bool" where
  "pair_kept c n n' \<longleftrightarrow>
     (\<forall>x b. bufs (net_pool n) x = Some b \<longrightarrow> \<not> is_free (net_pool n) x \<longrightarrow> Ptr x \<notin> {ibuf_of c n, obuf_of c n} \<longrightarrow>
        bufs (net_pool n') x = Some b \<and> \<not> is_free (net_pool n') x \<and> Ptr x \<notin> {ibuf_of c n', obuf_of c n'}) \<and>
     (\<forall>x b'. bufs (net_pool n') x = Some b' \<longrightarrow> \<not> is_free (net_pool n') x \<longrightarrow> Ptr x \<notin> {ibuf_of c n', obuf_of c n'} \<longrightarrow>
        (\<exists>b. bufs (net_pool n) x = Some b) \<and> \<not> is_free (net_pool n) x \<and> Ptr x \<notin> {ibuf_of c n, obuf_of c n})"

lemma pair_keptD:
  assumes "pair_kept c n n'"
  shows "bufs (net_pool n') x = Some b' \<Longrightarrow> \<not> is_free (net_pool n') x \<Longrightarrow> Ptr x \<notin> {ibuf_of c n', obuf_of c n'} \<Longrightarrow>
    (\<exists>b. bufs (net_pool n) x = Some b) \<and> \<not> is_free (net_pool n) x \<and> Ptr x \<notin> {ibuf_of c n, obuf_of c n}"
  using assms unfolding pair_kept_def by blast

lemma pair_keptI:
  assumes "\<And>x b. bufs (net_pool n) x = Some b \<Longrightarrow> \<not> is_free (net_pool n) x \<Longrightarrow> Ptr x \<notin> {ibuf_of c n, obuf_of c n} \<Longrightarrow>
      bufs (net_pool n') x = Some b \<and> \<not> is_free (net_pool n') x \<and> Ptr x \<notin> {ibuf_of c n', obuf_of c n'}"
    and "\<And>x b. bufs (net_pool n') x = Some b \<Longrightarrow> \<not> is_free (net_pool n') x \<Longrightarrow> Ptr x \<notin> {ibuf_of c n', obuf_of c n'} \<Longrightarrow>
      (\<exists>b. bufs (net_pool n) x = Some b) \<and> \<not> is_free (net_pool n) x \<and> Ptr x \<notin> {ibuf_of c n, obuf_of c n}"
  shows "pair_kept c n n'"
  using assms unfolding pair_kept_def by blast

text \<open>Then no buffer is lost if \<open>c\<close> stays in the table, or has none left.\<close>

lemma pair_kept_no_leak:
  assumes "pair_kept c n n'" and "no_leak n" and others: "\<And>c'. c' \<noteq> c \<Longrightarrow> tcps n' c' = tcps n c'"
    and l: "live n - {c} \<subseteq> live n'" and c: "c \<in> live n' \<or> ibuf_of c n' = NULL \<and> obuf_of c n' = NULL"
  shows "no_leak n'"
  unfolding no_leak_def
proof (intro allI impI)
  fix x b assume x: "bufs (net_pool n') x = Some b" "\<not> is_free (net_pool n') x"
  show "\<exists>c \<in> live n'. Ptr x = ibuf_of c n' \<or> Ptr x = obuf_of c n'"
  proof (cases "Ptr x \<in> {ibuf_of c n', obuf_of c n'}")
    case True
    then show ?thesis using c by auto
  next
    case False
    then obtain b0 where "bufs (net_pool n) x = Some b0" "\<not> is_free (net_pool n) x" "Ptr x \<notin> {ibuf_of c n, obuf_of c n}"
      using pair_keptD [OF assms(1) x] by blast
    from no_leakD [OF assms(2) this(1,2)] this(3) obtain c' where "c' \<in> live n" "c' \<noteq> c" "Ptr x = ibuf_of c' n \<or> Ptr x = obuf_of c' n"
      by (metis insertI1 insertI2)
    then show ?thesis using l others [of c'] by (intro bexI [of _ c']) (auto simp: ibuf_of_def obuf_of_def)
  qed
qed

lemma pair_kept_ibuf:
  assumes "others_kept (net_pool n) (ibuf_of c n) (net_pool n') (ibuf_of c n')" and "obuf_of c n' = obuf_of c n"
  shows "pair_kept c n n'"
proof (rule pair_keptI)
  fix x b assume "bufs (net_pool n) x = Some b" "\<not> is_free (net_pool n) x" "Ptr x \<notin> {ibuf_of c n, obuf_of c n}"
  then show "bufs (net_pool n') x = Some b \<and> \<not> is_free (net_pool n') x \<and> Ptr x \<notin> {ibuf_of c n', obuf_of c n'}"
    using others_keptD(1) [OF assms(1), of x b] assms(2) by simp
next
  fix x b assume "bufs (net_pool n') x = Some b" "\<not> is_free (net_pool n') x" "Ptr x \<notin> {ibuf_of c n', obuf_of c n'}"
  then show "(\<exists>b. bufs (net_pool n) x = Some b) \<and> \<not> is_free (net_pool n) x \<and> Ptr x \<notin> {ibuf_of c n, obuf_of c n}"
    using others_keptD(2) [OF assms(1), of x b] assms(2) by simp
qed

lemma pair_kept_obuf:
  assumes "others_kept (net_pool n) (obuf_of c n) (net_pool n') (obuf_of c n')" and "ibuf_of c n' = ibuf_of c n"
  shows "pair_kept c n n'"
proof (rule pair_keptI)
  fix x b assume "bufs (net_pool n) x = Some b" "\<not> is_free (net_pool n) x" "Ptr x \<notin> {ibuf_of c n, obuf_of c n}"
  then show "bufs (net_pool n') x = Some b \<and> \<not> is_free (net_pool n') x \<and> Ptr x \<notin> {ibuf_of c n', obuf_of c n'}"
    using others_keptD(1) [OF assms(1), of x b] assms(2) by simp
next
  fix x b assume "bufs (net_pool n') x = Some b" "\<not> is_free (net_pool n') x" "Ptr x \<notin> {ibuf_of c n', obuf_of c n'}"
  then show "(\<exists>b. bufs (net_pool n) x = Some b) \<and> \<not> is_free (net_pool n) x \<and> Ptr x \<notin> {ibuf_of c n, obuf_of c n}"
    using others_keptD(2) [OF assms(1), of x b] assms(2) by simp
qed

lemma pair_kept_holds:
  assumes "pair_kept c n n'" and "rb_holds (net_pool n) p d" and "p \<in> {ibuf_of c n, obuf_of c n} \<longrightarrow> p = NULL"
  shows "rb_holds (net_pool n') p d \<and> (rb_ready (net_pool n) p \<longrightarrow> rb_ready (net_pool n') p) \<and>
    (p \<in> {ibuf_of c n', obuf_of c n'} \<longrightarrow> p = NULL)"
  using assms by (cases p) (auto simp: pair_kept_def rb_holds_def rb_ready_def)

text \<open>Everything but the buffers, the events and the application's state.\<close>

definition same_table :: "'u net \<Rightarrow> 'u net \<Rightarrow> bool" where
  "same_table n n' \<longleftrightarrow> conns n' = conns n \<and> curr_conns n' = curr_conns n \<and> fresh_conn n' = fresh_conn n \<and>
     queues_kept n n' \<and> (\<forall>c. connfd (tcps n' c) = connfd (tcps n c) \<and> conn_loop (tcps n' c) = conn_loop (tcps n c))"

lemma same_tableD:
  assumes "same_table n n'"
  shows "conn_of fd n' = conn_of fd n" "live n' = live n" "online n' = online n" "curr_conns n' = curr_conns n"
    "fresh_conn n' = fresh_conn n" "connfd (tcps n' c) = connfd (tcps n c)" "conn_loop (tcps n' c) = conn_loop (tcps n c)"
    "queues_kept n n'"
  using assms by (auto simp: same_table_def conn_of_def live_def online_def)

lemma same_table_refl [simp]: "same_table n n"
  by (simp add: same_table_def queues_kept_refl)

lemma same_table_trans: "same_table n m \<Longrightarrow> same_table m k \<Longrightarrow> same_table n k"
  using queues_kept_trans [of n m k] by (simp add: same_table_def)

lemma same_table_simps [simp]:
  "same_table n (put_ibuf c p s n)" "same_table n (put_obuf c p s n)" "same_table n (upd_loop l f n)" "same_table n (n\<lparr>app := a\<rparr>)"
  by (auto simp: same_table_def put_ibuf_def put_obuf_def upd_conn_def intro!: queues_kept_refl)

lemma put_table [simp]:
  "queues (put_ibuf c p s n) = queues n" "queues (put_obuf c p s n) = queues n"
  "fresh_conn (put_ibuf c p s n) = fresh_conn n" "fresh_conn (put_obuf c p s n) = fresh_conn n"
  "conn_of fd (put_ibuf c p s n) = conn_of fd n" "conn_of fd (put_obuf c p s n) = conn_of fd n"
  by (simp_all add: put_ibuf_def put_obuf_def upd_conn_def conn_of_def)

text \<open>The event loops agree except for one descriptor in one loop.\<close>

definition loops_but :: "nat \<Rightarrow> int \<Rightarrow> 'u net \<Rightarrow> 'u net \<Rightarrow> bool" where
  "loops_but l0 fd n n' \<longleftrightarrow> (\<forall>l. loop_inv (loops n' l)) \<and>
     (\<forall>l f. (l, f) \<noteq> (l0, fd) \<longrightarrow> io_evs (loops n' l) f = io_evs (loops n l) f)"

text \<open>What work on \<open>c\<close> leaves of the other connections.\<close>

lemma other_wf:
  assumes inv: "net_inv E X P n" and c: "conn_of fd n = Some c" and f: "conn_of f n = Some c'" "c' \<noteq> c"
    and t: "tcps n' c' = tcps n c'" "fresh_conn n \<le> fresh_conn n'" and pk: "pair_kept c n n'" and X: "X - {c} \<subseteq> X'"
    and ev: "\<And>l. io_evs (loops n' l) f = io_evs (loops n l) f"
  shows "conn_wf X' f c' n'" and "p \<in> {ibuf_of c' n, obuf_of c' n} \<Longrightarrow> p \<in> {ibuf_of c n', obuf_of c n'} \<Longrightarrow> p = NULL"
proof -
  note w = conn_wfD [OF net_invD(3) [OF inv f(1)]]
  obtain d e where de: "rb_holds (net_pool n) (ibuf_of c' n) d" "rb_holds (net_pool n) (obuf_of c' n) e" "watched c' e n"
    using w(5) by blast
  have live: "c \<in> live n" "c' \<in> live n" using c f by (auto simp: live_iff)
  have apart: "p \<in> {ibuf_of c n, obuf_of c n} \<longrightarrow> p = NULL" if "p \<in> {ibuf_of c' n, obuf_of c' n}" for p
    using net_invD(5) [OF inv] live f(2) that unfolding bufs_apart_def by blast
  have kept: "rb_holds (net_pool n') p b \<and> (rb_ready (net_pool n) p \<longrightarrow> rb_ready (net_pool n') p) \<and>
      (p \<in> {ibuf_of c n', obuf_of c n'} \<longrightarrow> p = NULL)"
    if "p \<in> {ibuf_of c' n, obuf_of c' n}" "rb_holds (net_pool n) p b" for p b
    using pair_kept_holds [OF pk that(2) apart [OF that(1)]] .
  have "watched c' e n'" using de(3) ev unfolding watched_def t w(1) by simp
  moreover have "ibuf_of c' n' = ibuf_of c' n" "obuf_of c' n' = obuf_of c' n" using t(1) by (simp_all add: ibuf_of_def obuf_of_def)
  ultimately show "conn_wf X' f c' n'"
    using kept [OF _ de(1)] kept [OF _ de(2)] w(1-4) X f(2) t unfolding conn_wf_def by auto
  show "p \<in> {ibuf_of c' n, obuf_of c' n} \<Longrightarrow> p \<in> {ibuf_of c n', obuf_of c n'} \<Longrightarrow> p = NULL"
    using kept de(1,2) by blast
qed

lemma net_inv_focus:
  assumes inv: "net_inv E X P n" and c: "conn_of fd n = Some c"
    and tab: "same_table n n'" and lp: "loops_but (conn_loop (tcps n c)) fd n n'"
    and others: "\<And>c'. c' \<noteq> c \<Longrightarrow> tcps n' c' = tcps n c'"
    and pool: "pool_inv (net_pool n')" "pair_kept c n n'"
    and mine: "rb_holds (net_pool n') (ibuf_of c n') d" "rb_holds (net_pool n') (obuf_of c n') e" "watched c e n'"
      "c \<notin> X' \<longrightarrow> rb_ready (net_pool n') (ibuf_of c n')" "ibuf_of c n' = obuf_of c n' \<longrightarrow> ibuf_of c n' = NULL"
    and X: "X - {c} \<subseteq> X'"
  shows "net_inv E X' P n'"
proof -
  note t = same_tableD [OF tab]
  note wc = conn_wfD [OF net_invD(3) [OF inv c]]
  have evs: "io_evs (loops n' l) f = io_evs (loops n l) f" if "f \<noteq> fd" for l f
    using lp that unfolding loops_but_def by blast
  have ne: "f \<noteq> fd" if "conn_of f n = Some c'" "c' \<noteq> c" for f c' using that c by auto
  have fr: "fresh_conn n \<le> fresh_conn n'" by (simp add: t)
  note ow = other_wf [OF inv c _ _ others fr pool(2) X evs]
  have wf: "conn_wf X' f c' n'" if f: "conn_of f n = Some c'" for f c'
  proof (cases "c' = c")
    case True
    then have "f = fd" using conn_unique [OF inv c] f by simp
    with True wc(1,2) mine t show ?thesis by (auto simp: conn_wf_def)
  next
    case False
    then show ?thesis using ow(1) [OF f False False ne [OF f False]] by simp
  qed
  have "bufs_apart (live n) n'"
    unfolding bufs_apart_def
  proof (intro ballI impI)
    fix c1 c2 p q
    assume a: "c1 \<in> live n" "c2 \<in> live n" "c1 \<noteq> c2" "p \<in> {ibuf_of c1 n', obuf_of c1 n'}" "q \<in> {ibuf_of c2 n', obuf_of c2 n'}" "p = q"
    have same: "ibuf_of c' n' = ibuf_of c' n" "obuf_of c' n' = obuf_of c' n" if "c' \<noteq> c" for c'
      using others [OF that] by (simp_all add: ibuf_of_def obuf_of_def)
    have one: "p' = NULL" if "c' \<in> live n" "c' \<noteq> c" "p' \<in> {ibuf_of c' n', obuf_of c' n'}" "p' \<in> {ibuf_of c n', obuf_of c n'}" for c' p'
    proof -
      from \<open>c' \<in> live n\<close> obtain f where f: "conn_of f n = Some c'" unfolding live_iff by blast
      show ?thesis using ow(2) [OF f that(2) that(2) ne [OF f that(2)], of p'] that(3,4) same [OF that(2)] by auto
    qed
    show "p = NULL"
    proof (cases "c1 = c \<or> c2 = c")
      case True
      with one [of c1 p] one [of c2 p] a show ?thesis by auto
    next
      case False
      then show ?thesis using a same net_invD(5) [OF inv] unfolding bufs_apart_def by auto
    qed
  qed
  moreover have "f \<in> own E \<or> (\<exists>c'. conn_of f n = Some c' \<and> conn_loop (tcps n c') = l)" if "io_evs (loops n' l) f \<noteq> None" for l f
  proof (cases "(l, f) = (conn_loop (tcps n c), fd)")
    case False
    then have "io_evs (loops n' l) f = io_evs (loops n l) f" using lp unfolding loops_but_def by blast
    then show ?thesis using that net_invD(7) [OF inv, of l f] by simp
  qed (use c in auto)
  moreover have "io_evs (loops n' l) f = E l f" if "f \<in> own E" for l f
    using evs [of f l] net_invD(4) [OF inv c] net_invD(10) [OF inv that] that by metis
  moreover have "no_leak n'"
    by (rule pair_kept_no_leak [OF pool(2) net_invD(11) [OF inv] others]) (use c in \<open>auto simp: t live_iff\<close>)
  ultimately show ?thesis
    using net_invD(2,4,8,9) [OF inv] wf pool(1) lp unfolding net_inv_def t by (auto simp: loops_but_def)
qed

text \<open>The part of the state the invariant reads.\<close>

lemma net_inv_cong:
  assumes "net_inv E X P n" and "net_pool n' = net_pool n" and "conns n' = conns n" "curr_conns n' = curr_conns n"
    "fresh_conn n' = fresh_conn n" and "\<And>c. tcps n' c = tcps n c"
    and "\<And>l. io_evs (loops n' l) = io_evs (loops n l)" "\<And>l. loop_inv (loops n' l)"
  shows "net_inv E X P n'"
proof -
  have t: "conn_of fd n' = conn_of fd n" "live n' = live n" "online n' = online n" for fd
    using assms(3) by (auto simp: conn_of_def live_def online_def)
  have "conn_wf X fd c n' = conn_wf X fd c n" for fd c
    using assms(2,5-7) by (simp add: conn_wf_def watched_def ibuf_of_def obuf_of_def)
  moreover have "bufs_apart C n' = bufs_apart C n" for C using assms(6) by (simp add: bufs_apart_def ibuf_of_def obuf_of_def)
  moreover have "no_leak n' = no_leak n" using assms(2,6) by (simp add: no_leak_def t ibuf_of_def obuf_of_def)
  ultimately show ?thesis using assms(1,2,4,6-8) unfolding net_inv_def t by simp
qed

lemma net_inv_app: "net_inv E X P n \<Longrightarrow> net_inv E X P (n\<lparr>app := a\<rparr>)"
  using net_inv_cong [of E X P n "n\<lparr>app := a\<rparr>"] net_invD(6) [of E X P n] by simp

text \<open>Replacing one of the two buffers; for the output buffer, the watched directions have to follow.\<close>

lemma put_ibuf_inv:
  assumes inv: "net_inv E X P n" and c: "conn_of fd n = Some c"
    and kept: "others_kept (net_pool n) (ibuf_of c n) s q" "pool_inv s" "rb_holds s q d" and rdy: "c \<in> X' \<or> rb_ready s q"
    and X: "X - {c} \<subseteq> X'"
  shows "net_inv E X' P (put_ibuf c q s n)"
proof -
  obtain d0 e where de: "rb_holds (net_pool n) (ibuf_of c n) d0" "rb_holds (net_pool n) (obuf_of c n) e" "watched c e n"
    and ne: "ibuf_of c n = obuf_of c n \<Longrightarrow> ibuf_of c n = NULL"
    using conn_wfD(4,5) [OF net_invD(3) [OF inv c]] by blast
  have ob: "obuf_of c n \<noteq> ibuf_of c n \<or> obuf_of c n = NULL" using ne by metis
  show ?thesis
  proof (rule net_inv_focus [OF inv c])
    show "watched c e (put_ibuf c q s n)" using de(3) by (simp add: watched_def)
    show "loops_but (conn_loop (tcps n c)) fd n (put_ibuf c q s n)" using net_invD(6) [OF inv] by (simp add: loops_but_def)
    show "pair_kept c n (put_ibuf c q s n)" using kept(1) by (intro pair_kept_ibuf) simp_all
    show "rb_holds (net_pool (put_ibuf c q s n)) (obuf_of c (put_ibuf c q s n)) e"
      using rb_holds_other [OF kept(1) de(2) ob] by simp
    show "ibuf_of c (put_ibuf c q s n) = obuf_of c (put_ibuf c q s n) \<longrightarrow> ibuf_of c (put_ibuf c q s n) = NULL"
      using kept_apart [OF kept(1) de(2) ob] by simp
  qed (use kept rdy X in auto)
qed

lemma put_obuf_inv:
  assumes inv: "net_inv E X P n" and c: "conn_of fd n = Some c"
    and kept: "others_kept (net_pool n) (obuf_of c n) s q" "pool_inv s" "rb_holds s q e"
    and lf: "loop_inv (lf (loops n (conn_loop (tcps n c))))" "\<And>f. f \<noteq> fd \<Longrightarrow> io_evs (lf (loops n (conn_loop (tcps n c)))) f = io_evs (loops n (conn_loop (tcps n c))) f"
    and w: "watched c e (upd_loop (conn_loop (tcps n c)) lf n)"
  shows "net_inv E X P (upd_loop (conn_loop (tcps n c)) lf (put_obuf c q s n))"
proof -
  obtain d where d: "rb_holds (net_pool n) (ibuf_of c n) d"
    and rdy: "c \<notin> X \<Longrightarrow> rb_ready (net_pool n) (ibuf_of c n)"
    and ne: "ibuf_of c n = obuf_of c n \<Longrightarrow> ibuf_of c n = NULL"
    using conn_wfD(3-5) [OF net_invD(3) [OF inv c]] by blast
  have ib: "ibuf_of c n \<noteq> obuf_of c n \<or> ibuf_of c n = NULL" using ne by blast
  let ?n = "upd_loop (conn_loop (tcps n c)) lf (put_obuf c q s n)"
  have same [simp]: "ibuf_of c ?n = ibuf_of c n" "obuf_of c ?n = q" by (simp_all add: ibuf_of_def obuf_of_def)
  show ?thesis
  proof (rule net_inv_focus [OF inv c])
    show "same_table n ?n" by (rule same_table_trans [of _ "put_obuf c q s n"]) simp_all
    show "watched c e ?n" using w by (simp add: watched_def)
    show "loops_but (conn_loop (tcps n c)) fd n ?n" using net_invD(6) [OF inv] lf by (simp add: loops_but_def)
    show "pair_kept c n ?n" using kept(1) by (intro pair_kept_obuf) simp_all
    show "rb_holds (net_pool ?n) (ibuf_of c ?n) d" using rb_holds_other [OF kept(1) d ib] by simp
    show "c \<notin> X \<longrightarrow> rb_ready (net_pool ?n) (ibuf_of c ?n)" using rb_ready_other [OF kept(1) d _ ib] rdy by simp
    show "ibuf_of c ?n = obuf_of c ?n \<longrightarrow> ibuf_of c ?n = NULL" using kept_apart [OF kept(1) d ib] by auto
  qed (use kept in auto)
qed

lemma upd_loop_id: "upd_loop l (\<lambda>x. x) n = n"
  by (simp add: upd_loop_def)

lemma put_obuf_inv_same:
  assumes inv: "net_inv E X P n" and c: "conn_of fd n = Some c"
    and "others_kept (net_pool n) (obuf_of c n) s q" "pool_inv s" "rb_holds s q e"
    and e0: "rb_holds (net_pool n) (obuf_of c n) e0" "e = [] \<longleftrightarrow> e0 = []"
  shows "net_inv E X P (put_obuf c q s n)"
proof -
  obtain e1 where "rb_holds (net_pool n) (obuf_of c n) e1" "watched c e1 n"
    using conn_wfD(5) [OF net_invD(3) [OF inv c]] by blast
  then have "watched c e0 n" using rb_holds_unique [OF e0(1)] by blast
  then have "watched c e n" using e0(2) by (auto simp: watched_def)
  with put_obuf_inv [OF assms(1-5), of "\<lambda>x. x"] net_invD(6) [OF inv] show ?thesis by (simp add: upd_loop_id)
qed

section \<open>Sending\<close>

lemma watched_arm:
  assumes "watched c [] n" and "e \<noteq> []"
  shows "watched c e (upd_loop (conn_loop (tcps n c)) (add_io_event True (connfd (tcps n c)) conn_wt_callback EPOLLOUT (Some c)) n)"
  using assms by (auto simp: watched_def add_io_event_def Let_def split: option.splits)

lemma watched_disarm:
  assumes "watched c e n" and "e \<noteq> []"
  shows "watched c [] (upd_loop (conn_loop (tcps n c)) (del_io_event_mask True (connfd (tcps n c)) EPOLLOUT) n)"
proof -
  have "(EPOLLIN OR EPOLLOUT) AND NOT EPOLLOUT = EPOLLIN" by (simp add: EPOLLIN_def EPOLLOUT_def)
  with assms show ?thesis by (auto simp: watched_def del_io_event_mask_def Let_def split: option.splits)
qed

text \<open>The operations assert that the window of the buffer starts at the front.\<close>

lemma reserve_ready: "reserve k p s = Inr r \<Longrightarrow> rb_ready s p"
  by (auto simp: reserve_def reserve_with_def rb_ready_def split: if_splits)

lemma send_data_ready: "send_data data p s = Inr r \<Longrightarrow> rb_ready s p"
  by (auto simp: send_data_def rbind_eq_Inr dest: reserve_ready)

lemma write2fd_ready: "write2fd ws p s = Inr r \<Longrightarrow> rb_ready s p"
  by (cases p) (auto simp: write2fd_def rb_ready_def deref_Ptr rbind_eq_Inr split: if_splits)

lemma send_message_inv:
  assumes inv: "net_inv E X P n" and c: "conn_of fd n = Some c" and run: "send_message c data i n = Inr (r, n')"
  shows "net_inv E X P n' \<and> same_table n n'"
proof -
  obtain e where e: "rb_holds (net_pool n) (obuf_of c n) e" and w: "watched c e n"
    using conn_wfD(5) [OF net_invD(3) [OF inv c]] by blast
  note pinv = net_invD(1) [OF inv]
  have fd: "connfd (tcps n c) = fd" using conn_wfD(1) [OF net_invD(3) [OF inv c]] .
  let ?h = "encode_head \<lparr>msgid = i, msglen = int (length data)\<rparr>"
  have len: "rb_length (obuf_of c n) (net_pool n) = Inr (int (length e))" using rb_length_ok [OF e pinv] .
  obtain r1 p1 s1 where sd1: "send_data ?h (obuf_of c n) (net_pool n) = Inr (r1, p1, s1)"
    using run len by (auto simp: send_message_def send_framed_def rbind_eq_Inr Let_def)
  have rdy: "rb_ready (net_pool n) (obuf_of c n)" using send_data_ready [OF sd1] .
  show ?thesis
  proof (cases "r1 = 0")
    case False
    then have "p1 = obuf_of c n" "s1 = net_pool n" using send_data_ok [OF pinv e rdy sd1] by (auto split: if_splits)
    then have "n' = n" using run len sd1 False by (auto simp: send_message_def send_framed_def Let_def)
    with inv show ?thesis by simp
  next
    case True
    have one: "pool_inv s1" "p1 \<noteq> NULL" "rb_holds s1 p1 (e @ ?h)" "rb_ready s1 p1" "others_kept (net_pool n) (obuf_of c n) s1 p1"
      using send_data_ok [OF pinv e rdy sd1] True by simp_all
    let ?arm = "add_io_event True fd conn_wt_callback EPOLLOUT (Some c)"
    obtain r2 p2 s2 where sd2: "send_data data p1 s1 = Inr (r2, p2, s2)"
      using run len sd1 True by (auto simp: send_message_def send_framed_def rbind_eq_Inr Let_def)
    show ?thesis
    proof (cases "r2 = 0")
      case r2: True
      have n': "n' = (if e = [] then upd_loop (conn_loop (tcps n c)) ?arm (put_obuf c p2 s2 n) else put_obuf c p2 s2 n)"
        using run len sd1 sd2 True r2 fd by (auto simp: send_message_def send_framed_def Let_def)
      have two: "pool_inv s2" "rb_holds s2 p2 ((e @ ?h) @ data)" "others_kept (net_pool n) (obuf_of c n) s2 p2"
        using send_data_ok [OF one(1,3,4) sd2] r2 others_kept_trans [OF one(5)] by simp_all
      have ne: "(e @ ?h) @ data \<noteq> []" by (metis append_is_Nil_conv length_encode_head list.size(3) zero_neq_numeral)
      show ?thesis
      proof (cases "e = []")
        case True
        have "net_inv E X P (upd_loop (conn_loop (tcps n c)) ?arm (put_obuf c p2 s2 n))"
          using watched_arm [OF w [unfolded True] ne] fd add_io_event_inv [OF net_invD(6) [OF inv]] io_evs_add_other
          by (intro put_obuf_inv [OF inv c two(3,1,2)]) (simp_all add: one_way_def)
        with True n' show ?thesis using same_table_trans [of n "put_obuf c p2 s2 n"] by simp
      next
        case False
        with put_obuf_inv_same [OF inv c two(3,1,2) e] n' show ?thesis by simp
      qed
    next
      case False
      then have sd2': "p2 = p1" "s2 = s1" using send_data_ok [OF one(1,3,4) sd2] by (auto split: if_splits)
      obtain q s where pop: "rb_pop 8 p1 s1 = Inr (q, s)" "n' = put_obuf c q s n"
        using run len sd1 sd2 True False unfolding sd2'
        by (auto simp: send_message_def send_framed_def Let_def rbind_eq_Inr w_pop_def MESSAGE_HEAD_LEN_def)
      have "8 \<le> int (length (e @ ?h))" by simp
      then have "pool_inv s" "rb_holds s q (drop 8 (e @ ?h))" "others_kept s1 p1 s q"
        using rb_pop_ok [OF one(1,3,2), of 8] pop(1) by auto
      moreover have "drop 8 (e @ ?h) = [] \<longleftrightarrow> e = []" by (cases e) auto
      ultimately have "net_inv E X P (put_obuf c q s n)"
        using put_obuf_inv_same [OF inv c others_kept_trans [OF one(5)] _ _ e] by blast
      then show ?thesis using pop(2) by simp
    qed
  qed
qed

section \<open>Closing\<close>

lemma net_inv_drop:
  assumes inv: "net_inv E X P n" and c: "conn_of fd n = Some c"
    and new: "conns n' = (conns n)[nat fd := None]" "curr_conns n' = curr_conns n - 1" "fresh_conn n' = fresh_conn n"
      "\<And>c'. c' \<noteq> c \<Longrightarrow> tcps n' c' = tcps n c'"
      "loops n' = (loops n)(conn_loop (tcps n c) := del_io_event fd (loops n (conn_loop (tcps n c))))"
    and pool: "pool_inv (net_pool n')" "pair_kept c n n'" and null: "ibuf_of c n' = NULL" "obuf_of c n' = NULL"
  shows "net_inv E (X - {c}) P n'"
proof -
  have fd: "0 \<le> fd" "nat fd < length (conns n)" "conns n ! nat fd = Some c" using c by (auto simp: conn_of_def split: if_splits)
  have co: "conn_of f n' = (if f = fd then None else conn_of f n)" for f
    using fd(1) by (auto simp: conn_of_def new(1) nth_list_update)
  have li: "c' \<in> live n' \<longleftrightarrow> c' \<in> live n \<and> c' \<noteq> c" for c'
    unfolding live_iff co using c conn_unique [OF inv c] by (metis option.distinct(1) option.inject)
  have ne: "f \<noteq> fd" if "conn_of f n = Some c'" "c' \<noteq> c" for f c' using that c by auto
  have evs: "io_evs (loops n' l) f = io_evs (loops n l) f" if "f \<noteq> fd" for l f
    using that by (simp add: new(5) io_evs_del_other)
  have fr: "fresh_conn n \<le> fresh_conn n'" by (simp add: new(3))
  note ow = other_wf [OF inv c _ _ new(4) fr pool(2) subset_refl evs]
  have wf: "conn_wf (X - {c}) f c' n'" "f \<notin> own E" if "conn_of f n' = Some c'" for f c'
  proof -
    have f: "f \<noteq> fd" "conn_of f n = Some c'" using that by (simp_all add: co split: if_splits)
    then have "c' \<noteq> c" using conn_unique [OF inv c] by auto
    then show "conn_wf (X - {c}) f c' n'" using ow(1) [OF f(2) _ _ f(1)] by blast
    show "f \<notin> own E" using net_invD(4) [OF inv f(2)] .
  qed
  have same: "ibuf_of c' n' = ibuf_of c' n" "obuf_of c' n' = obuf_of c' n" if "c' \<noteq> c" for c'
    using new(4) [OF that] by (simp_all add: ibuf_of_def obuf_of_def)
  have "bufs_apart (live n') n'"
    using net_invD(5) [OF inv] same li unfolding bufs_apart_def by auto
  moreover have "curr_conns n' = int (online n')"
    using filter_update_None [of "nat fd" "conns n"] fd net_invD(2) [OF inv] by (simp add: online_def new(1,2))
  moreover have "loop_inv (loops n' l)" for l using net_invD(6) [OF inv] by (simp add: new(5) del_io_event_inv)
  moreover have "f \<in> own E \<or> (\<exists>c'. conn_of f n' = Some c' \<and> conn_loop (tcps n' c') = l)" if "io_evs (loops n' l) f \<noteq> None" for l f
  proof (cases "f = fd")
    case True
    show ?thesis
    proof (cases "l = conn_loop (tcps n c)")
      case False
      then have "io_evs (loops n l) fd \<noteq> None" using that True by (simp add: new(5))
      from net_invD(7) [OF inv this] net_invD(4) [OF inv c] obtain c' where "conn_of fd n = Some c'" "conn_loop (tcps n c') = l"
        by blast
      with c False show ?thesis by simp
    qed (use that True in \<open>simp add: new(5)\<close>)
  next
    case False
    then have "io_evs (loops n l) f \<noteq> None" using that evs by simp
    from net_invD(7) [OF inv this] show ?thesis
    proof (elim disjE exE conjE)
      fix c' assume c': "conn_of f n = Some c'" "conn_loop (tcps n c') = l"
      have "c' \<noteq> c" using conn_unique [OF inv c] c'(1) False by auto
      with c' False show ?thesis by (simp add: co new(4))
    qed simp
  qed
  moreover have "io_evs (loops n' l) f = E l f" if "f \<in> own E" for l f
    using evs [of f l] net_invD(4) [OF inv c] net_invD(10) [OF inv that] that by metis
  moreover have "no_leak n'"
    by (rule pair_kept_no_leak [OF pool(2) net_invD(11) [OF inv] new(4)]) (use null li in auto)
  ultimately show ?thesis
    using net_invD(8,9) [OF inv] wf pool(1) unfolding net_inv_def by (auto simp: co)
qed

text \<open>
  What the application's hooks, callbacks and tasks may do: change its own state, send on connections of the
  table, and give tasks to the threads. The hook that runs while a connection is being made may also send on
  that connection (\<open>C\<close>), which is not in the table yet.
\<close>

inductive work_on :: "addr set \<Rightarrow> 'u net \<Rightarrow> 'u net \<Rightarrow> bool" for C n where
  work_none: "work_on C n n"
| work_app: "work_on C n m \<Longrightarrow> work_on C n (m\<lparr>app := a\<rparr>)"
| work_send: "work_on C n m \<Longrightarrow> c \<in> live m \<Longrightarrow> send_message c data i m = Inr (r, m') \<Longrightarrow> work_on C n m'"
| work_self: "work_on C n m \<Longrightarrow> c \<in> C \<Longrightarrow> send_message c data i m = Inr (r, m') \<Longrightarrow> work_on C n m'"
| work_task: "work_on C n m \<Longrightarrow> send_task f a m = Inr m' \<Longrightarrow> work_on C n m'"

abbreviation app_work :: "'u net \<Rightarrow> 'u net \<Rightarrow> bool" where
  "app_work \<equiv> work_on {}"

lemma work_trans: "work_on C m k \<Longrightarrow> work_on C n m \<Longrightarrow> work_on C n k"
  by (induction rule: work_on.induct) (auto intro: work_on.intros)

definition env_ok :: "'u srv_env \<Rightarrow> bool" where
  "env_ok env \<longleftrightarrow>
     (\<forall>c n n'. run_hook (conn_start_cb env) c n = Inr n' \<longrightarrow> work_on {c} n n') \<and>
     (\<forall>c n n'. c \<in> live n \<longrightarrow> run_hook (conn_close_cb env) c n = Inr n' \<longrightarrow> app_work n n') \<and>
     (\<forall>cb data len i c a n n'. c \<in> live n \<longrightarrow> run_msg_cb env cb data len i c a n = Inr n' \<longrightarrow> app_work n n')"

lemma env_okD:
  assumes "env_ok env"
  shows "run_hook (conn_start_cb env) c n = Inr n' \<Longrightarrow> work_on {c} n n'"
    and "c \<in> live n \<Longrightarrow> run_hook (conn_close_cb env) c n = Inr n' \<Longrightarrow> app_work n n'"
    and "c \<in> live n \<Longrightarrow> run_msg_cb env cb data len i c a n = Inr n' \<Longrightarrow> app_work n n'"
  using assms unfolding env_ok_def by blast+

text \<open>A task for every thread leaves the connections in the queues where they are.\<close>

lemma send_task_queues:
  assumes "send_task f a n = Inr n'"
  shows "\<exists>q. n' = n\<lparr>queues := q\<rparr> \<and> queues_kept n n'"
proof -
  have "fold (\<lambda>i m. rbind m (send_to (NEW_TASK f a) i)) is (Inr m) = Inr n' \<Longrightarrow> \<forall>i \<in> set is. i < length (queues m) \<Longrightarrow>
      \<exists>q. n' = m\<lparr>queues := q\<rparr> \<and> queues_kept m n'" for "is" m
  proof (induction "is" arbitrary: m)
    case Nil
    then show ?case by (intro exI [of _ "queues m"]) (simp add: queues_kept_refl)
  next
    case (Cons i "is")
    have stuck: "fold (\<lambda>i m. rbind m (send_to (NEW_TASK f a) i)) js (Inl x) = (Inl x :: 'a net res)" for js x by (induction js) simp_all
    obtain m1 where m1: "send_to (NEW_TASK f a) i m = Inr m1"
      using Cons.prems(1) stuck by (cases "send_to (NEW_TASK f a) i m") simp_all
    then obtain q where q: "send (NEW_TASK f a) (queues m ! i) = Inr q" "m1 = m\<lparr>queues := (queues m)[i := q]\<rparr>"
      by (auto simp: send_to_def rbind_eq_Inr)
    have it: "conn_fds (q_items q) = conn_fds (q_items (queues m ! i))" using q(1) by (auto simp: send_def split: if_splits)
    have "map (\<lambda>q. conn_fds (q_items q)) ((queues m)[i := q]) = map (\<lambda>q. conn_fds (q_items q)) (queues m)"
      using list_update_id [of "map (\<lambda>q. conn_fds (q_items q)) (queues m)" i] Cons.prems(2) by (simp add: map_update it)
    then have "queues_kept m m1" by (simp only: queues_kept_def pending_def q(2)) simp
    moreover obtain q' where "n' = m1\<lparr>queues := q'\<rparr>" "queues_kept m1 n'" using Cons.IH [of m1] Cons.prems m1 q(2) by auto
    ultimately show ?case using queues_kept_trans q(2) by (intro exI [of _ q']) auto
  qed
  from this [of "[0..<length (queues n)]" n] assms show ?thesis by (simp add: send_task_def)
qed

lemma net_inv_queues: "net_inv E X P n \<Longrightarrow> net_inv E X P (n\<lparr>queues := q\<rparr>)"
  using net_inv_cong [of E X P n "n\<lparr>queues := q\<rparr>"] net_invD(6) [of E X P n] by simp

lemma app_work_inv:
  assumes "app_work n n'" and "net_inv E X P n"
  shows "net_inv E X P n' \<and> same_table n n'"
  using assms(1)
proof induction
  case work_none
  then show ?case using assms(2) by simp
next
  case (work_app m a)
  then show ?case using net_inv_app same_table_trans [of n m] by simp
next
  case (work_send m c data i r m')
  then obtain fd where "conn_of fd m = Some c" by (auto simp: live_iff)
  then show ?case using work_send send_message_inv [of E X P m fd c data i r m'] same_table_trans by blast
next
  case (work_task m f a m')
  then obtain q where "m' = m\<lparr>queues := q\<rparr>" "queues_kept m m'" using send_task_queues by blast
  moreover from this have "same_table m m'" by (simp add: same_table_def)
  ultimately show ?case using work_task(3) net_inv_queues same_table_trans by blast
qed simp

lemma clean_conn_inv:
  assumes env: "env_ok env" and inv0: "net_inv E X P n0" and c0: "conn_of fd n0 = Some c" and run: "clean_conn env c n0 = Inr n'"
  shows "net_inv E (X - {c}) P n' \<and> ibuf_of c n' = NULL \<and> queues_kept n0 n'"
proof -
  obtain n where n1: "run_hook (conn_close_cb env) c n0 = Inr n" using run by (auto simp: clean_conn_def rbind_eq_Inr)
  have "c \<in> live n0" using c0 by (auto simp: live_iff)
  then have i: "net_inv E X P n \<and> same_table n0 n" using app_work_inv [OF env_okD(2) [OF env _ n1] inv0] by simp
  then have inv: "net_inv E X P n" and c: "conn_of fd n = Some c" using c0 same_tableD(1) by (blast, metis)
  have fd: "connfd (tcps n c) = fd" using conn_wfD(1) [OF net_invD(3) [OF inv c]] .
  obtain d e where h: "rb_holds (net_pool n) (ibuf_of c n) d" "rb_holds (net_pool n) (obuf_of c n) e"
    and ne: "ibuf_of c n = obuf_of c n \<Longrightarrow> ibuf_of c n = NULL"
    using conn_wfD(4,5) [OF net_invD(3) [OF inv c]] by blast
  let ?l = "conn_loop (tcps n c)"
  let ?n2 = "n\<lparr>conns := (conns n)[nat fd := None], curr_conns := curr_conns n - 1\<rparr>"
  let ?n3 = "upd_loop ?l (del_io_event fd) ?n2"
  have p: "net_pool ?n3 = net_pool n" "ibuf_of c ?n3 = ibuf_of c n" "obuf_of c ?n3 = obuf_of c n"
    by (simp_all add: ibuf_of_def obuf_of_def)
  obtain s4 where s4: "clean_buf (ibuf_of c) (put_ibuf c) ?n3 = Inr (put_ibuf c NULL s4 ?n3)" "pool_inv s4"
      "others_kept (net_pool n) (ibuf_of c n) s4 NULL"
    using clean_buf_ok [OF ib.conn_buffer_axioms, of ?n3 c d] net_invD(1) [OF inv] h(1) p by auto
  let ?n4 = "put_ibuf c NULL s4 ?n3"
  have "obuf_of c n \<noteq> ibuf_of c n \<or> obuf_of c n = NULL" using ne by metis
  then have "rb_holds s4 (obuf_of c n) e" using rb_holds_other [OF s4(3) h(2)] by blast
  then obtain s5 where s5: "clean_buf (obuf_of c) (put_obuf c) ?n4 = Inr (put_obuf c NULL s5 ?n4)" "pool_inv s5"
      "others_kept s4 (obuf_of c n) s5 NULL"
    using clean_buf_ok [OF ob.conn_buffer_axioms, of ?n4 c e] s4(2) p by auto
  have "decrease_conn fd n = Inr ?n2" using c by (auto simp: decrease_conn_def conn_of_def split: if_splits)
  then have n': "n' = close_fd fd (put_obuf c NULL s5 ?n4)"
    using run n1 s4(1) s5(1) fd by (simp add: clean_conn_def Let_def)
  have new: "net_pool n' = s5" "ibuf_of c n' = NULL" "obuf_of c n' = NULL"
    by (simp_all add: n' close_fd_def ibuf_of_def obuf_of_def)
  have pk: "pair_kept c n n'"
  proof (rule pair_keptI)
    fix x b assume x: "bufs (net_pool n) x = Some b" "\<not> is_free (net_pool n) x" "Ptr x \<notin> {ibuf_of c n, obuf_of c n}"
    then have "bufs s4 x = Some b \<and> \<not> is_free s4 x" using others_keptD(1) [OF s4(3) x(1,2)] by simp
    then show "bufs (net_pool n') x = Some b \<and> \<not> is_free (net_pool n') x \<and> Ptr x \<notin> {ibuf_of c n', obuf_of c n'}"
      using others_keptD(1) [OF s5(3), of x b] x(3) new by simp
  next
    fix x b assume x: "bufs (net_pool n') x = Some b" "\<not> is_free (net_pool n') x"
    then obtain b1 where b1: "bufs s4 x = Some b1" "\<not> is_free s4 x" "Ptr x \<noteq> obuf_of c n"
      using others_keptD(2) [OF s5(3), of x b] new by auto
    then show "(\<exists>b. bufs (net_pool n) x = Some b) \<and> \<not> is_free (net_pool n) x \<and> Ptr x \<notin> {ibuf_of c n, obuf_of c n}"
      using others_keptD(2) [OF s4(3) b1(1,2)] by simp
  qed
  have "net_inv E (X - {c}) P n'"
    by (rule net_inv_drop [OF inv c _ _ _ _ _ _ pk new(2,3)]) (use s5(2) in \<open>simp_all add: n' close_fd_def\<close>)
  moreover have "queues n' = queues n" by (simp add: n' close_fd_def put_ibuf_def put_obuf_def upd_conn_def)
  then have "queues_kept n0 n'" using i same_tableD(8) queues_kept_refl queues_kept_trans by metis
  ultimately show ?thesis by (simp add: new)
qed

section \<open>Writing\<close>

text \<open>What \<open>write\<close> reports over a run of \<open>do_write\<close>: never less than nothing, never more than was waiting.\<close>

definition wrote :: "wr_ret \<Rightarrow> int" where
  "wrote w = (case w of Wr k \<Rightarrow> k | _ \<Rightarrow> 0)"

definition wr_fits :: "wr_ret list \<Rightarrow> u8 list \<Rightarrow> bool" where
  "wr_fits ws e \<longleftrightarrow> (\<forall>w \<in> set ws. 0 \<le> wrote w) \<and> sum_list (map wrote ws) \<le> int (length e)"

lemma write_retry_fits:
  assumes "write_retry ws = Inr (w, ws')" and "wr_fits ws e"
  shows "0 \<le> wrote w" "wrote w \<le> int (length e)" "wr_fits ws' (drop (nat (wrote w)) e)"
proof -
  have *: "0 \<le> wrote w \<and> (\<forall>w \<in> set ws'. 0 \<le> wrote w) \<and> wrote w + sum_list (map wrote ws') \<le> sum_list (map wrote ws)"
    using assms(1) assms(2) [unfolded wr_fits_def, THEN conjunct1]
    by (induction ws rule: write_retry.induct) (auto simp: wrote_def [of WrEintr])
  moreover have "0 \<le> sum_list (map wrote ws')" using * by (intro sum_list_nonneg) auto
  ultimately show "0 \<le> wrote w" "wrote w \<le> int (length e)" "wr_fits ws' (drop (nat (wrote w)) e)"
    using assms(2) by (auto simp: wr_fits_def of_nat_diff)
qed

lemma write2fd_step:
  assumes "pool_inv s" "rb_holds s p e" "p \<noteq> NULL" "wr_fits ws e" and run: "write2fd ws p s = Inr (k, ws', s')"
  shows "pool_inv s' \<and> others_kept s p s' p \<and> rb_holds s' p (drop (nat k) e) \<and> wr_fits ws' (drop (nat k) e) \<and>
    k \<le> int (length e)"
proof -
  have rdy: "rb_ready s p" using write2fd_ready [OF run] .
  obtain w ws2 where w: "write_retry ws = Inr (w, ws2)"
    using run assms(3) by (auto simp: write2fd_def rbind_eq_Inr split: if_splits)
  note f = write_retry_fits [OF w assms(4)]
  have fits: "0 \<le> m \<and> m \<le> int (length e)" if "w = Wr m" for m using f(1,2) that by (simp add: wrote_def)
  obtain s2 where s2: "write2fd ws p s = Inr (case w of Wr n \<Rightarrow> n | WrEagain \<Rightarrow> 0 | _ \<Rightarrow> - 1, ws2, s2)" "pool_inv s2"
      "rb_holds s2 p (case w of Wr n \<Rightarrow> drop (nat n) e | _ \<Rightarrow> e)" "others_kept s p s2 p"
    using write2fd_ok [OF assms(1,2) rdy assms(3) w fits] by blast
  then show ?thesis using run f by (cases w) (auto simp: wrote_def)
qed

lemma do_write_inv:
  assumes "env_ok env" and "net_inv E {} P n" and "conn_of fd n = Some c"
    and "rb_holds (net_pool n) (obuf_of c n) e" and "wr_fits ws e" and "do_write env c ws n = Inr n'"
  shows "net_inv E {} P n' \<and> queues_kept n n'"
  using assms
proof (induction env c ws n arbitrary: e rule: do_write.induct)
  case (1 env c ws n)
  note inv = "1.prems"(2) and c = "1.prems"(3) and e = "1.prems"(4)
  note pinv = net_invD(1) [OF inv]
  have len: "rb_length (obuf_of c n) (net_pool n) = Inr (int (length e))" using rb_length_ok [OF e pinv] .
  have fd: "connfd (tcps n c) = fd" using conn_wfD(1) [OF net_invD(3) [OF inv c]] .
  show ?case
  proof (cases "e = []")
    case True
    then have "do_write env c ws n = Inr n" using len by (subst do_write.simps) simp
    with "1.prems"(6) inv show ?thesis by (simp add: queues_kept_refl)
  next
    case False
    then have nn: "obuf_of c n \<noteq> NULL" and ne: "int (length e) \<noteq> 0" using e by auto
    obtain k ws' s where w2: "write2fd ws (obuf_of c n) (net_pool n) = Inr (k, ws', s)"
      using "1.prems"(6) len ne by (subst (asm) do_write.simps) (auto split: sum.splits prod.splits)
    note st = write2fd_step [OF pinv e nn "1.prems"(5) w2]
    obtain e1 where "rb_holds (net_pool n) (obuf_of c n) e1" "watched c e1 n"
      using conn_wfD(5) [OF net_invD(3) [OF inv c]] by blast
    then have w: "watched c e n" using rb_holds_unique [OF e] by blast
    let ?n1 = "put_obuf c (obuf_of c n) s n"
    have part: "net_inv E {} P ?n1" if "drop (nat k) e \<noteq> []"
      using put_obuf_inv_same [OF inv c _ _ _ e] st that False by blast
    show ?thesis
    proof (cases "k = - 1 \<or> k = 0")
      case True
      then have i1: "net_inv E {} P ?n1" using part False by auto
      have "n' = ?n1 \<or> clean_conn env c ?n1 = Inr n'"
        using "1.prems"(6) len ne w2 True by (subst (asm) do_write.simps) (auto simp: Let_def)
      then show ?thesis
        using i1 clean_conn_inv [OF "1.prems"(1) i1, of fd c n'] c
        by (elim disjE) (auto simp: queues_kept_def pending_def)
    next
      case k: False
      have len1: "rb_length (obuf_of c ?n1) (net_pool ?n1) = Inr (int (length (drop (nat k) e)))"
        using rb_length_ok [of s "obuf_of c n" "drop (nat k) e"] st by simp
      let ?n2 = "if int (length (drop (nat k) e)) = 0
          then upd_loop (conn_loop (tcps ?n1 c)) (del_io_event_mask True (connfd (tcps ?n1 c)) EPOLLOUT) ?n1 else ?n1"
      have run: "do_write env c ws' ?n2 = Inr n'"
        using "1.prems"(6) len ne w2 k len1 by (subst (asm) do_write.simps) (simp add: Let_def)
      have i2: "net_inv E {} P ?n2"
      proof (cases "drop (nat k) e = []")
        case True
        then have "net_inv E {} P (upd_loop (conn_loop (tcps n c)) (del_io_event_mask True fd EPOLLOUT) ?n1)"
          using watched_disarm [OF w False] fd st del_io_event_mask_inv [OF net_invD(6) [OF inv]] io_evs_del_mask_other
          by (intro put_obuf_inv [OF inv c, of s "obuf_of c n" "[]"]) (simp_all add: one_way_def)
        with True fd show ?thesis by simp
      next
        case False
        then have "int (length (drop (nat k) e)) \<noteq> 0" by (metis length_0_conv of_nat_eq_0_iff)
        then show ?thesis using part [OF False] by (simp only: if_False)
      qed
      have "same_table n ?n1" "same_table ?n1 ?n2" by simp_all
      then have t: "same_table n ?n2" using same_table_trans by blast
      have o2: "obuf_of c ?n2 = obuf_of c n" "net_pool ?n2 = s" by (simp_all add: obuf_of_def)
      have h2: "rb_holds (net_pool ?n2) (obuf_of c ?n2) (drop (nat k) e)" unfolding o2 using st by blast
      have c2: "conn_of fd ?n2 = Some c" unfolding same_tableD(1) [OF t] by (rule c)
      have k2: "k \<noteq> - 1" "k \<noteq> 0" using k by simp_all
      have f2: "wr_fits ws' (drop (nat k) e)" using st by blast
      have "net_inv E {} P n' \<and> queues_kept ?n2 n'"
        by (rule "1.IH" [OF len ne w2 refl refl refl k2 len1 "1.prems"(1) i2 c2 h2 f2 run])
      then show ?thesis using queues_kept_trans [OF same_tableD(8) [OF t]] by blast
    qed
  qed
qed

section \<open>Reading\<close>

lemma pop_inv:
  assumes inv: "net_inv E {c} P n" and c: "conn_of fd n = Some c" and k: "0 \<le> k"
    and run: "w_pop (ibuf_of c) net_pool (put_ibuf c) k n = Inr n'"
  shows "net_inv E {c} P n' \<and> same_table n n'"
proof -
  note pinv = net_invD(1) [OF inv]
  obtain d where d: "rb_holds (net_pool n) (ibuf_of c n) d" using conn_wfD(5) [OF net_invD(3) [OF inv c]] by blast
  obtain p s where p: "rb_pop k (ibuf_of c n) (net_pool n) = Inr (p, s)" "n' = put_ibuf c p s n"
    using run by (auto simp: w_pop_def rbind_eq_Inr)
  have nn: "ibuf_of c n \<noteq> NULL" using p(1) by (auto simp: rb_pop_def)
  obtain b where b: "deref (net_pool n) (ibuf_of c n) = Inr b" "k \<le> buf_len b"
    using p(1) nn by (auto simp: rb_pop_def rbind_eq_Inr split: if_splits)
  then have "buf_len b = int (length d)" using rb_length_ok [OF d pinv] nn by (simp add: rb_length_def)
  then obtain q s' where "rb_pop k (ibuf_of c n) (net_pool n) = Inr (q, s')" "pool_inv s'" "rb_holds s' q (drop (nat k) d)"
      "others_kept (net_pool n) (ibuf_of c n) s' q"
    using rb_pop_ok [OF pinv d nn k] b(2) by auto
  with p show ?thesis using put_ibuf_inv [OF inv c, of s p _ "{c}"] by auto
qed

lemma msg_call_inv:
  assumes "env_ok env" and inv: "net_inv E X P n" and c: "conn_of fd n = Some c" and run: "conn_msg_call env c i len data n = Inr n'"
  shows "net_inv E X P n' \<and> same_table n n'"
proof (cases "router (srv_router env) i")
  case None
  then show ?thesis using run inv by (simp add: conn_msg_call_def router_call_def)
next
  case (Some cb)
  then obtain a where "run_msg_cb env cb data len i c a n = Inr n'" using run by (auto simp: conn_msg_call_def router_call_def)
  moreover have "c \<in> live n" using c by (auto simp: live_iff)
  ultimately have "app_work n n'" using env_okD(3) [OF assms(1)] by blast
  then show ?thesis using app_work_inv inv by blast
qed

lemma frame_loop_inv:
  assumes env: "env_ok env" and "net_inv E {c} P n" and "conn_of fd n = Some c"
    and "frame_loop fuel (ibuf_of c) net_pool (put_ibuf c) (conn_msg_call env c) (clean_conn env c) n = Inr n'"
  shows "(net_inv E {c} P n' \<and> conn_of fd n' = Some c \<or> net_inv E {} P n' \<and> ibuf_of c n' = NULL) \<and> queues_kept n n'"
  using assms(2-4)
proof (induction fuel arbitrary: n)
  case 0
  have "n' = n \<or> clean_conn env c n = Inr n'" using "0.prems"(3)
    by (subst (asm) frame_loop.simps) (auto simp: rbind_eq_Inr Let_def split: if_splits option.splits)
  then show ?case
  proof
    assume "n' = n"
    then show ?thesis using "0.prems"(1,2) by simp
  next
    assume "clean_conn env c n = Inr n'"
    from clean_conn_inv [OF env "0.prems"(1,2) this] show ?thesis by simp
  qed
next
  case (Suc fuel)
  note inv = Suc.prems(1) and c = Suc.prems(2)
  obtain len where len: "rb_length (ibuf_of c n) (net_pool n) = Inr len"
    using Suc.prems(3) by (subst (asm) frame_loop.simps) (auto simp: rbind_eq_Inr)
  show ?case
  proof (cases "MESSAGE_HEAD_LEN \<le> len")
    case False
    then have "n' = n" using Suc.prems(3) len by (subst (asm) frame_loop.simps) simp
    with inv c show ?thesis by (simp add: queues_kept_refl)
  next
    case True
    obtain bytes where bytes: "rb_data (ibuf_of c n) (net_pool n) = Inr (Some bytes)"
      using Suc.prems(3) len True by (subst (asm) frame_loop.simps) (auto simp: rbind_eq_Inr split: option.splits)
    let ?h = "decode_head bytes"
    show ?thesis
    proof (cases "bad_head ?h")
      case bad: True
      then have "clean_conn env c n = Inr n'" using Suc.prems(3) len True bytes by (subst (asm) frame_loop.simps) (simp add: Let_def)
      then show ?thesis using clean_conn_inv [OF env inv c] by simp
    next
      case good: False
      show ?thesis
      proof (cases "len < MESSAGE_HEAD_LEN + msglen ?h")
        case short: True
        then have "n' = n" using Suc.prems(3) len True bytes good by (subst (asm) frame_loop.simps) (simp add: Let_def)
        with inv c show ?thesis by (simp add: queues_kept_refl)
      next
        case False
        obtain n1 dat n2 n3 where s: "w_pop (ibuf_of c) net_pool (put_ibuf c) MESSAGE_HEAD_LEN n = Inr n1"
            "conn_msg_call env c (msgid ?h) (msglen ?h) (map_option (take (nat (msglen ?h))) dat) n1 = Inr n2"
            "w_pop (ibuf_of c) net_pool (put_ibuf c) (msglen ?h) n2 = Inr n3"
            "frame_loop fuel (ibuf_of c) net_pool (put_ibuf c) (conn_msg_call env c) (clean_conn env c) n3 = Inr n'"
          using Suc.prems(3) len True bytes good False
          by (subst (asm) frame_loop.simps) (auto simp: Let_def rbind_eq_Inr)
        have h: "0 \<le> MESSAGE_HEAD_LEN" "0 \<le> msglen ?h" using good by (simp_all add: MESSAGE_HEAD_LEN_def bad_head_def)
        have i1: "net_inv E {c} P n1 \<and> same_table n n1" using pop_inv [OF inv c h(1) s(1)] .
        then have c1: "conn_of fd n1 = Some c" using c same_tableD(1) by metis
        have i2: "net_inv E {c} P n2 \<and> same_table n1 n2" using msg_call_inv [OF env _ c1 s(2)] i1 by blast
        then have c2: "conn_of fd n2 = Some c" using c1 same_tableD(1) by metis
        have i3: "net_inv E {c} P n3 \<and> same_table n2 n3" using pop_inv [OF _ c2 h(2) s(3)] i2 by blast
        then have t: "same_table n n3" using same_table_trans i1 i2 by blast
        then have "conn_of fd n3 = Some c" using c same_tableD(1) by metis
        then show ?thesis using Suc.IH [OF _ _ s(4)] i3 queues_kept_trans [OF same_tableD(8) [OF t]] by blast
      qed
    qed
  qed
qed

lemma frame_loop_closed:
  "net_inv E {} P n \<Longrightarrow> ibuf_of c n = NULL \<Longrightarrow>
   frame_loop fuel (ibuf_of c) net_pool (put_ibuf c) (conn_msg_call env c) (clean_conn env c) n = Inr n' \<Longrightarrow> n' = n"
  by (simp add: frame_loop_NULL)

text \<open>Whatever \<open>ioctl\<close> and \<open>read\<close> return.\<close>

lemma read_data_inv:
  assumes "pool_inv s" and "rb_holds s p d" and run: "read_data fionread rs p s = Inr (ret, rs', q, s')" and rdy: "rb_ready s p"
  shows "\<exists>d'. pool_inv s' \<and> others_kept s p s' q \<and> rb_holds s' q d' \<and> rb_ready s' q"
proof (cases fionread)
  case None
  then show ?thesis using assms by (auto simp: read_data_def)
next
  case (Some k)
  obtain ok q1 s1 where res: "reserve k p s = Inr (ok, q1, s1)" using run Some by (auto simp: read_data_def rbind_eq_Inr)
  show ?thesis
  proof (cases ok)
    case False
    then show ?thesis using reserve_ok [OF assms(1,2) rdy res] run res Some assms(1,2) rdy by (auto simp: read_data_def)
  next
    case True
    obtain x rs2 where x: "read_retry rs = Inr (x, rs2)"
      using run Some res True by (auto simp: read_data_def rbind_eq_Inr)
    have res': "reserve k p s = Inr (True, q1, s1)" using res True by simp
    note r = read_data_ok [OF assms(1,2) rdy res' x]
    show ?thesis
    proof (rule r)
      fix a b
      assume k: "others_kept s p s1 q1" "pool_inv s1" "rb_holds s1 q1 d" "rb_ready s1 q1"
        and c: "case x of Rd bs \<Rightarrow>
          (if capacity b < buf_len b + int (length bs) then read_data (Some k) rs p s = Inl OutOfBounds
           else if bs \<noteq> [] \<and> k \<noteq> 0 \<and> int (length bs) \<noteq> k then read_data (Some k) rs p s = Inl AssertFail
           else \<exists>s'. read_data (Some k) rs p s = Inr (int (length bs), rs2, q1, s') \<and> pool_inv s' \<and>
                rb_holds s' q1 (d @ bs) \<and> rb_ready s' q1 \<and> others_kept s p s' q1)
          | _ \<Rightarrow> read_data (Some k) rs p s = Inr (- 1, rs2, q1, s1)"
      show ?thesis using c k run Some by (auto split: rd_ret.splits if_splits)
    qed
  qed
qed

lemma do_read_inv:
  assumes env: "env_ok env" and inv: "net_inv E {} P n" and c: "conn_of fd n = Some c" and run: "do_read env c fionread rs n = Inr n'"
  shows "net_inv E {} P n' \<and> queues_kept n n'"
proof -
  obtain d where d: "rb_holds (net_pool n) (ibuf_of c n) d" using conn_wfD(5) [OF net_invD(3) [OF inv c]] by blast
  have rdy: "rb_ready (net_pool n) (ibuf_of c n)" using conn_wfD(3) [OF net_invD(3) [OF inv c]] by simp
  obtain ret rs' p s where rd: "read_data fionread rs (ibuf_of c n) (net_pool n) = Inr (ret, rs', p, s)"
    using run by (auto simp: do_read_def read_frames_def rbind_eq_Inr)
  obtain d' where d': "pool_inv s" "others_kept (net_pool n) (ibuf_of c n) s p" "rb_holds s p d'" "rb_ready s p"
    using read_data_inv [OF net_invD(1) [OF inv] d rd rdy] by blast
  let ?n1 = "put_ibuf c p s n"
  have i1: "net_inv E X P ?n1" for X using put_ibuf_inv [OF inv c d'(2,1,3)] d'(4) by simp
  have c1: "conn_of fd ?n1 = Some c" using c by simp
  have q1: "queues_kept n ?n1" by (rule queues_kept_refl) simp
  have stay: "n4 = n3" if "ibuf_of c n3 = NULL" "Inr n4 = rbind (rb_adjust (ibuf_of c n3) (net_pool n3)) (\<lambda>s'. Inr (put_ibuf c (ibuf_of c n3) s' n3))"
    for n3 n4 :: "'a net"
    using that ib.put_same [of c n3] by (simp add: rb_adjust_def)
  show ?thesis
  proof (cases "ret = - 1")
    case True
    then have "clean_conn env c ?n1 = Inr n'" using run rd by (simp add: do_read_def read_frames_def)
    then show ?thesis using clean_conn_inv [OF env i1 [where X = "{}"] c1] queues_kept_trans [OF q1] by simp
  next
    case False
    obtain n2 n3 where s: "(if ret = 0 then clean_conn env c ?n1 else Inr ?n1) = Inr n2"
        "frame_loop max_frames (ibuf_of c) net_pool (put_ibuf c) (conn_msg_call env c) (clean_conn env c) n2 = Inr n3"
        "Inr n' = rbind (rb_adjust (ibuf_of c n3) (net_pool n3)) (\<lambda>s'. Inr (put_ibuf c (ibuf_of c n3) s' n3))"
      using run rd False by (auto simp: do_read_def read_frames_def rbind_eq_Inr Let_def)
    have "(net_inv E {c} P n3 \<and> conn_of fd n3 = Some c \<or> net_inv E {} P n3 \<and> ibuf_of c n3 = NULL) \<and> queues_kept n n3"
    proof (cases "ret = 0")
      case True
      then have "net_inv E {} P n2 \<and> ibuf_of c n2 = NULL \<and> queues_kept n n2"
        using clean_conn_inv [OF env i1 [where X = "{}"] c1, of n2] s(1) queues_kept_trans [OF q1] by simp
      then show ?thesis using frame_loop_closed [OF _ _ s(2)] by blast
    next
      case False
      then have "n2 = ?n1" using s(1) by simp
      then show ?thesis using frame_loop_inv [OF env i1 c1 s(2) [unfolded \<open>n2 = ?n1\<close>]] queues_kept_trans [OF q1] by blast
    qed
    then show ?thesis
    proof (elim conjE disjE)
      assume q: "queues_kept n n3" and i3: "net_inv E {c} P n3" and c3: "conn_of fd n3 = Some c"
      obtain d3 where d3: "rb_holds (net_pool n3) (ibuf_of c n3) d3" using conn_wfD(5) [OF net_invD(3) [OF i3 c3]] by blast
      obtain s4 where "rb_adjust (ibuf_of c n3) (net_pool n3) = Inr s4" "pool_inv s4" "rb_holds s4 (ibuf_of c n3) d3"
          "rb_ready s4 (ibuf_of c n3)" "others_kept (net_pool n3) (ibuf_of c n3) s4 (ibuf_of c n3)"
        using rb_adjust_ok [OF net_invD(1) [OF i3] d3] by blast
      then show ?thesis using put_ibuf_inv [OF i3 c3, of s4 "ibuf_of c n3" d3 "{}"] s(3) queues_kept_trans [OF q, of n'] queues_kept_refl [of n' n3] by simp
    next
      assume "queues_kept n n3" "net_inv E {} P n3" "ibuf_of c n3 = NULL"
      then show ?thesis using stay s(3) by blast
    qed
  qed
qed

end
