(* ===== verification/Server_Run.thy ===== *)
theory Server_Run
  imports Server_Inv
begin

text \<open>
  A running TCP server: from the constructor on, the main thread accepts, the threads of the pool deal with
  their queues, the event loops call back, tasks run, in any order. Every state reached satisfies the
  invariant of \<open>Server_Inv\<close>.
\<close>

section \<open>New connections\<close>

lemma net_inv_perm: "mset P = mset P' \<Longrightarrow> net_inv E X P n \<Longrightarrow> net_inv E X P' n"
  unfolding net_inv_def using mset_eq_imp_distinct_iff [of P P'] mset_eq_setD [of P P'] by auto

text \<open>Entering a connection: the constructor of \<open>tcp_conn\<close> after its hook.\<close>

definition enter :: "int \<Rightarrow> addr \<Rightarrow> nat \<Rightarrow> 'u net \<Rightarrow> 'u net" where
  "enter fd c l n = (upd_loop l (add_io_event True fd conn_rd_callback EPOLLIN (Some c)) n)
     \<lparr>conns := (conns n)[nat fd := Some c], curr_conns := curr_conns n + 1\<rparr>"

lemma enter_inv:
  assumes inv: "net_inv E X (fd # P) n" and b: "0 \<le> fd" "nat fd < length (conns n)"
    and n': "n' = enter fd (fresh_conn n) l (n\<lparr>fresh_conn := Suc (fresh_conn n),
      tcps := (tcps n)(fresh_conn n := \<lparr>connfd = fd, conn_loop = l, ibuf = NULL, obuf = NULL\<rparr>)\<rparr>)"
  shows "net_inv E X P n'"
proof -
  let ?c = "fresh_conn n"
  note n' = n' [unfolded enter_def]
  have free: "conn_of fd n = None" "fd \<notin> own E" "fd \<notin> set P" "distinct P"
    using net_invD(8,9) [OF inv] by auto
  have len: "length (conns n') = length (conns n)" by (simp add: n')
  have co: "conn_of f n' = (if f = fd then Some ?c else conn_of f n)" for f
  proof (cases "0 \<le> f \<and> f < int (length (conns n))")
    case True
    then show ?thesis using b by (auto simp: conn_of_def len) (simp_all add: n' nth_list_update)
  next
    case False
    then show ?thesis using b by (auto simp: conn_of_def len)
  qed
  have old: "c' < ?c" if "conn_of f n = Some c'" for f c' using conn_wfD(2) [OF net_invD(3) [OF inv that]] .
  have noev: "io_evs (loops n l') fd = None" for l' using net_invD(7) [OF inv, of l' fd] free(1,2) by (metis option.distinct(1))
  have tc: "tcps n' c' = tcps n c'" if "c' \<noteq> ?c" for c' using that by (simp add: n')
  have evs: "io_evs (loops n' l') f = io_evs (loops n l') f" if "f \<noteq> fd" for l' f
    using that by (simp add: n' io_evs_add_other)
  have wf: "conn_wf X f c' n'" if f: "conn_of f n = Some c'" for f c'
  proof -
    have ne: "f \<noteq> fd" "c' \<noteq> ?c" using f free(1) old [OF f] by auto
    have "connfd (tcps n c') = f" using conn_wfD(1) [OF net_invD(3) [OF inv f]] .
    then show ?thesis using net_invD(3) [OF inv f] tc [OF ne(2)] evs [OF ne(1)]
      by (auto simp: conn_wf_def watched_def ibuf_of_def obuf_of_def n')
  qed
  have me: "conn_wf X fd ?c n'"
    using noev by (auto simp: conn_wf_def watched_def n' ibuf_of_def obuf_of_def add_io_event_def io_event_new_def Let_def
      split: option.splits)
  have li: "live n' = insert ?c (live n)"
  proof (rule set_eqI)
    fix x
    show "x \<in> live n' \<longleftrightarrow> x \<in> insert ?c (live n)"
      unfolding insert_iff live_iff co using free(1) by (metis option.distinct(1) option.inject)
  qed
  have nul: "ibuf_of ?c n' = NULL" "obuf_of ?c n' = NULL" by (simp_all add: ibuf_of_def obuf_of_def n')
  have same: "ibuf_of c' n' = ibuf_of c' n" "obuf_of c' n' = obuf_of c' n" if "c' \<in> live n" for c'
  proof -
    from that obtain f where "conn_of f n = Some c'" unfolding live_iff by blast
    then have "c' \<noteq> ?c" using old by blast
    then show "ibuf_of c' n' = ibuf_of c' n" "obuf_of c' n' = obuf_of c' n" using tc by (simp_all add: ibuf_of_def obuf_of_def)
  qed
  have "bufs_apart (live n') n'"
    using net_invD(5) [OF inv] same nul unfolding bufs_apart_def li by auto
  moreover have "curr_conns n' = int (online n')"
    using filter_update_Some [OF b(2), of ?c] free(1) b net_invD(2) [OF inv]
    by (simp add: online_def n' conn_of_def nat_less_iff)
  moreover have "loop_inv (loops n' l')" for l' using net_invD(6) [OF inv] by (simp add: n' add_io_event_inv one_way_def)
  moreover have "f \<in> own E \<or> (\<exists>c'. conn_of f n' = Some c' \<and> conn_loop (tcps n' c') = l')" if ev: "io_evs (loops n' l') f \<noteq> None" for l' f
  proof (cases "f = fd")
    case True
    have "l' = l" using ev noev True by (cases "l' = l") (simp_all add: n')
    then show ?thesis using True by (simp add: co) (simp add: n')
  next
    case False
    then have "io_evs (loops n l') f \<noteq> None" using ev evs by simp
    from net_invD(7) [OF inv this] show ?thesis
    proof (elim disjE exE conjE)
      fix c' assume c': "conn_of f n = Some c'" "conn_loop (tcps n c') = l'"
      then have "c' \<noteq> ?c" using old by blast
      with c' False show ?thesis by (simp add: co tc)
    qed simp
  qed
  moreover have "io_evs (loops n' l') f = E l' f" if "f \<in> own E" for l' f
    using evs [of f l'] free(2) net_invD(10) [OF inv that] that by metis
  moreover have "net_pool n' = net_pool n" by (simp_all add: n')
  moreover have "no_leak n'"
    unfolding no_leak_def
  proof (intro allI impI)
    fix x b assume "bufs (net_pool n') x = Some b" "\<not> is_free (net_pool n') x"
    then have "bufs (net_pool n) x = Some b" "\<not> is_free (net_pool n) x" by (simp_all add: n')
    from no_leakD [OF net_invD(11) [OF inv] this] obtain c' where "c' \<in> live n" "Ptr x = ibuf_of c' n \<or> Ptr x = obuf_of c' n" .
    then show "\<exists>c \<in> live n'. Ptr x = ibuf_of c n' \<or> Ptr x = obuf_of c n'" using same by (intro bexI [of _ c']) (auto simp: li)
  qed
  ultimately show ?thesis
    using net_invD(1,4,9) [OF inv] free wf me unfolding net_inv_def by (auto simp: co)
qed

text \<open>What a connection's hook does before the connection is entered could as well be done afterwards.\<close>

lemma event_both:
  "ev\<lparr>write_cb := w, wcb_args := x, read_cb := r, rcb_args := y, ev_mask := m\<rparr> =
   ev\<lparr>read_cb := r, rcb_args := y, write_cb := w, wcb_args := x, ev_mask := m\<rparr>"
  by (cases ev) simp

lemma add_in_out:
  "add_io_event True fd p EPOLLIN a (add_io_event True fd' p' EPOLLOUT a' s) =
   add_io_event True fd' p' EPOLLOUT a' (add_io_event True fd p EPOLLIN a s)"
  by (cases "fd = fd'"; cases "io_evs s fd"; cases "io_evs s fd'"; cases "epoll_set s fd"; cases "epoll_set s fd'")
    (auto simp: add_io_event_def epoll_ctl_def one_way_def io_event_new_def Let_def fun_upd_twist or.commute or.left_commute or.assoc
      insert_commute event_both)

lemma enter_simps [simp]:
  "tcps (enter fd c l n) = tcps n" "queues (enter fd c l n) = queues n" "net_pool (enter fd c l n) = net_pool n"
  "conns (enter fd c l n) = (conns n)[nat fd := Some c]"
  by (simp_all add: enter_def)

lemma enter_send:
  "send_message c' data i (enter fd c l n) = map_sum id (map_prod id (enter fd c l)) (send_message c' data i n)"
  unfolding send_message_def
  by (rule send_framed_natural)
    (simp_all add: enter_def obuf_of_def put_obuf_def upd_conn_def upd_loop_def add_in_out fun_upd_twist)

lemma enter_task:
  assumes "send_task f a n = Inr n'"
  shows "send_task f a (enter fd c l n) = Inr (enter fd c l n')"
proof -
  have one: "send_to t i (enter fd c l m) = map_sum id (enter fd c l) (send_to t i m)" for t i m
    by (auto simp: send_to_def rbind_def enter_def upd_loop_def split: sum.split)
  have "fold (\<lambda>i m. rbind m (send_to (NEW_TASK f a) i)) is (map_sum id (enter fd c l) r) =
      map_sum id (enter fd c l) (fold (\<lambda>i m. rbind m (send_to (NEW_TASK f a) i)) is r)" for "is" r
  proof (induction "is" arbitrary: r)
    case (Cons i "is")
    have "rbind (map_sum id (enter fd c l) r) (send_to (NEW_TASK f a) i) = map_sum id (enter fd c l) (rbind r (send_to (NEW_TASK f a) i))"
      by (cases r) (simp_all add: one)
    then show ?case by (simp only: fold_simps Cons.IH)
  qed simp
  from this [of "[0..<length (queues n)]" "Inr n"] assms show ?thesis by (simp add: send_task_def)
qed

lemma work_enter:
  assumes "work_on {c} n n'" and new: "conn_of fd n = None" "0 \<le> fd" "nat fd < length (conns n)"
  shows "app_work (enter fd c l n) (enter fd c l n') \<and> conns n' = conns n"
  using assms(1)
proof induction
  case work_none
  then show ?case by (simp add: work_on.work_none)
next
  case (work_app m a)
  have "enter fd c l (m\<lparr>app := a\<rparr>) = (enter fd c l m)\<lparr>app := a\<rparr>" by (simp add: enter_def upd_loop_def)
  moreover have "app_work (enter fd c l n) ((enter fd c l m)\<lparr>app := a\<rparr>)" using work_app by (blast intro: work_on.work_app)
  ultimately show ?case using work_app by simp
next
  case (work_send m c' data i r m')
  then obtain f where f: "conn_of f m = Some c'" by (auto simp: live_iff)
  have "conn_of fd m = conn_of fd n" using work_send by (simp add: conn_of_def)
  then have "f \<noteq> fd" using new(1) f by auto
  then have "conn_of f (enter fd c l m) = Some c'" using f new(2) by (auto simp: conn_of_def nth_list_update split: if_splits)
  then have "c' \<in> live (enter fd c l m)" by (auto simp: live_iff)
  moreover have "send_message c' data i (enter fd c l m) = Inr (r, enter fd c l m')" using work_send(3) by (simp add: enter_send)
  moreover have "conns m' = conns m" using net_frameD(1) [OF send_message_frame [OF work_send(3)]] .
  ultimately show ?case using work_send.IH work_on.work_send by metis
next
  case (work_self m c' data i r m')
  have "conn_of fd (enter fd c l m) = Some c" using new(2,3) work_self by (simp add: conn_of_def nat_less_iff)
  then have "c' \<in> live (enter fd c l m)" using work_self(2) by (auto simp: live_iff)
  moreover have "send_message c' data i (enter fd c l m) = Inr (r, enter fd c l m')" using work_self(3) by (simp add: enter_send)
  moreover have "conns m' = conns m" using net_frameD(1) [OF send_message_frame [OF work_self(3)]] .
  ultimately show ?case using work_self.IH work_on.work_send by metis
next
  case (work_task m f a m')
  then have "conns m' = conns m" using send_task_queues by fastforce
  then show ?case using work_task work_on.work_task enter_task by metis
qed

lemma tcp_conn_new_inv:
  assumes env: "env_ok env" and inv: "net_inv E X (fd # P) n" and run: "tcp_conn_new env fd l n = Inr (c, n')"
  shows "net_inv E X P n' \<and> queues_kept n n'"
proof -
  let ?c = "fresh_conn n"
  let ?n0 = "n\<lparr>fresh_conn := Suc ?c, tcps := (tcps n)(?c := \<lparr>connfd = fd, conn_loop = l, ibuf = NULL, obuf = NULL\<rparr>)\<rparr>"
  obtain n1 where n1: "run_hook (conn_start_cb env) ?c ?n0 = Inr n1" using run by (auto simp: tcp_conn_new_def Let_def rbind_eq_Inr)
  have b: "0 \<le> fd" "fd < int (length (conns n1))" and n': "n' = enter fd ?c l n1"
    using run n1 by (auto simp: tcp_conn_new_def Let_def rbind_eq_Inr increase_conn_def enter_def split: if_splits)
  note work = env_okD(1) [OF env n1]
  have "conns m = conns ?n0" if "work_on {?c} ?n0 m" for m
    using that by induction (auto dest: net_frameD(1) [OF send_message_frame] send_task_queues)
  then have len: "nat fd < length (conns n)" using work b by fastforce
  have "conn_of fd ?n0 = conn_of fd n" by (simp add: conn_of_def)
  then have "conn_of fd ?n0 = None" using net_invD(9) [OF inv, of fd] by simp
  then have w: "app_work (enter fd ?c l ?n0) n'" unfolding n' using work_enter [OF work] b(1) len by simp
  have "queues_kept (enter fd ?c l ?n0) n'" using app_work_inv [OF w enter_inv [OF inv b(1) len refl]] same_tableD(8) by blast
  then have "queues_kept n n'" by (simp add: queues_kept_def pending_def)
  then show ?thesis using app_work_inv [OF w enter_inv [OF inv b(1) len refl]] by blast
qed

section \<open>The queues\<close>

lemma mset_concat_update:
  "i < length xs \<Longrightarrow> mset (concat (map f (xs[i := y]))) + mset (f (xs ! i)) = mset (concat (map f xs)) + mset (f y)"
proof (induction xs arbitrary: i)
  case (Cons x xs)
  then show ?case by (cases i) (auto simp: ac_simps)
qed simp

lemma pending_update:
  "i < length (queues n) \<Longrightarrow>
   mset (pending (n\<lparr>queues := (queues n)[i := q]\<rparr>)) + mset (conn_fds (q_items (queues n ! i))) =
   mset (pending n) + mset (conn_fds (q_items q))"
  using mset_concat_update [of i "queues n" "\<lambda>q. conn_fds (q_items q)" q] by (simp add: pending_def)

lemma io_evs_add_task [simp]: "io_evs (add_task f a s) = io_evs s"
  by (simp add: add_task_def)

lemma net_inv_task: "net_inv E X P n \<Longrightarrow> net_inv E X P (upd_loop l (add_task f a) n)"
  by (rule net_inv_cong) (auto simp: add_task_inv net_invD(6) [of E X P n])

lemma deal_all_inv:
  assumes "env_ok env"
  shows "net_inv E X (conn_fds ts @ P) n \<Longrightarrow> deal_all env l ts n = Inr n' \<Longrightarrow> net_inv E X P n' \<and> queues_kept n n'"
proof (induction ts arbitrary: n)
  case (Cons t ts)
  obtain n1 where n1: "deal_one env l t n = Inr n1" "deal_all env l ts n1 = Inr n'"
    using Cons.prems(2) by (auto simp: rbind_eq_Inr)
  have "net_inv E X (conn_fds ts @ P) n1 \<and> queues_kept n n1"
  proof (cases t)
    case (NEW_CONN fd)
    then obtain c where "tcp_conn_new env fd l n = Inr (c, n1)" using n1(1) by (auto simp: deal_one_def rbind_eq_Inr)
    from tcp_conn_new_inv [OF assms _ this] Cons.prems(1) NEW_CONN show ?thesis by simp
  next
    case (NEW_TASK f a)
    then show ?thesis using n1(1) Cons.prems(1) net_inv_task by (auto simp: deal_one_def intro: queues_kept_refl)
  qed
  with Cons.IH n1(2) queues_kept_trans show ?case by blast
qed simp

definition srv_inv :: "own_events \<Rightarrow> 'u net \<Rightarrow> bool" where
  "srv_inv E n \<longleftrightarrow> net_inv E {} (pending n) n"

lemma deal_task_inv:
  assumes env: "env_ok env" and inv: "srv_inv E n" and i: "i < length (queues n)" and run: "deal_task env i n = Inr n'"
  shows "srv_inv E n' \<and> length (queues n') = length (queues n)"
proof -
  let ?q = "queues n ! i"
  let ?n1 = "n\<lparr>queues := (queues n)[i := snd (recv ?q)]\<rparr>"
  have run': "deal_all env (Suc i) (q_items ?q) ?n1 = Inr n'" using run by (simp add: deal_task_def recv_def)
  have "mset (pending n) = mset (conn_fds (q_items ?q) @ pending ?n1)"
    using pending_update [OF i, of "snd (recv ?q)"] by (simp add: recv_def ac_simps)
  then have "net_inv E {} (conn_fds (q_items ?q) @ pending ?n1) ?n1"
    using net_inv_perm net_inv_queues inv unfolding srv_inv_def by blast
  from deal_all_inv [OF env this run'] show ?thesis by (simp add: srv_inv_def queues_kept_def)
qed

lemma send_to_inv:
  assumes "net_inv E X P n" and "mset P = mset (conn_fds [t]) + mset (pending n)" and "i < length (queues n)"
    and "send_to t i n = Inr n'"
  shows "net_inv E X (pending n') n' \<and> length (queues n') = length (queues n)"
proof -
  obtain q where q: "send t (queues n ! i) = Inr q" "n' = n\<lparr>queues := (queues n)[i := q]\<rparr>"
    using assms(4) by (auto simp: send_to_def rbind_eq_Inr)
  then have it: "q_items q = q_items (queues n ! i) @ [t]" by (auto simp: send_def split: if_splits)
  let ?m = "mset (conn_fds (q_items (queues n ! i)))"
  have "mset (pending n') + ?m = mset (pending n) + mset (conn_fds (q_items (queues n ! i) @ [t]))"
    using pending_update [OF assms(3), of q] unfolding it q(2) .
  also have "\<dots> = (mset (conn_fds [t]) + mset (pending n)) + ?m" unfolding conn_fds_simps(4) mset_append by (simp only: ac_simps)
  finally have "mset P = mset (pending n')" unfolding assms(2) add_right_cancel by (rule sym)
  then have "net_inv E X (pending n') n'" using net_inv_perm [OF _ net_inv_queues [OF assms(1)]] unfolding q(2) by blast
  then show ?thesis using q(2) by simp
qed

section \<open>Accepting\<close>

text \<open>A descriptor the kernel may return from \<open>accept\<close>: one that is not open.\<close>

definition fresh_fd :: "own_events \<Rightarrow> 'u net \<Rightarrow> int \<Rightarrow> bool" where
  "fresh_fd E n fd \<longleftrightarrow> fd \<notin> own E \<and> conn_of fd n = None \<and> fd \<notin> set (pending n)"

lemma accept_conn_inv:
  assumes env: "env_ok env" and inv: "srv_inv E n" and f: "fresh_fd E n fd" and run: "accept_conn env fd n = Inr n'"
  shows "srv_inv E n' \<and> length (queues n') = length (queues n)"
proof -
  have i1: "net_inv E {} (fd # pending n) n" using inv f unfolding srv_inv_def net_inv_def fresh_fd_def by simp
  consider "n' = close_fd fd n" | "queues n \<noteq> []" "rbind (get_thread n) (\<lambda>(i, n1). send_to (NEW_CONN fd) i n1) = Inr n'"
    | c where "queues n = []" "tcp_conn_new env fd 0 n = Inr (c, n')"
    using run by (auto simp: accept_conn_def rbind_eq_Inr split: if_splits)
  then show ?thesis
  proof cases
    case 1
    have "net_inv E {} (pending n) (close_fd fd n)"
      using inv unfolding srv_inv_def by (rule net_inv_cong) (use inv in \<open>auto simp: close_fd_def srv_inv_def dest: net_invD(6)\<close>)
    with 1 show ?thesis by (simp add: srv_inv_def pending_def close_fd_def)
  next
    case 2
    then obtain i n1 where s: "get_thread n = Inr (i, n1)" "send_to (NEW_CONN fd) i n1 = Inr n'" by (auto simp: rbind_eq_Inr)
    then obtain k where k: "n1 = n\<lparr>tp_index := k\<rparr>" "i < length (queues n)"
      by (auto simp: get_thread_def Let_def split: if_splits)
    have "net_inv E {} (fd # pending n) n1"
      using i1 by (rule net_inv_cong) (use i1 in \<open>auto simp: k dest: net_invD(6)\<close>)
    from send_to_inv [OF this _ _ s(2)] k show ?thesis by (simp add: srv_inv_def pending_def)
  next
    case 3
    from tcp_conn_new_inv [OF env i1 3(2)] show ?thesis by (simp add: srv_inv_def queues_kept_def)
  qed
qed

lemma do_accept_inv:
  assumes "env_ok env"
  shows "srv_inv E n \<Longrightarrow> \<forall>fd. Acc fd \<in> set as \<longrightarrow> fresh_fd E n fd \<Longrightarrow> do_accept env as n = Inr n' \<Longrightarrow>
    srv_inv E n' \<and> length (queues n') = length (queues n)"
proof (induction "as")
  case (Cons x "as")
  show ?case
  proof (cases x)
    case (Acc fd)
    then show ?thesis using accept_conn_inv [OF assms, of E n fd n'] Cons.prems by simp
  qed (use Cons in simp_all)
qed simp

section \<open>The start\<close>

text \<open>The server's own events: its socket in the main loop, and in loop \<open>i + 1\<close> the eventfd of queue \<open>i\<close>.\<close>

definition own_event :: "io_cb \<Rightarrow> addr option \<Rightarrow> (io_cb, addr) io_event" where
  "own_event cb a = \<lparr>ev_mask = EPOLLIN, read_cb = Some cb, write_cb = None, rcb_args = a, wcb_args = None\<rparr>"

definition srv_events :: "int \<Rightarrow> int list \<Rightarrow> own_events" where
  "srv_events sockfd fds l fd =
     (if l = 0 then (if fd = sockfd then Some (own_event accept_callback None) else None)
      else if l \<le> length fds \<and> fd = fds ! (l - 1) then Some (own_event deal_task_cb (Some (l - 1))) else None)"

text \<open>The state before the constructor: nothing but the buffer pool exists, and it has all its buffers.\<close>

definition all_free :: "pool_st \<Rightarrow> bool" where
  "all_free s \<longleftrightarrow> (\<forall>x b. bufs s x = Some b \<longrightarrow> is_free s x)"

definition net_zero :: "'u net \<Rightarrow> bool" where
  "net_zero n \<longleftrightarrow> pool_inv (net_pool n) \<and> all_free (net_pool n) \<and> (\<forall>l. loops n l = event_loop_new) \<and> queues n = []"

lemma add_first: "io_evs (add_io_event True fd cb EPOLLIN a event_loop_new) f = (if f = fd then Some (own_event cb a) else None)"
  by (simp add: add_io_event_def event_loop_new_def io_event_new_def own_event_def Let_def split: option.splits)

lemma add_first_inv: "loop_inv (add_io_event True fd cb EPOLLIN a event_loop_new)"
  by (simp add: add_io_event_inv one_way_def)

lemma start_threads_run:
  assumes "start_threads fds n = Inr n'"
  shows "net_pool n' = net_pool n \<and> pending n' = pending n \<and> length (queues n') = length (queues n) + length fds \<and>
    (\<forall>l. loops n' l = (if length (queues n) < l \<and> l \<le> length (queues n) + length fds
       then add_io_event True (fds ! (l - Suc (length (queues n)))) deal_task_cb EPOLLIN (Some (l - 1)) event_loop_new
       else loops n l))"
  using assms
proof (induction fds arbitrary: n)
  case (Cons fd fds)
  let ?k = "length (queues n)"
  obtain q where q: "thread_queue_new fd = Inr q" "start_threads fds (thread_main ?k (n\<lparr>queues := queues n @ [q]\<rparr>)) = Inr n'"
    using Cons.prems by (auto simp: rbind_eq_Inr)
  then have qi: "evfd q = fd" "q_items q = []" by (auto simp: thread_queue_new_def split: if_splits)
  let ?n1 = "thread_main ?k (n\<lparr>queues := queues n @ [q]\<rparr>)"
  have n1: "net_pool ?n1 = net_pool n" "queues ?n1 = queues n @ [set_queue_loop (Suc ?k) q]"
      "loops ?n1 = (loops n)(Suc ?k := add_io_event True fd deal_task_cb EPOLLIN (Some ?k) event_loop_new)"
    using qi(1) by (simp_all add: thread_main_def Let_def set_queue_loop_def)
  have "pending ?n1 = pending n" by (simp add: pending_def n1(2) set_queue_loop_def qi(2))
  moreover have "loops n' l = (if ?k < l \<and> l \<le> ?k + length (fd # fds)
      then add_io_event True ((fd # fds) ! (l - Suc ?k)) deal_task_cb EPOLLIN (Some (l - 1)) event_loop_new else loops n l)" for l
  proof (cases "l = Suc ?k")
    case False
    then have "?k < l \<Longrightarrow> l - Suc ?k = Suc (l - Suc (Suc ?k))" by simp
    with False Cons.IH [OF q(2)] n1(2,3) show ?thesis by auto
  qed (use Cons.IH [OF q(2)] n1(2,3) in simp)
  ultimately show ?case using Cons.IH [OF q(2)] n1(1,2) by simp
qed auto

lemma tcp_server_start_run:
  assumes zero: "net_zero n" and t: "0 \<le> thread_cnt" "length fds = nat thread_cnt"
    and run: "tcp_server_start sockfd thread_cnt max_conn fds n = Inr n'"
  shows "srv_inv (srv_events sockfd fds) n' \<and> pending n' = [] \<and> length (queues n') = length fds \<and> online n' = 0"
proof -
  obtain n1 size where n1: "(if 0 < thread_cnt then thread_pool_new thread_cnt fds n else Inr n) = Inr n1"
      "n' = upd_loop 0 (add_io_event True sockfd accept_callback EPOLLIN None)
        (n1\<lparr>max_conns := max_conn, conns := replicate (nat size) None, curr_conns := 0\<rparr>)"
    using run by (auto simp: tcp_server_start_def rbind_eq_Inr Let_def)
  have th: "net_pool n1 = net_pool n" "pending n1 = []" "length (queues n1) = length fds"
      "loops n1 l = (if 0 < l \<and> l \<le> length fds
         then add_io_event True (fds ! (l - 1)) deal_task_cb EPOLLIN (Some (l - 1)) event_loop_new else event_loop_new)" for l
  proof -
    have "net_pool n1 = net_pool n \<and> pending n1 = [] \<and> length (queues n1) = length fds \<and>
      (\<forall>l. loops n1 l = (if 0 < l \<and> l \<le> length fds
         then add_io_event True (fds ! (l - 1)) deal_task_cb EPOLLIN (Some (l - 1)) event_loop_new else event_loop_new))"
    proof (cases "0 < thread_cnt")
      case True
      then have "start_threads fds (n\<lparr>queues := [], tp_index := 0\<rparr>) = Inr n1" using n1(1) t by (simp add: thread_pool_new_def)
      from start_threads_run [OF this] show ?thesis using zero by (simp add: net_zero_def pending_def)
    qed (use n1(1) t zero in \<open>simp add: net_zero_def pending_def\<close>)
    then show "net_pool n1 = net_pool n" "pending n1 = []" "length (queues n1) = length fds"
      "loops n1 l = (if 0 < l \<and> l \<le> length fds
         then add_io_event True (fds ! (l - 1)) deal_task_cb EPOLLIN (Some (l - 1)) event_loop_new else event_loop_new)" by blast+
  qed
  have none: "conn_of f n' = None" for f by (auto simp: conn_of_def n1(2) nat_less_iff)
  have ev: "io_evs (loops n' l) f = srv_events sockfd fds l f" for l f
    by (cases "l = 0") (simp_all add: n1(2) th(4) srv_events_def add_first, simp_all add: event_loop_new_def)
  have "loop_inv (loops n' l)" for l
    by (cases "l = 0") (simp_all add: n1(2) th(4) add_first_inv)
  moreover have "online n' = 0" "curr_conns n' = 0" "pending n' = []" "length (queues n') = length fds" "pool_inv (net_pool n')"
      "all_free (net_pool n')"
    using th(1-3) zero by (simp_all add: n1(2) online_def net_zero_def pending_def)
  moreover have "live n' = {}" by (simp add: live_def none)
  ultimately show ?thesis
    by (auto simp: srv_inv_def net_inv_def none ev bufs_apart_def own_def no_leak_def all_free_def)
qed

section \<open>The steps\<close>

text \<open>
  The callbacks the event loops make, for any outcome of the kernel: \<open>accept\<close> returns descriptors that are not
  open, \<open>write\<close> does not accept more than was waiting.
\<close>

inductive srv_call :: "own_events \<Rightarrow> 'u srv_env \<Rightarrow> io_cb \<Rightarrow> addr option \<Rightarrow> 'u net \<Rightarrow> 'u net \<Rightarrow> bool" for E env where
  call_read: "do_read env c fionread rs n = Inr n' \<Longrightarrow> srv_call E env conn_rd_callback (Some c) n n'"
| call_write: "rb_holds (net_pool n) (obuf_of c n) e \<Longrightarrow> wr_fits ws e \<Longrightarrow> do_write env c ws n = Inr n' \<Longrightarrow>
    srv_call E env conn_wt_callback (Some c) n n'"
| call_accept: "\<forall>fd. Acc fd \<in> set as \<longrightarrow> fresh_fd E n fd \<Longrightarrow> do_accept env as n = Inr n' \<Longrightarrow>
    srv_call E env accept_callback a n n'"
| call_deal: "deal_task env i n = Inr n' \<Longrightarrow> srv_call E env deal_task_cb (Some i) n n'"

definition srv_runs :: "own_events \<Rightarrow> 'u srv_env \<Rightarrow> (io_cb \<Rightarrow> int \<Rightarrow> addr option \<Rightarrow> 'u net \<Rightarrow> 'u net res) \<Rightarrow> 'u net \<Rightarrow> bool" where
  "srv_runs E env run n \<longleftrightarrow> (\<forall>cb fd a n'. run cb fd a n = Inr n' \<longrightarrow> srv_call E env cb a n n')"

definition task_runs :: "(nat \<Rightarrow> addr option \<Rightarrow> 'u net \<Rightarrow> 'u net res) \<Rightarrow> bool" where
  "task_runs run \<longleftrightarrow> (\<forall>f a m m'. run f a m = Inr m' \<longrightarrow> app_work m m')"

definition set_loop :: "nat \<Rightarrow> loop_t \<Rightarrow> 'u net \<Rightarrow> 'u net" where
  "set_loop l s = upd_loop l (\<lambda>_. s)"

text \<open>
  A step of one of the threads: an event is dispatched, a task is sent to all threads, a loop runs its tasks, a
  thread of the application changes the application's state.
\<close>

inductive srv_step :: "own_events \<Rightarrow> 'u srv_env \<Rightarrow> 'u net \<Rightarrow> 'u net \<Rightarrow> bool" for E env where
  step_event: "srv_runs E env run n \<Longrightarrow> dispatch_one (\<lambda>n. loops n l) (set_loop l) run fired n = Inr n' \<Longrightarrow> srv_step E env n n'"
| step_task: "send_task f a n = Inr n' \<Longrightarrow> srv_step E env n n'"
| step_app: "srv_step E env n (n\<lparr>app := a\<rparr>)"
| step_run: "task_runs run \<Longrightarrow> execute_ready_tasks (\<lambda>n. loops n l) (set_loop l) run n = Inr n' \<Longrightarrow> srv_step E env n n'"

definition good_call :: "'u net \<Rightarrow> io_cb \<Rightarrow> addr option \<Rightarrow> bool" where
  "good_call n cb a \<longleftrightarrow>
     (case cb of
        conn_rd_callback \<Rightarrow> \<exists>c \<in> live n. a = Some c
      | conn_wt_callback \<Rightarrow> \<exists>c \<in> live n. a = Some c
      | accept_callback \<Rightarrow> True
      | deal_task_cb \<Rightarrow> \<exists>i < length (queues n). a = Some i
      | _ \<Rightarrow> False)"

lemma pending_cong: "queues n' = queues n \<Longrightarrow> pending n' = pending n"
  by (simp add: pending_def)

lemma srv_call_inv:
  assumes "srv_call E env cb a n n'" and env: "env_ok env" and inv: "srv_inv E n" and good: "good_call n cb a"
  shows "srv_inv E n' \<and> length (queues n') = length (queues n)"
  using assms(1)
proof cases
  case (call_read c fionread rs)
  then obtain fd where "conn_of fd n = Some c" using good by (auto simp: good_call_def live_iff)
  from do_read_inv [OF env inv [unfolded srv_inv_def] this call_read(3)] show ?thesis
    by (simp add: srv_inv_def queues_kept_def)
next
  case (call_write c e ws)
  then obtain fd where "conn_of fd n = Some c" using good by (auto simp: good_call_def live_iff)
  from do_write_inv [OF env inv [unfolded srv_inv_def] this call_write(3-5)] show ?thesis
    by (simp add: srv_inv_def queues_kept_def)
next
  case (call_accept as)
  from do_accept_inv [OF env inv call_accept(2,3)] show ?thesis .
next
  case (call_deal i)
  then have "i < length (queues n)" using good by (simp add: good_call_def)
  from deal_task_inv [OF env inv this call_deal(3)] show ?thesis .
qed

text \<open>Every event names a callback of the server, with the connection the table has for the descriptor.\<close>

lemma event_conn:
  assumes inv: "net_inv E X P n" and c: "conn_of fd n = Some c"
  shows "\<exists>ev e. io_evs (loops n (conn_loop (tcps n c))) fd = Some ev \<and> rb_holds (net_pool n) (obuf_of c n) e \<and>
    ev_mask ev = (if e = [] then EPOLLIN else EPOLLIN OR EPOLLOUT) \<and> read_cb ev = Some conn_rd_callback \<and> rcb_args ev = Some c \<and>
    (e \<noteq> [] \<longrightarrow> write_cb ev \<noteq> None) \<and> (write_cb ev \<noteq> None \<longrightarrow> write_cb ev = Some conn_wt_callback \<and> wcb_args ev = Some c)"
  using conn_wfD(1,5) [OF net_invD(3) [OF inv c]] unfolding watched_def by metis

lemma event_good:
  assumes inv: "srv_inv (srv_events sockfd fds) n" and q: "length (queues n) = length fds" and ev: "io_evs (loops n l) fd = Some ev"
  shows "read_cb ev = Some cb \<Longrightarrow> good_call n cb (rcb_args ev)" and "write_cb ev = Some cb \<Longrightarrow> good_call n cb (wcb_args ev)"
    and "read_cb ev \<noteq> None"
proof -
  let ?E = "srv_events sockfd fds"
  have i: "net_inv ?E {} (pending n) n" using inv by (simp add: srv_inv_def)
  have "(\<forall>cb. read_cb ev = Some cb \<longrightarrow> good_call n cb (rcb_args ev)) \<and> (\<forall>cb. write_cb ev = Some cb \<longrightarrow> good_call n cb (wcb_args ev)) \<and>
    read_cb ev \<noteq> None"
  proof (cases "fd \<in> own ?E")
    case True
    then have "?E l fd = Some ev" using net_invD(10) [OF i True, of l] ev by simp
    then show ?thesis using q by (auto simp: srv_events_def own_event_def good_call_def split: if_splits)
  next
    case False
    then obtain c where c: "conn_of fd n = Some c" "conn_loop (tcps n c) = l" using net_invD(7) [OF i, of l fd] ev by auto
    then have "c \<in> live n" by (auto simp: live_iff)
    with event_conn [OF i c(1)] c(2) ev show ?thesis by (auto simp: good_call_def)
  qed
  then show "read_cb ev = Some cb \<Longrightarrow> good_call n cb (rcb_args ev)" "write_cb ev = Some cb \<Longrightarrow> good_call n cb (wcb_args ev)"
    "read_cb ev \<noteq> None" by blast+
qed

lemma dispatch_inv:
  assumes env: "env_ok env" and inv: "srv_inv (srv_events sockfd fds) n" and q: "length (queues n) = length fds"
    and run: "srv_runs (srv_events sockfd fds) env run n"
    and d: "dispatch_one (\<lambda>n. loops n l) (set_loop l) run fired n = Inr n'"
  shows "srv_inv (srv_events sockfd fds) n' \<and> length (queues n') = length fds"
proof -
  obtain fd events where f: "fired = (fd, events)" by (cases fired)
  obtain ev where ev: "io_evs (loops n l) fd = Some ev" using d f by (auto simp: dispatch_one_def split: option.splits)
  note good = event_good [OF inv q ev]
  have called: ?thesis if calls: "call_cb run cb fd a n = Inr n'" and ok: "\<And>c. cb = Some c \<Longrightarrow> good_call n c a" for cb a
  proof -
    obtain c where c: "cb = Some c" "run c fd a n = Inr n'" using calls by (auto simp: call_cb_def split: option.splits)
    then have "srv_call (srv_events sockfd fds) env c a n n'" using run unfolding srv_runs_def by blast
    from srv_call_inv [OF this env inv ok [OF c(1)]] q show ?thesis by simp
  qed
  consider "call_cb run (read_cb ev) fd (rcb_args ev) n = Inr n'" | "call_cb run (write_cb ev) fd (wcb_args ev) n = Inr n'" | "n' = n"
  proof -
    obtain rc where "read_cb ev = Some rc" using good(3) by blast
    then have "call_cb run (read_cb ev) fd (rcb_args ev) n = Inr n' \<or> call_cb run (write_cb ev) fd (wcb_args ev) n = Inr n' \<or> n' = n"
      using d ev unfolding f dispatch_one_def by (simp split: if_splits)
    then show thesis using that by blast
  qed
  then show ?thesis
  proof cases
    case 1
    then show ?thesis by (rule called) (rule good(1))
  next
    case 2
    then show ?thesis by (rule called) (rule good(2))
  next
    case 3
    then show ?thesis using inv q by simp
  qed
qed

lemma send_task_inv:
  assumes "send_task f a n = Inr n'" and inv: "srv_inv E n"
  shows "srv_inv E n' \<and> length (queues n') = length (queues n)"
proof -
  have "fold (\<lambda>i m. rbind m (send_to (NEW_TASK f a) i)) is (Inr m) = Inr n' \<Longrightarrow> srv_inv E m \<Longrightarrow>
      \<forall>i \<in> set is. i < length (queues m) \<Longrightarrow> srv_inv E n' \<and> length (queues n') = length (queues m)" for "is" m
  proof (induction "is" arbitrary: m)
    case (Cons i "is")
    have stuck: "fold (\<lambda>i m. rbind m (send_to (NEW_TASK f a) i)) js (Inl x) = (Inl x :: 'a net res)" for js x by (induction js) simp_all
    obtain m1 where m1: "send_to (NEW_TASK f a) i m = Inr m1"
      using Cons.prems(1) stuck by (cases "send_to (NEW_TASK f a) i m") simp_all
    have "net_inv E {} (pending m1) m1 \<and> length (queues m1) = length (queues m)"
      using send_to_inv [OF Cons.prems(2) [unfolded srv_inv_def] _ _ m1] Cons.prems(3) by simp
    with Cons.IH [of m1] Cons.prems m1 show ?case by (simp add: srv_inv_def)
  qed simp
  from this [of "[0..<length (queues n)]" n] assms show ?thesis by (simp add: send_task_def)
qed

lemma run_tasks_inv:
  assumes "task_runs run"
  shows "run_tasks fuel loop_of run i n = Inr n' \<Longrightarrow> net_inv E X P n \<Longrightarrow> net_inv E X P n' \<and> same_table n n'"
proof (induction fuel arbitrary: i n)
  case 0
  then show ?case by (simp add: run_tasks.simps split: if_splits)
next
  case (Suc fuel)
  show ?case
  proof (cases "length (ready_tasks (loop_of n)) \<le> i")
    case False
    obtain f a where fa: "ready_tasks (loop_of n) ! i = (f, a)" by (cases "ready_tasks (loop_of n) ! i")
    obtain n1 where n1: "run f a n = Inr n1" "run_tasks fuel loop_of run (Suc i) n1 = Inr n'"
      using Suc.prems(1) False fa by (auto simp: run_tasks.simps [of "Suc fuel"] rbind_eq_Inr split: if_splits)
    have "app_work n n1" using assms n1(1) unfolding task_runs_def by blast
    from app_work_inv [OF this Suc.prems(2)] Suc.IH [OF n1(2)] show ?thesis using same_table_trans by blast
  qed (use Suc.prems in \<open>simp add: run_tasks.simps\<close>)
qed

lemma srv_step_inv:
  assumes "srv_step (srv_events sockfd fds) env n n'" and env: "env_ok env"
    and inv: "srv_inv (srv_events sockfd fds) n" and q: "length (queues n) = length fds"
  shows "srv_inv (srv_events sockfd fds) n' \<and> length (queues n') = length fds"
  using assms(1)
proof cases
  case (step_event run l fired)
  from dispatch_inv [OF env inv q step_event] show ?thesis .
next
  case (step_task f a)
  from send_task_inv [OF step_task inv] q show ?thesis by simp
next
  case (step_app a)
  then show ?thesis using inv q net_inv_app pending_cong [of n' n] by (simp add: srv_inv_def)
next
  case (step_run run l)
  then obtain m where m: "run_tasks (task_cap (loops n l)) (\<lambda>n. loops n l) run 0 n = Inr m"
      "n' = set_loop l (loops m l\<lparr>ready_tasks := []\<rparr>) m"
    by (auto simp: execute_ready_tasks_def rbind_eq_Inr)
  have i: "net_inv (srv_events sockfd fds) {} (pending n) m" "same_table n m"
    using run_tasks_inv [OF step_run(1) m(1) inv [unfolded srv_inv_def]] by blast+
  have "loop_inv (loops m k\<lparr>ready_tasks := []\<rparr>)" for k using net_invD(6) [OF i(1), of k] by (simp add: loop_inv_def)
  then have "net_inv (srv_events sockfd fds) {} (pending n) n'"
    using i(1) by (elim net_inv_cong) (auto simp: m(2) set_loop_def net_invD(6) [OF i(1)])
  moreover have "queues n' = queues m" by (simp add: m(2) set_loop_def)
  ultimately show ?thesis using q same_tableD(8) [OF i(2)] by (simp add: srv_inv_def queues_kept_def pending_def)
qed

text \<open>Everything a server can get to from its constructor.\<close>

definition srv_reached :: "int \<Rightarrow> int \<Rightarrow> int \<Rightarrow> int list \<Rightarrow> 'u srv_env \<Rightarrow> 'u net \<Rightarrow> 'u net \<Rightarrow> bool" where
  "srv_reached sockfd thread_cnt max_conn fds env n0 n \<longleftrightarrow>
     (\<exists>n1. tcp_server_start sockfd thread_cnt max_conn fds n0 = Inr n1 \<and>
        rtranclp (srv_step (srv_events sockfd fds) env) n1 n)"

definition srv_setup :: "int \<Rightarrow> int list \<Rightarrow> 'u srv_env \<Rightarrow> 'u net \<Rightarrow> bool" where
  "srv_setup thread_cnt fds env n0 \<longleftrightarrow> net_zero n0 \<and> 0 \<le> thread_cnt \<and> length fds = nat thread_cnt \<and> env_ok env"

lemma srv_reached_inv:
  assumes "srv_setup thread_cnt fds env n0" and "srv_reached sockfd thread_cnt max_conn fds env n0 n"
  shows "srv_inv (srv_events sockfd fds) n \<and> length (queues n) = length fds"
proof -
  obtain n1 where n1: "tcp_server_start sockfd thread_cnt max_conn fds n0 = Inr n1"
      "rtranclp (srv_step (srv_events sockfd fds) env) n1 n"
    using assms(2) by (auto simp: srv_reached_def)
  have z: "net_zero n0" "0 \<le> thread_cnt" "length fds = nat thread_cnt" "env_ok env"
    using assms(1) by (auto simp: srv_setup_def)
  from n1(2) show ?thesis
  proof induction
    case base
    then show ?case using tcp_server_start_run [OF z(1-3) n1(1)] by blast
  next
    case (step n n')
    then show ?case using srv_step_inv [OF step(2) z(4)] by blast
  qed
qed

lemma online_card: "online n = card {fd. conn_of fd n \<noteq> None}"
proof -
  have "{fd. conn_of fd n \<noteq> None} = int ` {i. i < length (conns n) \<and> conns n ! i \<noteq> None}"
  proof (intro set_eqI iffI)
    fix fd
    assume "fd \<in> {fd. conn_of fd n \<noteq> None}"
    then have "0 \<le> fd" "nat fd < length (conns n)" "conns n ! nat fd \<noteq> None" by (auto simp: conn_of_def split: if_splits)
    then show "fd \<in> int ` {i. i < length (conns n) \<and> conns n ! i \<noteq> None}" by (intro image_eqI [of _ _ "nat fd"]) auto
  qed (auto simp: conn_of_def)
  then have "card {fd. conn_of fd n \<noteq> None} = card {i. i < length (conns n) \<and> conns n ! i \<noteq> None}"
    by (simp add: card_image)
  then show ?thesis by (simp add: online_def length_filter_conv_card)
qed

section \<open>Applications\<close>

text \<open>
  What the server asks of the application it runs: its hooks and callbacks do nothing to the server but work
  through \<open>send_message\<close> and \<open>send_task\<close>. The services that use the library interpret the locale.
\<close>

locale server_app =
  fixes env :: "'u srv_env"
  assumes start_hook: "run_hook (conn_start_cb env) c n = Inr n' \<Longrightarrow> work_on {c} n n'"
    and close_hook: "c \<in> live n \<Longrightarrow> run_hook (conn_close_cb env) c n = Inr n' \<Longrightarrow> app_work n n'"
    and callbacks: "c \<in> live n \<Longrightarrow> run_msg_cb env cb data len i c a n = Inr n' \<Longrightarrow> app_work n n'"
begin

lemma app_ok: "env_ok env"
  unfolding env_ok_def using start_hook close_hook callbacks by blast

lemma reached_inv:
  assumes "net_zero n0" "0 \<le> thread_cnt" "length fds = nat thread_cnt" "srv_reached sockfd thread_cnt max_conn fds env n0 n"
  shows "srv_inv (srv_events sockfd fds) n"
  using srv_reached_inv [OF _ assms(4)] assms(1-3) app_ok by (simp add: srv_setup_def)

lemma reached_step:
  assumes "srv_reached sockfd thread_cnt max_conn fds env n0 n" and "srv_step (srv_events sockfd fds) env n n'"
  shows "srv_reached sockfd thread_cnt max_conn fds env n0 n'"
  using assms unfolding srv_reached_def by (meson rtranclp.rtrancl_into_rtrancl)

lemma reached_task:
  assumes "srv_reached sockfd thread_cnt max_conn fds env n0 n" and "send_task f a n = Inr n'"
  shows "srv_reached sockfd thread_cnt max_conn fds env n0 n'"
  using reached_step [OF assms(1) step_task [OF assms(2)]] .

lemma reached_app:
  assumes "srv_reached sockfd thread_cnt max_conn fds env n0 n"
  shows "srv_reached sockfd thread_cnt max_conn fds env n0 (n\<lparr>app := a\<rparr>)"
  using reached_step [OF assms step_app] .

text \<open>A loop runs its tasks.\<close>

lemma reached_run:
  assumes "srv_reached sockfd thread_cnt max_conn fds env n0 n" and "\<And>f a m m'. run f a m = Inr m' \<Longrightarrow> app_work m m'"
    and "execute_ready_tasks (\<lambda>n. loops n l) (set_loop l) run n = Inr n'"
  shows "srv_reached sockfd thread_cnt max_conn fds env n0 n'"
proof -
  have "task_runs run" using assms(2) unfolding task_runs_def by blast
  from reached_step [OF assms(1) step_run [OF this assms(3)]] show ?thesis .
qed

end

section \<open>Properties\<close>

text \<open>
  C2: in every state a server can get to, with any number of threads, any kernel and any application that keeps
  to its interface: the counter is the number of connections in the table, every one of them has its two
  buffers to itself, and each buffer is either given back or a well-formed buffer that is out of the pool.
\<close>

theorem server_state_ok:
  assumes "srv_setup thread_cnt fds env n0" and "srv_reached sockfd thread_cnt max_conn fds env n0 n"
  shows "curr_conns n = int (card {fd. conn_of fd n \<noteq> None}) \<and> pool_inv (net_pool n) \<and>
    (\<forall>fd c. conn_of fd n = Some c \<longrightarrow> connfd (tcps n c) = fd \<and>
       (\<exists>d e. rb_holds (net_pool n) (ibuf_of c n) d \<and> rb_holds (net_pool n) (obuf_of c n) e) \<and>
       rb_ready (net_pool n) (ibuf_of c n) \<and> (ibuf_of c n = obuf_of c n \<longrightarrow> ibuf_of c n = NULL)) \<and>
    (\<forall>fd c fd' c' p. conn_of fd n = Some c \<longrightarrow> conn_of fd' n = Some c' \<longrightarrow> fd \<noteq> fd' \<longrightarrow>
       p \<in> {ibuf_of c n, obuf_of c n} \<longrightarrow> p \<in> {ibuf_of c' n, obuf_of c' n} \<longrightarrow> p = NULL)"
proof -
  have inv: "net_inv (srv_events sockfd fds) {} (pending n) n"
    using srv_reached_inv [OF assms] by (simp add: srv_inv_def)
  have "p = NULL" if "conn_of fd n = Some c" "conn_of fd' n = Some c'" "fd \<noteq> fd'"
    "p \<in> {ibuf_of c n, obuf_of c n}" "p \<in> {ibuf_of c' n, obuf_of c' n}" for fd c fd' c' p
  proof -
    have "c \<noteq> c'" using that(1-3) conn_unique [OF inv that(1)] by blast
    moreover have "c \<in> live n" "c' \<in> live n" using that(1,2) by (auto simp: live_iff)
    ultimately show ?thesis using net_invD(5) [OF inv] that(4,5) unfolding bufs_apart_def by blast
  qed
  moreover have "connfd (tcps n c) = fd \<and>
       (\<exists>d e. rb_holds (net_pool n) (ibuf_of c n) d \<and> rb_holds (net_pool n) (obuf_of c n) e) \<and>
       rb_ready (net_pool n) (ibuf_of c n) \<and> (ibuf_of c n = obuf_of c n \<longrightarrow> ibuf_of c n = NULL)" if "conn_of fd n = Some c" for fd c
    using conn_wfD [OF net_invD(3) [OF inv that]] by auto
  ultimately show ?thesis using net_invD(1,2) [OF inv] online_card [of n] by (auto simp del: insert_iff)
qed

text \<open>
  C3: no buffer is lost. In every state a server can get to, a buffer that is out of the pool is the input or the
  output buffer of a connection of the table; so when all connections are closed the pool has all its buffers
  again.
\<close>

theorem server_no_leak:
  assumes "srv_setup thread_cnt fds env n0" and "srv_reached sockfd thread_cnt max_conn fds env n0 n"
  shows "(\<forall>x b. bufs (net_pool n) x = Some b \<longrightarrow> \<not> is_free (net_pool n) x \<longrightarrow>
      (\<exists>fd c. conn_of fd n = Some c \<and> (Ptr x = ibuf_of c n \<or> Ptr x = obuf_of c n))) \<and>
    (curr_conns n = 0 \<longrightarrow> all_free (net_pool n))"
proof -
  have inv: "net_inv (srv_events sockfd fds) {} (pending n) n"
    using srv_reached_inv [OF assms] by (simp add: srv_inv_def)
  have one: "\<exists>fd c. conn_of fd n = Some c \<and> (Ptr x = ibuf_of c n \<or> Ptr x = obuf_of c n)"
    if "bufs (net_pool n) x = Some b" "\<not> is_free (net_pool n) x" for x b
    using no_leakD [OF net_invD(11) [OF inv] that] unfolding live_iff by metis
  have "all_free (net_pool n)" if "curr_conns n = 0"
  proof -
    have "conn_of fd n = None" for fd
      using that net_invD(2) [OF inv] by (auto simp: online_def conn_of_def filter_empty_conv nat_less_iff)
    then show ?thesis using one unfolding all_free_def by (metis option.distinct(1))
  qed
  with one show ?thesis by blast
qed

text \<open>
  C4: what the kernel watches. In every state a server can get to, the loop of a connection asks epoll for
  reading, and for writing exactly if output waits in the connection's buffer; no other loop watches its
  descriptor, and no loop watches a descriptor that is neither the server's own nor in the table.
\<close>

theorem server_watches:
  assumes "srv_setup thread_cnt fds env n0" and "srv_reached sockfd thread_cnt max_conn fds env n0 n"
    and "fd \<noteq> sockfd" and "fd \<notin> set fds"
  shows "case conn_of fd n of
      None \<Rightarrow> \<forall>l. epoll_set (loops n l) fd = None
    | Some c \<Rightarrow> \<exists>e. rb_holds (net_pool n) (obuf_of c n) e \<and>
        (\<forall>l. epoll_set (loops n l) fd =
          (if l \<noteq> conn_loop (tcps n c) then None else Some (if e = [] then EPOLLIN else EPOLLIN OR EPOLLOUT)))"
proof -
  let ?E = "srv_events sockfd fds"
  have inv: "net_inv ?E {} (pending n) n" using srv_reached_inv [OF assms(1,2)] by (simp add: srv_inv_def)
  have notown: "fd \<notin> own ?E"
  proof
    assume "fd \<in> own ?E"
    then obtain l ev where "?E l fd = Some ev" by (auto simp: own_def)
    then have "0 < l \<and> l \<le> length fds \<and> fd = fds ! (l - 1)" using assms(3) by (auto simp: srv_events_def split: if_splits)
    then have "l - 1 < length fds" "fd = fds ! (l - 1)" by auto
    then show False using assms(4) nth_mem by blast
  qed
  have k: "epoll_set (loops n l) fd = map_option ev_mask (io_evs (loops n l) fd)" for l
    using net_invD(6) [OF inv] by (simp add: loop_inv_def)
  have wh: "\<exists>c. conn_of fd n = Some c \<and> conn_loop (tcps n c) = l" if "io_evs (loops n l) fd \<noteq> None" for l
    using net_invD(7) [OF inv that] notown by blast
  show ?thesis
  proof (cases "conn_of fd n")
    case None
    then have "io_evs (loops n l) fd = None" for l using wh [of l] by (metis option.distinct(1))
    with None k show ?thesis by simp
  next
    case (Some c)
    obtain ev e where e: "io_evs (loops n (conn_loop (tcps n c))) fd = Some ev" "rb_holds (net_pool n) (obuf_of c n) e"
        "ev_mask ev = (if e = [] then EPOLLIN else EPOLLIN OR EPOLLOUT)"
      using event_conn [OF inv Some] by blast
    have "io_evs (loops n l) fd = None" if "l \<noteq> conn_loop (tcps n c)" for l using wh [of l] Some that by (metis option.inject option.exhaust)
    with Some e k show ?thesis by auto
  qed
qed

text \<open>
  C30: an event on a connection's descriptor reaches that connection: in every state a server can get to, the
  loop that watches it calls \<open>conn_rd_callback\<close> (which runs \<open>do_read\<close>) for input, error or hangup, and
  \<open>conn_wt_callback\<close> for writability, which the kernel reports only if asked, with the connection object the
  table has for the descriptor; no callback is missing and none gets a connection that is gone.
\<close>

theorem server_dispatch:
  assumes "srv_setup thread_cnt fds env n0" and "srv_reached sockfd thread_cnt max_conn fds env n0 n"
    and "conn_of fd n = Some c" and "l = conn_loop (tcps n c)"
    and "events AND EPOLLOUT \<noteq> 0 \<longrightarrow> (\<exists>m. epoll_set (loops n l) fd = Some m \<and> m AND EPOLLOUT \<noteq> 0)"
  shows "dispatch_one (\<lambda>n. loops n l) sl run (fd, events) n =
      (if events AND EPOLLIN \<noteq> 0 then run conn_rd_callback fd (Some c) n
       else if events AND EPOLLOUT \<noteq> 0 then run conn_wt_callback fd (Some c) n
       else if events AND (EPOLLHUP OR EPOLLERR) \<noteq> 0 then run conn_rd_callback fd (Some c) n
       else Inr n)"
proof -
  have inv: "net_inv (srv_events sockfd fds) {} (pending n) n"
    using srv_reached_inv [OF assms(1,2)] by (simp add: srv_inv_def)
  obtain ev and e :: "u8 list" where e: "io_evs (loops n l) fd = Some ev" "ev_mask ev = (if e = [] then EPOLLIN else EPOLLIN OR EPOLLOUT)"
      "read_cb ev = Some conn_rd_callback" "rcb_args ev = Some c" "e \<noteq> [] \<longrightarrow> write_cb ev \<noteq> None"
      "write_cb ev \<noteq> None \<longrightarrow> write_cb ev = Some conn_wt_callback \<and> wcb_args ev = Some c"
    using event_conn [OF inv assms(3)] unfolding assms(4) by blast
  have "epoll_set (loops n l) fd = Some (ev_mask ev)" using net_invD(6) [OF inv, of l] e(1) by (simp add: loop_inv_def)
  then have "events AND EPOLLOUT \<noteq> 0 \<longrightarrow> write_cb ev = Some conn_wt_callback \<and> wcb_args ev = Some c"
    using assms(5) e(2,5,6) by (cases "e = []") auto
  with e(1,3,4) show ?thesis by (auto simp: dispatch_one_def call_cb_def)
qed

section \<open>A run\<close>

text \<open>A server without a thread pool accepts a connection on descriptor 7.\<close>

interpretation da: server_app demo_env
  by unfold_locales (auto simp: run_hook_def demo_env_def intro: work_none work_app [OF work_none])

definition demo_start :: "msg list net" where
  "demo_start = demo_net\<lparr>net_pool := drained_pool\<rparr>"

lemma drained_all_free: "all_free drained_pool"
  by (simp add: all_free_def drained_pool_def empty_pool_def)

lemma demo_setup: "srv_setup 0 [] demo_env demo_start"
  using da.app_ok drained_pool_inv drained_all_free by (simp add: srv_setup_def net_zero_def demo_start_def) (simp add: demo_net_def)

lemma demo_reached:
  "\<exists>n. srv_reached 3 0 10 [] demo_env demo_start n \<and> conn_of 7 n = Some 1 \<and> conn_loop (tcps n 1) = 0"
proof -
  let ?E = "srv_events 3 []"
  obtain n1 where n1: "tcp_server_start 3 0 10 [] demo_start = Inr n1" "conns n1 = replicate 15 None" "curr_conns n1 = 0"
      "queues n1 = []" "max_conns n1 = 10" "fresh_conn n1 = 1"
      "io_evs (loops n1 0) 3 = Some (own_event accept_callback None)"
    by (simp add: tcp_server_start_def conns_size_def cint_add_def in_int_def) (simp add: demo_start_def demo_net_def own_event_def add_io_event_def io_event_new_def
        event_loop_new_def Let_def split: option.splits)
  have own: "7 \<notin> own ?E" by (auto simp: own_def srv_events_def)
  have fr: "fresh_fd ?E n1 7" using own n1(2,4) by (simp add: fresh_fd_def conn_of_def pending_def)
  have li: "loop_inv (loops n1 0)"
    using tcp_server_start_run [of demo_start 0 "[]" 3 10 n1] n1(1) demo_setup net_invD(6)
    by (auto simp: srv_setup_def srv_inv_def)
  obtain n2 where n2: "tcp_conn_new demo_env 7 0 n1 = Inr (1, n2)" "conns n2 = (conns n1)[7 := Some 1]"
      "tcps n2 1 = \<lparr>connfd = 7, conn_loop = 0, ibuf = NULL, obuf = NULL\<rparr>"
    using tcp_conn_new_ok [of demo_env 7 n1 0] li n1(2,6) by (auto simp: demo_env_def)
  let ?run = "\<lambda>cb (fd :: int) (a :: addr option) m. if cb = accept_callback then do_accept demo_env [Acc 7] m else Inl Blocked"
  have acc: "do_accept demo_env [Acc 7] n1 = Inr n2"
    using n1 n2(1) by (simp add: accept_conn_def get_conn_num_def)
  have "srv_runs ?E demo_env ?run n1"
    unfolding srv_runs_def using fr by (auto intro!: call_accept [of "[Acc 7]"] split: if_splits)
  moreover have "dispatch_one (\<lambda>n. loops n 0) (set_loop 0) ?run (3, EPOLLIN) n1 = Inr n2"
    using n1(7) acc by (simp add: dispatch_one_def call_cb_def own_event_def)
  ultimately have "srv_step ?E demo_env n1 n2" by (rule step_event)
  then have "srv_reached 3 0 10 [] demo_env demo_start n2" using n1(1) by (auto simp: srv_reached_def)
  moreover have "conn_of 7 n2 = Some 1" using n2(2) n1(2) by (simp add: conn_of_def)
  ultimately show ?thesis using n2(3) by auto
qed

lemma server_state_ok_witness:
  "\<exists>n. srv_reached 3 0 10 [] demo_env demo_start n \<and> conn_of 7 n = Some 1 \<and>
     curr_conns n = int (card {fd. conn_of fd n \<noteq> None}) \<and> connfd (tcps n 1) = 7"
  using demo_reached server_state_ok [OF demo_setup] by metis

lemma server_no_leak_witness:
  "\<exists>n. srv_reached 3 0 10 [] demo_env demo_start n \<and> conn_of 7 n = Some 1 \<and>
     (\<forall>x b. bufs (net_pool n) x = Some b \<longrightarrow> \<not> is_free (net_pool n) x \<longrightarrow>
        (\<exists>fd c. conn_of fd n = Some c \<and> (Ptr x = ibuf_of c n \<or> Ptr x = obuf_of c n)))"
  using demo_reached server_no_leak [OF demo_setup] by metis

lemma server_watches_witness:
  "\<exists>n e. srv_reached 3 0 10 [] demo_env demo_start n \<and> rb_holds (net_pool n) (obuf_of 1 n) e \<and>
     epoll_set (loops n 0) 7 = Some (if e = [] then EPOLLIN else EPOLLIN OR EPOLLOUT)"
proof -
  obtain n where n: "srv_reached 3 0 10 [] demo_env demo_start n" "conn_of 7 n = Some 1" "conn_loop (tcps n 1) = 0"
    using demo_reached by blast
  from server_watches [OF demo_setup n(1), of 7] n obtain e where "rb_holds (net_pool n) (obuf_of 1 n) e"
      "epoll_set (loops n 0) 7 = Some (if e = [] then EPOLLIN else EPOLLIN OR EPOLLOUT)"
    by auto
  with n(1) show ?thesis by blast
qed

lemma server_dispatch_witness:
  "\<exists>n. srv_reached 3 0 10 [] demo_env demo_start n \<and>
     dispatch_one (\<lambda>n. loops n 0) (set_loop 0) (\<lambda>cb fd a n. do_read demo_env 1 None [] n) (7, EPOLLIN) n =
       do_read demo_env 1 None [] n"
proof -
  obtain n where n: "srv_reached 3 0 10 [] demo_env demo_start n" "conn_of 7 n = Some 1" "conn_loop (tcps n 1) = 0"
    using demo_reached by blast
  from server_dispatch [OF demo_setup n(1,2) n(3) [symmetric], of EPOLLIN] n(1) show ?thesis by auto
qed

end
