(* ===== verification/Conn_Fds.thy ===== *)
theory Conn_Fds
  imports Server_Run
begin

text \<open>
  Which descriptors have ever had a connection. A \<open>tcp_conn\<close> keeps the descriptor it was made for, and writing
  \<open>conns[fd]\<close> is for the connections of \<open>fd\<close> alone; what the server itself listens to, its socket and the
  eventfds of its queues, never becomes a connection's.
\<close>

definition made_fds :: "'u net \<Rightarrow> int set" where
  "made_fds n = (\<lambda>c. connfd (tcps n c)) ` {c. c < fresh_conn n}"

text \<open>No connection is made and none changes its descriptor.\<close>

definition fds_kept :: "'u net \<Rightarrow> 'u net \<Rightarrow> bool" where
  "fds_kept n n' \<longleftrightarrow> fresh_conn n' = fresh_conn n \<and> (\<forall>c. connfd (tcps n' c) = connfd (tcps n c))"

lemma fds_kept_refl [simp]: "fds_kept n n"
  by (simp add: fds_kept_def)

lemma fds_kept_trans: "fds_kept n m \<Longrightarrow> fds_kept m k \<Longrightarrow> fds_kept n k"
  by (simp add: fds_kept_def)

lemma fds_kept_made: "fds_kept n n' \<Longrightarrow> made_fds n' = made_fds n"
  by (simp add: fds_kept_def made_fds_def)

lemma fds_kept_simps [simp]:
  "fds_kept n (put_ibuf c p s m) = fds_kept n m" "fds_kept n (put_obuf c p s m) = fds_kept n m" "fds_kept n (upd_loop l f m) = fds_kept n m"
  "fds_kept n (m\<lparr>app := a\<rparr>) = fds_kept n m" "fds_kept n (m\<lparr>queues := q\<rparr>) = fds_kept n m" "fds_kept n (m\<lparr>tp_index := k\<rparr>) = fds_kept n m"
  "fds_kept n (close_fd fd m) = fds_kept n m" "fds_kept n (m\<lparr>conns := t, curr_conns := k\<rparr>) = fds_kept n m"
  by (auto simp: fds_kept_def put_ibuf_def put_obuf_def upd_conn_def close_fd_def)

section \<open>The operations on buffers\<close>

text \<open>Whatever storing a buffer, the callback and the cleaning keep, reading keeps; so with sending.\<close>

lemma frame_loop_keeps:
  assumes "\<And>p s w. K w \<Longrightarrow> K (put_buf p s w)" and "\<And>i len d w w'. call i len d w = Inr w' \<Longrightarrow> K w \<Longrightarrow> K w'"
    and "\<And>w w'. clean_up w = Inr w' \<Longrightarrow> K w \<Longrightarrow> K w'"
  shows "frame_loop fuel buf_of pool_of put_buf call clean_up w = Inr w' \<Longrightarrow> K w \<Longrightarrow> K w'"
proof (induction fuel arbitrary: w)
  case 0
  then show ?case by (subst (asm) frame_loop.simps) (auto simp: rbind_eq_Inr Let_def split: if_splits option.splits intro: assms(3))
next
  case (Suc fuel)
  have pop: "K u'" if "w_pop buf_of pool_of put_buf k u = Inr u'" "K u" for k u u' using that assms(1) by (auto simp: w_pop_def rbind_eq_Inr)
  obtain len where len: "rb_length (buf_of w) (pool_of w) = Inr len" using Suc.prems(1) by (subst (asm) frame_loop.simps) (cases "rb_length (buf_of w) (pool_of w)"; simp)
  show ?case
  proof (cases "MESSAGE_HEAD_LEN \<le> len")
    case True
    then obtain bs where bs: "rb_data (buf_of w) (pool_of w) = Inr (Some bs)"
      using Suc.prems(1) len by (subst (asm) frame_loop.simps) (cases "rb_data (buf_of w) (pool_of w)"; simp split: option.splits)
    let ?h = "decode_head bs"
    note unf = Suc.prems(1) [unfolded frame_loop.simps [of "Suc fuel"] len rbind_Inr, unfolded bs rbind_Inr Let_def option.case nat.case, simplified True if_True not_True_eq_False if_False]
    consider "clean_up w = Inr w'" | "w' = w"
      | w1 dat w2 w3 where "w_pop buf_of pool_of put_buf MESSAGE_HEAD_LEN w = Inr w1"
          "call (msgid ?h) (msglen ?h) (map_option (take (nat (msglen ?h))) dat) w1 = Inr w2"
          "w_pop buf_of pool_of put_buf (msglen ?h) w2 = Inr w3" "frame_loop fuel buf_of pool_of put_buf call clean_up w3 = Inr w'"
    proof (cases "bad_head ?h \<or> len < MESSAGE_HEAD_LEN + msglen ?h")
      case True
      then show thesis using unf that(1,2) by (auto split: if_splits)
    next
      case False
      then have "\<exists>w1 dat w2 w3. w_pop buf_of pool_of put_buf MESSAGE_HEAD_LEN w = Inr w1 \<and>
          call (msgid ?h) (msglen ?h) (map_option (take (nat (msglen ?h))) dat) w1 = Inr w2 \<and>
          w_pop buf_of pool_of put_buf (msglen ?h) w2 = Inr w3 \<and> frame_loop fuel buf_of pool_of put_buf call clean_up w3 = Inr w'"
        using unf by (simp only: de_Morgan_disj if_False rbind_eq_Inr) blast
      then show thesis using that(3) by blast
    qed
    then show ?thesis
    proof cases
      case 1
      then show ?thesis using assms(3) Suc.prems(2) by blast
    next
      case 3
      have "K w3" using pop [OF 3(3) assms(2) [OF 3(2) pop [OF 3(1) Suc.prems(2)]]] .
      then show ?thesis using Suc.IH 3(4) by blast
    qed (use Suc.prems(2) in simp)
  next
    case False
    then show ?thesis using Suc.prems len by (subst (asm) frame_loop.simps) simp
  qed
qed

lemma read_frames_keeps:
  assumes "\<And>p s w. K w \<Longrightarrow> K (put_buf p s w)" and "\<And>i len d w w'. call i len d w = Inr w' \<Longrightarrow> K w \<Longrightarrow> K w'"
    and "\<And>w w'. clean_up w = Inr w' \<Longrightarrow> K w \<Longrightarrow> K w'"
    and run: "read_frames fuel buf_of pool_of put_buf call clean_up fionread rs w = Inr w'" and "K w"
  shows "K w'"
proof -
  obtain ret x p s where "read_data fionread rs (buf_of w) (pool_of w) = Inr (ret, x, p, s)"
    using run by (auto simp: read_frames_def rbind_eq_Inr)
  then consider "clean_up (put_buf p s w) = Inr w'"
    | w2 w3 s' where "(if ret = 0 then clean_up (put_buf p s w) else Inr (put_buf p s w)) = Inr w2"
        "frame_loop fuel buf_of pool_of put_buf call clean_up w2 = Inr w3" "w' = put_buf (buf_of w3) s' w3"
    using run by (auto simp: read_frames_def rbind_eq_Inr Let_def split: if_splits)
  then show ?thesis
  proof cases
    case 1
    then show ?thesis using assms(1,3,5) by blast
  next
    case 2
    have "K w2" using 2(1) assms(1,3,5) by (auto split: if_splits)
    moreover have "K w2 \<Longrightarrow> K w3"
      by (rule frame_loop_keeps [where K = K and put_buf = put_buf and call = call and clean_up = clean_up, OF _ _ _ 2(2)])
        (erule assms(1) | erule (1) assms(2) | erule (1) assms(3))+
    ultimately show ?thesis using 2(3) assms(1) by blast
  qed
qed

lemma send_message_fds: "send_message c data i n = Inr (r, n') \<Longrightarrow> fds_kept n n'"
  by (auto simp: send_message_def send_framed_def w_pop_def rbind_eq_Inr Let_def split: if_splits)

lemma send_task_fds: "send_task f a n = Inr n' \<Longrightarrow> fds_kept n n'"
  using send_task_queues by fastforce

lemma work_fds: "work_on C n n' \<Longrightarrow> fds_kept n n'"
  by (induction rule: work_on.induct) (auto dest: send_message_fds send_task_fds intro: fds_kept_trans)

section \<open>The server\<close>

text \<open>An application none of whose hooks and callbacks makes a connection, whichever connection they are given.\<close>

locale fds_app =
  fixes env :: "'u srv_env"
  assumes start_fds: "run_hook (conn_start_cb env) c n = Inr n' \<Longrightarrow> fds_kept n n'"
    and close_fds: "run_hook (conn_close_cb env) c n = Inr n' \<Longrightarrow> fds_kept n n'"
    and msg_fds: "run_msg_cb env cb data len i c a n = Inr n' \<Longrightarrow> fds_kept n n'"
begin

lemma clean_conn_fds:
  assumes "clean_conn env c n = Inr n'"
  shows "fds_kept n n'"
proof -
  obtain n1 where n1: "run_hook (conn_close_cb env) c n = Inr n1" using assms by (auto simp: clean_conn_def rbind_eq_Inr)
  then have "fds_kept n1 n'"
    using assms by (auto simp: clean_conn_def clean_buf_def decrease_conn_def rbind_eq_Inr Let_def split: if_splits)
  with close_fds [OF n1] show ?thesis by (rule fds_kept_trans)
qed

lemma do_read_fds:
  assumes "do_read env c fionread rs n = Inr n'"
  shows "fds_kept n n'"
proof (rule read_frames_keeps [OF _ _ _ assms [unfolded do_read_def], where K = "fds_kept n"])
  fix i len d w w' assume "conn_msg_call env c i len d w = Inr w'" "fds_kept n w"
  then show "fds_kept n w'"
    using fds_kept_trans [OF _ msg_fds] by (auto simp: conn_msg_call_def router_call_def split: option.splits)
next
  fix w w' assume "clean_conn env c w = Inr w'" "fds_kept n w"
  then show "fds_kept n w'" using fds_kept_trans clean_conn_fds by blast
qed simp_all

lemma do_write_fds: "do_write env c ws n = Inr n' \<Longrightarrow> fds_kept n n'"
proof (induction "length ws" arbitrary: ws n rule: less_induct)
  case less
  obtain len where len: "rb_length (obuf_of c n) (net_pool n) = Inr len"
    using less.prems by (subst (asm) do_write.simps) (auto split: sum.splits)
  show ?case
  proof (cases "len = 0")
    case True
    then show ?thesis using less.prems len by (subst (asm) do_write.simps) simp
  next
    case False
    then obtain k ws' s where w2: "write2fd ws (obuf_of c n) (net_pool n) = Inr (k, ws', s)"
      using less.prems len by (subst (asm) do_write.simps) (auto split: sum.splits)
    let ?n1 = "put_obuf c (obuf_of c n) s n"
    let ?n2 = "upd_loop (conn_loop (tcps ?n1 c)) (del_io_event_mask True (connfd (tcps ?n1 c)) EPOLLOUT) ?n1"
    consider "clean_conn env c ?n1 = Inr n'" | "n' = ?n1" | m where "do_write env c ws' m = Inr n'" "m = ?n1 \<or> m = ?n2"
    proof (cases "k = - 1 \<or> k = 0")
      case True
      then show thesis using less.prems len False w2 that(1,2) by (subst (asm) do_write.simps) (auto simp: Let_def)
    next
      case k: False
      obtain len' where len': "rb_length (obuf_of c ?n1) (net_pool ?n1) = Inr len'"
        using less.prems len False w2 k by (subst (asm) do_write.simps) (simp add: Let_def split: sum.splits)
      have "do_write env c ws' (if len' = 0 then ?n2 else ?n1) = Inr n'"
        using less.prems len False w2 k len' by (subst (asm) do_write.simps) (simp add: Let_def)
      then show thesis using that(3) by (cases "len' = 0") auto
    qed
    then show ?thesis
    proof cases
      case 1
      from clean_conn_fds [OF this] show ?thesis by (rule fds_kept_trans [rotated]) simp
    next
      case 3
      have "fds_kept n m" using 3(2) by auto
      with less.hyps [OF write2fd_shorter [OF w2] 3(1)] show ?thesis using fds_kept_trans by blast
    qed simp
  qed
qed

lemma tcp_conn_new_fds:
  assumes "tcp_conn_new env fd l n = Inr (c, n')"
  shows "made_fds n' = insert fd (made_fds n)"
proof -
  let ?c = "fresh_conn n"
  let ?n0 = "n\<lparr>fresh_conn := Suc ?c, tcps := (tcps n)(?c := \<lparr>connfd = fd, conn_loop = l, ibuf = NULL, obuf = NULL\<rparr>)\<rparr>"
  obtain n1 where n1: "run_hook (conn_start_cb env) ?c ?n0 = Inr n1" using assms by (auto simp: tcp_conn_new_def Let_def rbind_eq_Inr)
  then have "fds_kept n1 n'" using assms by (auto simp: tcp_conn_new_def Let_def rbind_eq_Inr increase_conn_def split: if_splits)
  then have "made_fds n' = made_fds ?n0" using fds_kept_made start_fds [OF n1] by metis
  also have "made_fds ?n0 = insert fd (made_fds n)"
  proof -
    have "{c. c < Suc ?c} = insert ?c {c. c < ?c}" by auto
    then show ?thesis by (simp add: made_fds_def)
  qed
  finally show ?thesis .
qed

lemma deal_all_fds: "deal_all env l ts n = Inr n' \<Longrightarrow> made_fds n' = made_fds n \<union> set (conn_fds ts)"
proof (induction ts arbitrary: n)
  case (Cons t ts)
  obtain n1 where n1: "deal_one env l t n = Inr n1" "deal_all env l ts n1 = Inr n'" using Cons.prems by (auto simp: rbind_eq_Inr)
  have "made_fds n1 = made_fds n \<union> set (conn_fds [t])"
    using n1(1) by (cases t) (auto simp: deal_one_def rbind_eq_Inr made_fds_def dest!: tcp_conn_new_fds)
  with Cons.IH [OF n1(2)] show ?case by (cases t) auto
qed simp

lemma do_accept_fds: "do_accept env as n = Inr n' \<Longrightarrow> made_fds n' \<subseteq> made_fds n \<union> {fd. Acc fd \<in> set as}"
proof (induction "as")
  case (Cons x "as")
  show ?case
  proof (cases x)
    case (Acc fd)
    have "made_fds n' \<subseteq> insert fd (made_fds n)"
      using Cons.prems Acc
      by (auto simp: accept_conn_def rbind_eq_Inr get_thread_def send_to_def Let_def made_fds_def close_fd_def split: if_splits
        dest!: tcp_conn_new_fds)
    then show ?thesis using Acc by auto
  qed (use Cons in auto)
qed simp

text \<open>A callback makes connections for descriptors that the server does not listen to itself.\<close>

lemma srv_call_fds:
  assumes "srv_call E env cb a n n'" and inv: "srv_inv E n" and good: "good_call n cb a"
  shows "made_fds n' \<inter> own E \<subseteq> made_fds n"
  using assms(1)
proof cases
  case (call_read c fionread rs)
  then show ?thesis using fds_kept_made [OF do_read_fds] by auto
next
  case (call_write c e ws)
  then show ?thesis using fds_kept_made [OF do_write_fds] by auto
next
  case (call_accept as)
  then show ?thesis using do_accept_fds by (fastforce simp: fresh_fd_def)
next
  case (call_deal i)
  then have i: "i < length (queues n)" using good by (simp add: good_call_def)
  let ?q = "queues n ! i"
  let ?n1 = "n\<lparr>queues := (queues n)[i := snd (recv ?q)]\<rparr>"
  have "deal_all env (Suc i) (q_items ?q) ?n1 = Inr n'" using call_deal by (simp add: deal_task_def recv_def)
  from deal_all_fds [OF this] have "made_fds n' = made_fds n \<union> set (conn_fds (q_items ?q))" by (simp add: made_fds_def)
  moreover have "set (conn_fds (q_items ?q)) \<subseteq> set (pending n)" using nth_mem [OF i] unfolding pending_def set_concat set_map by blast
  ultimately show ?thesis using net_invD(9) [OF inv [unfolded srv_inv_def]] by auto
qed

lemma dispatch_fds:
  assumes inv: "srv_inv (srv_events sockfd fds) n" and q: "length (queues n) = length fds"
    and run: "srv_runs (srv_events sockfd fds) env run n"
    and d: "dispatch_one (\<lambda>n. loops n l) (set_loop l) run fired n = Inr n'"
  shows "made_fds n' \<inter> own (srv_events sockfd fds) \<subseteq> made_fds n"
proof -
  obtain fd events where f: "fired = (fd, events)" by (cases fired)
  obtain ev where ev: "io_evs (loops n l) fd = Some ev" using d f by (auto simp: dispatch_one_def split: option.splits)
  note good = event_good [OF inv q ev]
  have called: ?thesis if calls: "call_cb run cb fd a n = Inr n'" and ok: "\<And>c. cb = Some c \<Longrightarrow> good_call n c a" for cb a
  proof -
    obtain c where c: "cb = Some c" "run c fd a n = Inr n'" using calls by (auto simp: call_cb_def split: option.splits)
    then have "srv_call (srv_events sockfd fds) env c a n n'" using run unfolding srv_runs_def by blast
    from srv_call_fds [OF this inv ok [OF c(1)]] show ?thesis .
  qed
  have "call_cb run (read_cb ev) fd (rcb_args ev) n = Inr n' \<or> call_cb run (write_cb ev) fd (wcb_args ev) n = Inr n' \<or> n' = n"
    using d ev good(3) unfolding f dispatch_one_def by (auto split: if_splits)
  then show ?thesis using called good(1,2) by auto
qed

lemma srv_step_fds:
  assumes "srv_step (srv_events sockfd fds) env n n'" and inv: "srv_inv (srv_events sockfd fds) n" and q: "length (queues n) = length fds"
  shows "made_fds n' \<inter> own (srv_events sockfd fds) \<subseteq> made_fds n"
  using assms(1)
proof cases
  case (step_event run l fired)
  from dispatch_fds [OF inv q step_event] show ?thesis .
next
  case (step_task f a)
  from fds_kept_made [OF send_task_fds [OF step_task]] show ?thesis by simp
next
  case (step_app a)
  then show ?thesis by (simp add: made_fds_def)
next
  case (step_run run l)
  then obtain m where m: "run_tasks (task_cap (loops n l)) (\<lambda>n. loops n l) run 0 n = Inr m"
      "n' = set_loop l (loops m l\<lparr>ready_tasks := []\<rparr>) m"
    by (auto simp: execute_ready_tasks_def rbind_eq_Inr)
  have "same_table n m" using run_tasks_inv [OF step_run(1) m(1) inv [unfolded srv_inv_def]] by blast
  then show ?thesis by (auto simp: m(2) set_loop_def same_table_def made_fds_def)
qed

text \<open>From the constructor on, with no \<open>tcp_conn\<close> made before it.\<close>

lemma reached_fds:
  assumes st: "srv_setup thread_cnt fds env n0" and new: "fresh_conn n0 = 0"
    and "srv_reached sockfd thread_cnt max_conn fds env n0 n"
  shows "made_fds n \<inter> own (srv_events sockfd fds) = {}"
proof -
  obtain n1 where n1: "tcp_server_start sockfd thread_cnt max_conn fds n0 = Inr n1" "rtranclp (srv_step (srv_events sockfd fds) env) n1 n"
    using assms(3) by (auto simp: srv_reached_def)
  have th: "start_threads gs m = Inr m' \<Longrightarrow> fresh_conn m' = fresh_conn m" for gs and m m' :: "'u net"
  proof (induction gs arbitrary: m)
    case (Cons g gs)
    then show ?case by (auto simp: rbind_eq_Inr thread_main_def Let_def dest!: Cons.IH)
  qed simp
  have "fresh_conn n1 = 0"
    using n1(1) new by (auto simp: tcp_server_start_def rbind_eq_Inr Let_def thread_pool_new_def split: if_splits dest!: th)
  then have base: "made_fds n1 = {}" by (simp add: made_fds_def)
  from n1(2) show ?thesis
  proof induction
    case (step m m')
    then have "srv_reached sockfd thread_cnt max_conn fds env n0 m" using n1(1) by (auto simp: srv_reached_def)
    with srv_step_fds [OF step(2)] srv_reached_inv [OF st this] step.IH show ?case by blast
  qed (simp add: base)
qed

end

end
