(* ===== verification/Dns_Server.thy ===== *)
theory Dns_Server
  imports Server_Run Dns_Service
begin

text \<open>
  The DNS service as an application of the TCP server: its hooks, its request handler and its push task keep to
  what \<open>Server_Run\<close> asks of an application, so the server below it is always in order.
\<close>

lemma app_work_upd: "app_work n m \<Longrightarrow> app_work n (upd_app f m)"
  unfolding upd_app_def by (rule work_app)

lemma live_upd_app [simp]: "live (upd_app f n) = live n"
  by (simp add: live_def conn_of_def)

lemma send_after:
  assumes "c \<in> live n" and "rbind (send_message c data i (upd_app f n)) (\<lambda>(_, n2). Inr n2) = Inr n'"
  shows "app_work n n'"
proof -
  obtain k where "send_message c data i (upd_app f n) = Inr (k, n')" using assms(2) by (auto simp: rbind_eq_Inr)
  from work_send [OF app_work_upd [OF work_none] _ this] assms(1) show ?thesis by simp
qed

lemma upd_app_id: "upd_app (\<lambda>d. d) n = n"
  by (simp add: upd_app_def)

lemma get_route_work:
  assumes "c \<in> live n" and run: "get_route pb data len c n = Inr n'"
  shows "app_work n n'"
proof -
  obtain modid cmdid where req: "parse_request pb data len = (modid, cmdid)" by (cases "parse_request pb data len")
  let ?m = "mk_key modid cmdid"
  show ?thesis
  proof (cases "\<exists>sl. sub_lists (app n) c = Some sl \<and> ?m \<notin> set sl")
    case True
    then obtain sl where "sub_lists (app n) c = Some sl" "?m \<notin> set sl" by blast
    then show ?thesis using run unfolding get_route_def req Let_def by (auto intro: send_after [OF assms(1)])
  next
    case False
    then have "(case sub_lists (app n) c of None \<Rightarrow> n
        | Some sl \<Rightarrow> if ?m \<in> set sl then n
            else upd_app (\<lambda>d. subcribe ?m (connfd (tcps n c)) (d\<lparr>sub_lists := (sub_lists d)(c \<mapsto> set_insert ?m sl)\<rparr>)) n) = n"
      by (auto split: option.splits)
    then have "rbind (send_message c (response_bytes pb (make_response modid cmdid (the_route (app n)))) (ID_GetRouteResponse pb)
        (upd_app (\<lambda>d. d) n)) (\<lambda>(_, n2). Inr n2) = Inr n'"
      using run unfolding get_route_def req Let_def upd_app_id by simp
    then show ?thesis by (rule send_after [OF assms(1)])
  qed
qed

interpretation ds: server_app "dns_env pb" for pb
proof unfold_locales
  fix c and n n' :: dns
  show "run_hook (conn_start_cb (dns_env pb)) c n = Inr n' \<Longrightarrow> work_on {c} n n'"
    by (auto simp: run_hook_def dns_env_def create_subscribe_def upd_app_def intro: work_app [OF work_none])
  show "run_hook (conn_close_cb (dns_env pb)) c n = Inr n' \<Longrightarrow> app_work n n'"
    by (auto simp: run_hook_def dns_env_def clear_subscribe_def upd_app_def split: option.splits intro: work_app [OF work_none])
next
  fix cb data len i c a and n n' :: dns
  show "c \<in> live n \<Longrightarrow> run_msg_cb (dns_env pb) cb data len i c a n = Inr n' \<Longrightarrow> app_work n n'"
    using get_route_work by (simp add: dns_env_def)
qed

lemma push_one_work:
  assumes "push_one pb fd m n = Inr n'"
  shows "app_work n n'"
proof -
  have b: "0 \<le> fd" "fd < int (length (conns n))" using assms by (auto simp: push_one_def Let_def split: if_splits)
  obtain n1 where n1: "(case conns n ! nat fd of None \<Rightarrow> Inr n
      | Some c \<Rightarrow> rbind (send_message c (response_bytes pb (make_response (key_hi m) (key_lo m) (the_route (app n)))) (ID_GetRouteResponse pb) n)
          (\<lambda>(_, n1). Inr n1)) = Inr n1"
      "n' = upd_app (\<lambda>d. d\<lparr>push_list := AList.delete fd (push_list d)\<rparr>) n1"
    using assms b by (auto simp: push_one_def Let_def rbind_eq_Inr split: option.splits)
  have "app_work n n1"
  proof (cases "conns n ! nat fd")
    case None
    then show ?thesis using n1(1) work_none by simp
  next
    case (Some c)
    then have "c \<in> live n" using b by (auto simp: live_iff conn_of_def intro!: exI [of _ fd])
    from send_after [OF this, of _ _ "\<lambda>d. d"] n1(1) Some show ?thesis unfolding upd_app_id by simp
  qed
  then show ?thesis unfolding n1(2) by (rule app_work_upd)
qed

lemma push_mods_work: "push_mods pb fd ms n = Inr n' \<Longrightarrow> app_work n n'"
proof (induction ms arbitrary: n)
  case (Cons m ms)
  then obtain n1 where "push_one pb fd m n = Inr n1" "push_mods pb fd ms n1 = Inr n'" by (auto simp: rbind_eq_Inr)
  with Cons.IH work_trans push_one_work show ?case by blast
qed (simp add: work_none)

lemma push_all_work: "push_all pb need n = Inr n' \<Longrightarrow> app_work n n'"
proof (induction need arbitrary: n)
  case (Cons p need)
  obtain fd ms where p: "p = (fd, ms)" by (cases p)
  from Cons.prems obtain n1 where "push_mods pb fd ms n = Inr n1" "push_all pb need n1 = Inr n'" by (auto simp: p rbind_eq_Inr)
  with Cons.IH work_trans push_mods_work show ?case by blast
qed (simp add: work_none)

lemma push_task_work: "push_change_task pb l n = Inr n' \<Longrightarrow> app_work n n'"
  unfolding push_change_task_def by (rule push_all_work)

section \<open>The running service\<close>

text \<open>
  C28: the whole DNS service. From the constructor of its server on, while agents connect, ask, stop reading and
  disconnect in any order, and while changes of routes are published and every thread runs its push task,
  the server's invariant holds: the counter, the table, the buffers and what epoll watches fit together.
\<close>

theorem dns_server_ok:
  assumes "net_zero n0" and "0 \<le> thread_cnt" and "length fds = nat thread_cnt"
    and "srv_reached sockfd thread_cnt max_conn fds (dns_env pb) n0 n"
  shows "srv_inv (srv_events sockfd fds) n \<and>
    (\<forall>mods n'. publish mods n = Inr n' \<longrightarrow> srv_reached sockfd thread_cnt max_conn fds (dns_env pb) n0 n') \<and>
    (\<forall>l n'. execute_ready_tasks (\<lambda>n. loops n l) (set_loop l) (\<lambda>f a. push_change_task pb l) n = Inr n' \<longrightarrow>
       srv_reached sockfd thread_cnt max_conn fds (dns_env pb) n0 n')"
proof -
  let ?reached = "srv_reached sockfd thread_cnt max_conn fds (dns_env pb) n0"
  have "?reached n'" if pub: "publish mods n = Inr n'" for mods n'
  proof -
    have "send_task push_change_task_id (Some 0) (upd_app (fold mark_changed mods) n) = Inr n'"
      using pub by (auto simp: publish_def Let_def split: if_splits)
    then show ?thesis using ds.reached_task ds.reached_app [OF assms(4)] unfolding upd_app_def by blast
  qed
  moreover have "?reached n'"
    if "execute_ready_tasks (\<lambda>n. loops n l) (set_loop l) (\<lambda>f a. push_change_task pb l) n = Inr n'" for l n'
    using ds.reached_run [OF assms(4) push_task_work that] .
  ultimately show ?thesis using ds.reached_inv [OF assms] by blast
qed

text \<open>One thread, and a change of the module \<open>1/2\<close> published to it before anybody has asked for it.\<close>

definition demo_zero :: dns where
  "demo_zero = demo_dns\<lparr>loops := (\<lambda>_. event_loop_new), queues := [], net_pool := drained_pool\<rparr>"

lemma dns_server_ok_witness:
  "\<exists>n n'. srv_reached 3 1 10 [8] (dns_env demo_proto) demo_zero n \<and> publish [mk_key 1 2] n = Inr n' \<and>
     srv_reached 3 1 10 [8] (dns_env demo_proto) demo_zero n' \<and> srv_inv (srv_events 3 [8]) n"
proof -
  have zero: "net_zero demo_zero" using drained_pool_inv drained_all_free by (simp add: net_zero_def demo_zero_def)
  obtain n where n: "tcp_server_start 3 1 10 [8] demo_zero = Inr n" "queues n = [\<lparr>evfd = 8, ev_counter = 0, q_items = [], q_loop = Some 1\<rparr>]"
    by (simp add: tcp_server_start_def conns_size_def cint_add_def in_int_def thread_pool_new_def thread_queue_new_def thread_main_def set_queue_loop_def Let_def)
  then have r: "srv_reached 3 1 10 [8] (dns_env demo_proto) demo_zero n" by (auto simp: srv_reached_def)
  obtain n' where "publish [mk_key 1 2] n = Inr n'" by (auto simp: publish_def n(2) send_task_def send_to_def send_def)
  with r dns_server_ok [OF zero _ _ r] show ?thesis by auto
qed

end
