(* ===== verification/Reporter.thy ===== *)
theory Reporter
  imports Load_Balance
begin

text \<open>
  The reporter (\<open>lars_reporters/src/reporter_service.cpp\<close>, \<open>store_report.cpp\<close>, \<open>store_thread.cpp\<close>): it stores what
  the agents report about their calls. A request is stored once by the thread that receives it and queued
  for one of the storing threads, which stores it again. The table is keyed by the columns the statement
  does not update; \<open>query_ok\<close> says which of a request's queries the database accepts.
\<close>

type_synonym call_key = "i32 \<times> i32 \<times> u32 \<times> u32 \<times> u32"     \<comment> \<open>modid, cmdid, ip, port, caller\<close>
type_synonym call_row = "u32 \<times> u32 \<times> u32 \<times> bool"           \<comment> \<open>succ_cnt, err_cnt, ts, overload\<close>
type_synonym call_table = "call_key \<Rightarrow> call_row option"

definition result_row :: "status_request \<Rightarrow> call_result \<Rightarrow> call_key \<times> call_row" where
  "result_row req r =
     ((sr_modid req, sr_cmdid req, cr_ip r, cr_port r, sr_caller req), (cr_succ r, cr_err r, sr_ts req, cr_overload r))"

fun store_results :: "(nat \<Rightarrow> bool) \<Rightarrow> nat \<Rightarrow> (call_key \<times> call_row) list \<Rightarrow> call_table \<Rightarrow> call_table" where
  "store_results query_ok i [] t = t"
| "store_results query_ok i ((k, row) # rs) t =
     store_results query_ok (Suc i) rs (if query_ok i then t(k \<mapsto> row) else t)"

definition store_report :: "(nat \<Rightarrow> bool) \<Rightarrow> status_request \<Rightarrow> call_table \<Rightarrow> call_table" where
  "store_report query_ok req t = store_results query_ok 0 (map (result_row req) (sr_results req)) t"

text \<open>
  \<open>report_index\<close> is the static variable of \<open>get_report_status\<close>; \<open>db_open\<close> counts the connections to the database
  that the process has open.
\<close>

record reporter =
  call_status :: call_table
  reportQueues :: "status_request tqueue list"
  report_index :: int
  db_open :: nat

fun create_queues :: "int list \<Rightarrow> status_request tqueue list res" where
  "create_queues [] = Inr []"
| "create_queues (fd # fds) = rbind (thread_queue_new fd) (\<lambda>q. rbind (create_queues fds) (\<lambda>qs. Inr (q # qs)))"

definition create_reportdb_threads :: "nat \<Rightarrow> int list \<Rightarrow> reporter \<Rightarrow> reporter res" where
  "create_reportdb_threads thread_cnt fds s =
     rbind (create_queues (take thread_cnt fds)) (\<lambda>qs. Inr (s\<lparr>reportQueues := qs\<rparr>))"

text \<open>
  The constructor of \<open>StoreReport\<close> connects to the database: \<open>db_accepts k\<close> says whether it takes another connection
  when \<open>k\<close> are open. The class has no destructor and nothing calls \<open>mysql_close\<close>.
\<close>

definition StoreReport_new :: "(nat \<Rightarrow> bool) \<Rightarrow> reporter \<Rightarrow> reporter res" where
  "StoreReport_new db_accepts s = (if db_accepts (db_open s) then Inr (s\<lparr>db_open := Suc (db_open s)\<rparr>) else Inl (Exit 1))"

text \<open>
  The handler stores the request with a \<open>StoreReport\<close> of its own and queues it. The index is incremented in one
  statement and wrapped in the next, both without a lock.
\<close>

definition enqueue_report :: "status_request \<Rightarrow> reporter \<Rightarrow> reporter res" where
  "enqueue_report req s =
     (if report_index s < 0 \<or> int (length (reportQueues s)) \<le> report_index s then Inl OutOfBounds
      else rbind (send req (reportQueues s ! nat (report_index s))) (\<lambda>q.
        Inr (s\<lparr>reportQueues := (reportQueues s)[nat (report_index s) := q]\<rparr>)))"

definition next_index :: "reporter \<Rightarrow> reporter" where
  "next_index s = s\<lparr>report_index := report_index s + 1\<rparr>"

definition wrap_index :: "reporter \<Rightarrow> reporter" where
  "wrap_index s = s\<lparr>report_index := c_rem (report_index s) (int (length (reportQueues s)))\<rparr>"

definition get_report_status ::
  "(nat \<Rightarrow> bool) \<Rightarrow> (nat \<Rightarrow> bool) \<Rightarrow> (u8 list option \<Rightarrow> int \<Rightarrow> status_request) \<Rightarrow> u8 list option \<Rightarrow> int \<Rightarrow> reporter \<Rightarrow> reporter res" where
  "get_report_status db_accepts query_ok parse_req data len s =
     (let req = parse_req data len
      in rbind (StoreReport_new db_accepts s) (\<lambda>s1.
         rbind (enqueue_report req (s1\<lparr>call_status := store_report query_ok req (call_status s1)\<rparr>)) (\<lambda>s2.
           Inr (wrap_index (next_index s2)))))"

text \<open>A storing thread empties its queue.\<close>

definition thread_report :: "(nat \<Rightarrow> bool) \<Rightarrow> nat \<Rightarrow> reporter \<Rightarrow> reporter" where
  "thread_report query_ok i s =
     (let (report_msgs, q) = recv (reportQueues s ! i)
      in s\<lparr>reportQueues := (reportQueues s)[i := q], call_status := fold (store_report query_ok) report_msgs (call_status s)\<rparr>)"

section \<open>Lemmas\<close>

lemma store_results_all:
  "store_results (\<lambda>_. True) i rs t = t ++ map_of (rev rs)"
  by (induction rs arbitrary: i t) auto

lemma store_report_all: "store_report (\<lambda>_. True) req t = t ++ map_of (rev (map (result_row req) (sr_results req)))"
  by (simp add: store_report_def store_results_all)

lemma map_of_rev: "distinct (map fst xs) \<Longrightarrow> (k, v) \<in> set xs \<Longrightarrow> map_of (rev xs) k = Some v"
  by (rule map_of_is_SomeI) (simp_all add: rev_map [symmetric])

lemma store_twice: "store_report (\<lambda>_. True) req (store_report (\<lambda>_. True) req t) = store_report (\<lambda>_. True) req t"
  by (simp add: store_report_all map_add_def fun_eq_iff split: option.split)

definition rep_ok :: "reporter \<Rightarrow> bool" where
  "rep_ok s \<longleftrightarrow> reportQueues s \<noteq> [] \<and> 0 \<le> report_index s \<and> report_index s < int (length (reportQueues s)) \<and>
     (\<forall>q \<in> set (reportQueues s). ev_counter q + 2 < 18446744073709551614)"

lemma get_report_ok:
  assumes "reportQueues s \<noteq> []" "0 \<le> report_index s" "report_index s < int (length (reportQueues s))"
    and "ev_counter (reportQueues s ! nat (report_index s)) < 18446744073709551614" and "db_accepts (db_open s)"
  shows "\<exists>q. get_report_status db_accepts (\<lambda>_. True) parse data len s =
      Inr (s\<lparr>call_status := store_report (\<lambda>_. True) (parse data len) (call_status s),
        reportQueues := (reportQueues s)[nat (report_index s) := q],
        report_index := (report_index s + 1) mod int (length (reportQueues s)), db_open := Suc (db_open s)\<rparr>) \<and>
    q_items q = q_items (reportQueues s ! nat (report_index s)) @ [parse data len] \<and>
    ev_counter q = ev_counter (reportQueues s ! nat (report_index s)) + 1"
proof -
  let ?q = "reportQueues s ! nat (report_index s)"
  have "send (parse data len) ?q = Inr (?q\<lparr>q_items := q_items ?q @ [parse data len], ev_counter := ev_counter ?q + 1\<rparr>)"
    using assms(4) by (simp add: send_def)
  then show ?thesis using assms(1-3,5)
    by (intro exI [of _ "?q\<lparr>q_items := q_items ?q @ [parse data len], ev_counter := ev_counter ?q + 1\<rparr>"])
      (simp add: get_report_status_def Let_def c_rem_nonneg StoreReport_new_def enqueue_report_def next_index_def wrap_index_def)
qed

text \<open>
  The rows that storing a committed request gives: one for every host of the balancer, under its module.
\<close>

lemma committed_rows:
  assumes "lb_inv s" and "ev_counter q < 18446744073709551614" and "\<not> lb_empty s"
  shows "\<exists>q' req. commit now s q = Inr q' \<and> q_items q' = q_items q @ [req] \<and>
    (\<forall>t k a h. (k, a) \<in> set (host_map s) \<longrightarrow> host_heap s a = Some h \<longrightarrow>
       store_report (\<lambda>_. True) req t (lb_modid s, lb_cmdid s, h_ip h, h_port h, 127) =
         Some (rsucc h, rerr h, word_of_int now, overload h)) \<and>
    (\<forall>t m c ip port cl. m \<noteq> lb_modid s \<or> c \<noteq> lb_cmdid s \<longrightarrow>
       store_report (\<lambda>_. True) req t (m, c, ip, port, cl) = t (m, c, ip, port, cl))"
proof -
  let ?res = "\<lambda>a. let h = the (host_heap s a) in
    \<lparr>cr_ip = h_ip h, cr_port = h_port h, cr_succ = rsucc h, cr_err = rerr h, cr_overload = overload h\<rparr>"
  let ?as = "idle_list s @ overload_list s"
  obtain q' req where r: "commit now s q = Inr q'" "q_items q' = q_items q @ [req]" "sr_modid req = lb_modid s"
      "sr_cmdid req = lb_cmdid s" "sr_ts req = word_of_int now" "sr_caller req = 127" "sr_results req = map ?res ?as"
      and d: "distinct ?as" "set ?as = snd ` set (host_map s)"
    using commit_reports [OF assms(1,2), of now] assms(3) by auto
  let ?rows = "map (result_row req) (sr_results req)"
  have ent: "\<exists>h k. host_heap s a = Some h \<and> k = mk_key_u (h_ip h) (h_port h) \<and> (k, a) \<in> set (host_map s)" if "a \<in> set ?as" for a
  proof -
    from that obtain k where "(k, a) \<in> set (host_map s)" unfolding d(2) by auto
    moreover from this have "host_entry s k a" using assms(1) by (simp add: lb_inv_def)
    ultimately show ?thesis by (auto simp: host_entry_def)
  qed
  have keys: "distinct (map fst ?rows)"
  proof -
    have "inj_on (\<lambda>a. fst (result_row req (?res a))) (set ?as)"
    proof (rule inj_onI)
      fix a b
      assume ab: "a \<in> set ?as" "b \<in> set ?as" "fst (result_row req (?res a)) = fst (result_row req (?res b))"
      obtain h k where h: "host_heap s a = Some h" "k = mk_key_u (h_ip h) (h_port h)" "(k, a) \<in> set (host_map s)" using ent [OF ab(1)] by blast
      obtain h' k' where h': "host_heap s b = Some h'" "k' = mk_key_u (h_ip h') (h_port h')" "(k', b) \<in> set (host_map s)" using ent [OF ab(2)] by blast
      have "k = k'" using ab(3) h(1,2) h'(1,2) by (simp add: result_row_def)
      moreover have "distinct (map fst (host_map s))" using assms(1) by (simp add: lb_inv_def)
      ultimately show "a = b" using h(3) h'(3) by (auto dest: eq_key_imp_eq_value)
    qed
    then show ?thesis using d(1) unfolding r(7) map_map comp_def distinct_map by blast
  qed
  have row: "store_report (\<lambda>_. True) req t (lb_modid s, lb_cmdid s, h_ip h, h_port h, 127) = Some (rsucc h, rerr h, word_of_int now, overload h)"
    if "(k, a) \<in> set (host_map s)" "host_heap s a = Some h" for t k a h
  proof -
    have "a \<in> set ?as" using that(1) d(2) by force
    then have "result_row req (?res a) \<in> set ?rows" unfolding r(7) set_map by (intro imageI)
    moreover have "result_row req (?res a) = ((lb_modid s, lb_cmdid s, h_ip h, h_port h, 127), (rsucc h, rerr h, word_of_int now, overload h))"
      using that(2) by (simp add: result_row_def r(3-6))
    ultimately have "map_of (rev ?rows) (lb_modid s, lb_cmdid s, h_ip h, h_port h, 127) = Some (rsucc h, rerr h, word_of_int now, overload h)"
      using map_of_rev [OF keys] by simp
    then show ?thesis by (simp add: store_report_all map_add_find_right)
  qed
  have other: "store_report (\<lambda>_. True) req t (m, c, ip, port, cl) = t (m, c, ip, port, cl)"
    if "m \<noteq> lb_modid s \<or> c \<noteq> lb_cmdid s" for t m c ip port cl
  proof -
    have "(m, c, ip, port, cl) \<notin> fst ` set (rev ?rows)" using that by (auto simp: result_row_def r(3,4))
    then have "map_of (rev ?rows) (m, c, ip, port, cl) = None" by (simp only: map_of_eq_None_iff not_False_eq_True)
    then show ?thesis by (simp add: store_report_all map_add_def)
  qed
  show ?thesis using r(1,2) row other by blast
qed

text \<open>A reporter with two storing threads, for the witnesses.\<close>

definition demo_reporter :: reporter where
  "demo_reporter = \<lparr>call_status = (\<lambda>_. None),
     reportQueues = [\<lparr>evfd = 8, ev_counter = 0, q_items = [], q_loop = None\<rparr>, \<lparr>evfd = 9, ev_counter = 0, q_items = [], q_loop = None\<rparr>],
     report_index = 1, db_open = 2\<rparr>"

definition demo_req :: "u32 \<Rightarrow> u32 \<Rightarrow> status_request" where
  "demo_req ts succ = \<lparr>sr_modid = 1, sr_cmdid = 2, sr_ts = ts, sr_caller = 127,
     sr_results = [\<lparr>cr_ip = 7, cr_port = 80, cr_succ = succ, cr_err = 0, cr_overload = False\<rparr>]\<rparr>"

definition demo_parse :: "u8 list option \<Rightarrow> int \<Rightarrow> status_request" where
  "demo_parse d len = demo_req (of_int len) (of_int len)"

lemma demo_reporter_ok: "rep_ok demo_reporter"
  by (simp add: rep_ok_def demo_reporter_def)

section \<open>Properties\<close>

text \<open>
  C16: from the balancer to the table. \<open>commit\<close> of a load balancer queues one request. When the reporter's
  \<open>get_report_status\<close> gets bytes that protobuf reads as that request, then after the handler every host of the balancer has
  a row with its real counters, its state and the time, under the module of the balancer; no row of another module has
  changed; and the request waits, once more, for the storing thread whose turn it was.
\<close>

theorem commit_stored:
  assumes "lb_inv s" and "ev_counter q < 18446744073709551614" and "\<not> lb_empty s"
    and "rep_ok r" and "db_accepts (db_open r)"
    and "\<forall>q' req. commit now s q = Inr q' \<longrightarrow> q_items q' = q_items q @ [req] \<longrightarrow> parse_req (Some data) len = req"
  shows "\<exists>q' req r'. commit now s q = Inr q' \<and> q_items q' = q_items q @ [req] \<and>
    get_report_status db_accepts (\<lambda>_. True) parse_req (Some data) len r = Inr r' \<and>
    (\<forall>k a h. (k, a) \<in> set (host_map s) \<longrightarrow> host_heap s a = Some h \<longrightarrow>
       call_status r' (lb_modid s, lb_cmdid s, h_ip h, h_port h, 127) = Some (rsucc h, rerr h, word_of_int now, overload h)) \<and>
    (\<forall>m c ip port cl. m \<noteq> lb_modid s \<or> c \<noteq> lb_cmdid s \<longrightarrow>
       call_status r' (m, c, ip, port, cl) = call_status r (m, c, ip, port, cl)) \<and>
    q_items (reportQueues r' ! nat (report_index r)) = q_items (reportQueues r ! nat (report_index r)) @ [req]"
proof -
  let ?i = "nat (report_index r)"
  obtain q' req where c: "commit now s q = Inr q'" "q_items q' = q_items q @ [req]"
    and rows: "\<And>t k a h. (k, a) \<in> set (host_map s) \<Longrightarrow> host_heap s a = Some h \<Longrightarrow>
       store_report (\<lambda>_. True) req t (lb_modid s, lb_cmdid s, h_ip h, h_port h, 127) =
         Some (rsucc h, rerr h, word_of_int now, overload h)"
      "\<And>t m c ip port cl. m \<noteq> lb_modid s \<or> c \<noteq> lb_cmdid s \<Longrightarrow>
       store_report (\<lambda>_. True) req t (m, c, ip, port, cl) = t (m, c, ip, port, cl)"
    using committed_rows [OF assms(1-3), of now] by blast
  have req: "parse_req (Some data) len = req" using assms(6) c by blast
  have i: "?i < length (reportQueues r)" using assms(4) by (auto simp: rep_ok_def nat_less_iff)
  then have "ev_counter (reportQueues r ! ?i) + 2 < 18446744073709551614" using assms(4) nth_mem unfolding rep_ok_def by blast
  then obtain r' where "get_report_status db_accepts (\<lambda>_. True) parse_req (Some data) len r = Inr r'"
      "call_status r' = store_report (\<lambda>_. True) req (call_status r)"
      "q_items (reportQueues r' ! ?i) = q_items (reportQueues r ! ?i) @ [req]"
    using get_report_ok [of r db_accepts parse_req "Some data" len] assms(4,5) i req by (auto simp: rep_ok_def)
  then show ?thesis using c rows by (intro exI [of _ q'] exI [of _ req] exI [of _ r']) simp
qed

text \<open>The balancer of the examples commits, and the reporter gets the request as the bytes \<open>[1]\<close>.\<close>

definition demo_queue :: "status_request tqueue" where
  "demo_queue = \<lparr>evfd = 4, ev_counter = 0, q_items = [], q_loop = None\<rparr>"

definition demo_parse_commit :: "u8 list option \<Rightarrow> int \<Rightarrow> status_request" where
  "demo_parse_commit data len =
     (case commit 300 demo_lb demo_queue of Inl _ \<Rightarrow> demo_parse data len
      | Inr q' \<Rightarrow> if data = Some [1] then last (q_items q') else demo_parse data len)"

lemma commit_stored_witness:
  "\<exists>q' req r'. commit 300 demo_lb demo_queue = Inr q' \<and> q_items q' = [req] \<and>
     get_report_status (\<lambda>k. k < 4) (\<lambda>_. True) demo_parse_commit (Some [1]) 1 demo_reporter = Inr r' \<and>
     call_status r' (1, 1, 1, 80, 127) = Some (0, 0, 300, False) \<and> q_items (reportQueues r' ! 1) = [req]"
proof -
  let ?h = "host_info_new 1 80 180 100"
  have m: "lb_modid demo_lb = 1" "lb_cmdid demo_lb = 1" "\<not> lb_empty demo_lb"
    by (simp_all add: demo_lb_def lb_update_def add_host_def host_key_def load_balance_new_def Let_def need_delete_def
        demo_cfg_def lb_empty_def)
  have h: "(4294967376, 0) \<in> set (host_map demo_lb)" "host_heap demo_lb 0 = Some ?h" by (simp_all add: demo_lb_eq)
  have d: "db_open demo_reporter < 4" "nat (report_index demo_reporter) = 1" "q_items (reportQueues demo_reporter ! 1) = []"
    "ev_counter demo_queue < 18446744073709551614" "q_items demo_queue = []" by (simp_all add: demo_reporter_def demo_queue_def)
  have "\<forall>q' req. commit 300 demo_lb demo_queue = Inr q' \<longrightarrow> q_items q' = q_items demo_queue @ [req] \<longrightarrow>
      demo_parse_commit (Some [1]) 1 = req" by (simp add: demo_parse_commit_def)
  from commit_stored [where db_accepts = "\<lambda>k. k < 4" and parse_req = demo_parse_commit and data = "[1]" and len = 1 and now = 300, OF demo_lb_inv d(4) m(3) demo_reporter_ok d(1) this]
  obtain q' req r' where "commit 300 demo_lb demo_queue = Inr q'" "q_items q' = [req]"
      "get_report_status (\<lambda>k. k < 4) (\<lambda>_. True) demo_parse_commit (Some [1]) 1 demo_reporter = Inr r'"
      "call_status r' (1, 1, h_ip ?h, h_port ?h, 127) = Some (rsucc ?h, rerr ?h, word_of_int 300, overload ?h)"
      "q_items (reportQueues r' ! 1) = [req]"
    using h m(1,2) d(2,3,5) by (metis append_Nil)
  then show ?thesis by (simp add: host_info_new_def)
qed

text \<open>
  Every reported request is stored twice, by the thread that receives it and by a storing thread. Alone
  that does no harm: the second time leaves the table as it is.
\<close>

theorem stored_twice_alone:
  assumes "rep_ok s" and "q_items (reportQueues s ! nat (report_index s)) = []" and "parse data len = req"
  shows "\<exists>s1. get_report_status (\<lambda>_. True) (\<lambda>_. True) parse data len s = Inr s1 \<and>
    q_items (reportQueues s1 ! nat (report_index s)) = [req] \<and>
    call_status s1 = store_report (\<lambda>_. True) req (call_status s) \<and>
    call_status (thread_report (\<lambda>_. True) (nat (report_index s)) s1) = call_status s1"
proof -
  let ?i = "nat (report_index s)"
  have i: "?i < length (reportQueues s)" and "reportQueues s ! ?i \<in> set (reportQueues s)"
    using assms(1) by (auto simp: rep_ok_def nat_less_iff intro!: nth_mem)
  then have "ev_counter (reportQueues s ! ?i) + 2 < 18446744073709551614" using assms(1) unfolding rep_ok_def by blast
  then obtain q where "get_report_status (\<lambda>_. True) (\<lambda>_. True) parse data len s =
      Inr (s\<lparr>call_status := store_report (\<lambda>_. True) req (call_status s), reportQueues := (reportQueues s)[?i := q],
        report_index := (report_index s + 1) mod int (length (reportQueues s)), db_open := Suc (db_open s)\<rparr>)" "q_items q = [req]"
    using get_report_ok [of s "\<lambda>_. True" parse data len] assms by (auto simp: rep_ok_def)
  then show ?thesis using i by (simp add: thread_report_def recv_def Let_def store_twice)
qed

lemma stored_twice_alone_witness:
  "\<exists>s1. get_report_status (\<lambda>_. True) (\<lambda>_. True) demo_parse None 5 demo_reporter = Inr s1 \<and>
     call_status (thread_report (\<lambda>_. True) 1 s1) = call_status s1"
  using stored_twice_alone [OF demo_reporter_ok, of demo_parse None 5] by (auto simp: demo_reporter_def)

text \<open>
  But a later report of the same host can be lost. When two requests arrive one after the other they go to
  different threads; if the thread of the second runs first, the table ends with the first.
\<close>

theorem older_report_wins:
  assumes "rep_ok s" and "2 \<le> length (reportQueues s)" and "\<forall>q \<in> set (reportQueues s). q_items q = []"
    and "parse d1 l1 = \<lparr>sr_modid = m, sr_cmdid = c, sr_ts = ts1, sr_caller = cl, sr_results = [r1]\<rparr>"
    and "parse d2 l2 = \<lparr>sr_modid = m, sr_cmdid = c, sr_ts = ts2, sr_caller = cl, sr_results = [r2]\<rparr>"
    and "cr_ip r1 = cr_ip r2" and "cr_port r1 = cr_port r2"
    and "i1 = nat (report_index s)" and "i2 = nat ((report_index s + 1) mod int (length (reportQueues s)))"
  shows "\<exists>s1 s2. get_report_status (\<lambda>_. True) (\<lambda>_. True) parse d1 l1 s = Inr s1 \<and> get_report_status (\<lambda>_. True) (\<lambda>_. True) parse d2 l2 s1 = Inr s2 \<and>
    call_status s2 (m, c, cr_ip r2, cr_port r2, cl) = Some (cr_succ r2, cr_err r2, ts2, cr_overload r2) \<and>
    call_status (thread_report (\<lambda>_. True) i1 (thread_report (\<lambda>_. True) i2 s2)) (m, c, cr_ip r2, cr_port r2, cl) =
      Some (cr_succ r1, cr_err r1, ts1, cr_overload r1)"
proof -
  let ?n = "length (reportQueues s)"
  have ne: "report_index s mod int ?n = report_index s" using assms(1) by (simp add: rep_ok_def)
  have i: "i1 < ?n" "i2 < ?n" "i1 \<noteq> i2"
  proof -
    show "i1 < ?n" using assms(1,8) by (auto simp: rep_ok_def nat_less_iff)
    have "0 < int ?n" using assms(2) by linarith
    then have "0 \<le> (report_index s + 1) mod int ?n" "(report_index s + 1) mod int ?n < int ?n" by (rule pos_mod_sign, rule pos_mod_bound)
    then show "i2 < ?n" unfolding assms(9) by (simp add: nat_less_iff)
    show "i1 \<noteq> i2"
    proof (cases "report_index s + 1 = int ?n")
      case True
      then show ?thesis using assms(1,2,8,9) by (auto simp: rep_ok_def)
    next
      case False
      then have "(report_index s + 1) mod int ?n = report_index s + 1" using assms(1) by (auto simp: rep_ok_def intro!: mod_pos_pos_trivial)
      then show ?thesis using assms(1,8,9) by (auto simp: rep_ok_def)
    qed
  qed
  have cnt: "ev_counter (reportQueues s ! j) < 18446744073709551614" "q_items (reportQueues s ! j) = []" if "j < ?n" for j
  proof -
    have "reportQueues s ! j \<in> set (reportQueues s)" using that by (rule nth_mem)
    then have "ev_counter (reportQueues s ! j) + 2 < 18446744073709551614" "q_items (reportQueues s ! j) = []"
      using assms(1,3) unfolding rep_ok_def by blast+
    then show "ev_counter (reportQueues s ! j) < 18446744073709551614" "q_items (reportQueues s ! j) = []" by simp_all
  qed
  obtain q1 where s1: "get_report_status (\<lambda>_. True) (\<lambda>_. True) parse d1 l1 s =
      Inr (s\<lparr>call_status := store_report (\<lambda>_. True) (parse d1 l1) (call_status s), reportQueues := (reportQueues s)[i1 := q1],
        report_index := (report_index s + 1) mod int ?n, db_open := Suc (db_open s)\<rparr>)" "q_items q1 = [parse d1 l1]"
    using get_report_ok [of s "\<lambda>_. True" parse d1 l1] assms(1,8) cnt [OF i(1)] by (auto simp: rep_ok_def)
  let ?s1 = "s\<lparr>call_status := store_report (\<lambda>_. True) (parse d1 l1) (call_status s), reportQueues := (reportQueues s)[i1 := q1],
        report_index := (report_index s + 1) mod int ?n, db_open := Suc (db_open s)\<rparr>"
  have "reportQueues ?s1 ! nat (report_index ?s1) = reportQueues s ! i2" using i assms(9) by simp
  then obtain q2 where s2: "get_report_status (\<lambda>_. True) (\<lambda>_. True) parse d2 l2 ?s1 =
      Inr (?s1\<lparr>call_status := store_report (\<lambda>_. True) (parse d2 l2) (call_status ?s1), reportQueues := (reportQueues s)[i1 := q1, i2 := q2],
        report_index := ((report_index s + 1) mod int ?n + 1) mod int ?n, db_open := Suc (Suc (db_open s))\<rparr>)" "q_items q2 = [parse d2 l2]"
  proof -
    have "0 < int ?n" using i(1) by linarith
    from pos_mod_sign [OF this, of "report_index s + 1"] pos_mod_bound [OF this, of "report_index s + 1"]
    have "reportQueues ?s1 \<noteq> []" "0 \<le> report_index ?s1" "report_index ?s1 < int (length (reportQueues ?s1))" "length (reportQueues ?s1) = ?n"
      using i(1) by auto
    with get_report_ok [of ?s1 "\<lambda>_. True" parse d2 l2] cnt [OF i(2)] \<open>reportQueues ?s1 ! nat (report_index ?s1) = reportQueues s ! i2\<close>
    show thesis using that assms(9) by auto
  qed
  have rows: "store_report (\<lambda>_. True) (parse d1 l1) t (m, c, cr_ip r2, cr_port r2, cl) = Some (cr_succ r1, cr_err r1, ts1, cr_overload r1)"
    "store_report (\<lambda>_. True) (parse d2 l2) t (m, c, cr_ip r2, cr_port r2, cl) = Some (cr_succ r2, cr_err r2, ts2, cr_overload r2)" for t
    using assms(4-7) by (simp_all add: store_report_all result_row_def)
  show ?thesis
    using s1 s2 i rows by (simp add: thread_report_def recv_def Let_def nth_list_update)
qed

lemma older_report_wins_witness:
  "\<exists>s1 s2. get_report_status (\<lambda>_. True) (\<lambda>_. True) demo_parse None 5 demo_reporter = Inr s1 \<and>
     get_report_status (\<lambda>_. True) (\<lambda>_. True) demo_parse None 6 s1 = Inr s2 \<and>
     call_status (thread_report (\<lambda>_. True) 1 (thread_report (\<lambda>_. True) 0 s2)) (1, 2, 7, 80, 127) = Some (5, 0, 5, False)"
  using older_report_wins [OF demo_reporter_ok, of demo_parse None 5 1 2 5 127
      "\<lparr>cr_ip = 7, cr_port = 80, cr_succ = 5, cr_err = 0, cr_overload = False\<rparr>" None 6 6
      "\<lparr>cr_ip = 7, cr_port = 80, cr_succ = 6, cr_err = 0, cr_overload = False\<rparr>" 1 0]
  by (auto simp: demo_reporter_def demo_parse_def demo_req_def)

end
