(* ===== verification/Report_Limits.thy ===== *)
theory Report_Limits
  imports Reporter
begin

text \<open>
  What the reporter does over many reports: the connections its handler leaves open, and the index of the queues
  that its threads share.
\<close>

fun report_all ::
  "(nat \<Rightarrow> bool) \<Rightarrow> (u8 list option \<Rightarrow> int \<Rightarrow> status_request) \<Rightarrow> (u8 list option \<times> int) list \<Rightarrow> reporter \<Rightarrow> reporter res" where
  "report_all db_accepts parse_req [] s = Inr s"
| "report_all db_accepts parse_req ((data, len) # rs) s =
     rbind (get_report_status db_accepts (\<lambda>_. True) parse_req data len s) (report_all db_accepts parse_req rs)"

lemma report_once:
  assumes "reportQueues s \<noteq> []" "0 \<le> report_index s" "report_index s < int (length (reportQueues s))"
    and "\<forall>q \<in> set (reportQueues s). ev_counter q + Suc k < 18446744073709551614"
  shows "if db_accepts (db_open s)
    then \<exists>s'. get_report_status db_accepts (\<lambda>_. True) parse data len s = Inr s' \<and> db_open s' = Suc (db_open s) \<and>
      reportQueues s' \<noteq> [] \<and> 0 \<le> report_index s' \<and> report_index s' < int (length (reportQueues s')) \<and>
      (\<forall>q \<in> set (reportQueues s'). ev_counter q + k < 18446744073709551614)
    else get_report_status db_accepts (\<lambda>_. True) parse data len s = Inl (Exit 1)"
proof (cases "db_accepts (db_open s)")
  case True
  let ?i = "nat (report_index s)"
  have "?i < length (reportQueues s)" using assms(2,3) by linarith
  then have cnt: "ev_counter (reportQueues s ! ?i) + Suc k < 18446744073709551614" using assms(4) nth_mem by blast
  then have "ev_counter (reportQueues s ! ?i) < 18446744073709551614" by simp
  from get_report_ok [where db_accepts = db_accepts, OF assms(1-3) this True] obtain q where q: "get_report_status db_accepts (\<lambda>_. True) parse data len s =
      Inr (s\<lparr>call_status := store_report (\<lambda>_. True) (parse data len) (call_status s), reportQueues := (reportQueues s)[?i := q],
        report_index := (report_index s + 1) mod int (length (reportQueues s)), db_open := Suc (db_open s)\<rparr>)"
      "ev_counter q = ev_counter (reportQueues s ! ?i) + 1" by blast
  have "ev_counter q' + k < 18446744073709551614" if "q' \<in> set ((reportQueues s)[?i := q])" for q'
  proof -
    from that have "q' = q \<or> q' \<in> set (reportQueues s)" using set_update_subset_insert by fastforce
    then show ?thesis using assms(4) cnt q(2) by fastforce
  qed
  moreover have "0 < int (length (reportQueues s))" using assms(1) by simp
  ultimately show ?thesis using True q(1) assms(1) by simp
qed (simp add: get_report_status_def StoreReport_new_def)

text \<open>
  C33: every report leaves a connection to the database open, because the handler's \<open>StoreReport\<close> never closes it.
  With a database that takes \<open>limit\<close> connections, reports are handled until they are used up; the next one
  ends the process, however long the reports are spread.
\<close>

theorem reports_exhaust_db:
  assumes "reportQueues s \<noteq> []" and "0 \<le> report_index s" and "report_index s < int (length (reportQueues s))"
    and "\<forall>q \<in> set (reportQueues s). ev_counter q + length rs < 18446744073709551614"
    and "\<forall>k. db_accepts k \<longleftrightarrow> k < limit" and "db_open s \<le> limit"
  shows "if length rs \<le> limit - db_open s
    then \<exists>s'. report_all db_accepts parse_req rs s = Inr s' \<and> db_open s' = db_open s + length rs
    else report_all db_accepts parse_req rs s = Inl (Exit 1)"
  using assms
proof (induction rs arbitrary: s)
  case (Cons r rs)
  obtain data len where r: "r = (data, len)" by (cases r)
  have "\<forall>q \<in> set (reportQueues s). ev_counter q + Suc (length rs) < 18446744073709551614" using Cons.prems(4) by simp
  note once = report_once [OF Cons.prems(1-3) this, of db_accepts parse_req data len]
  show ?case
  proof (cases "db_open s < limit")
    case True
    then obtain s' where s': "get_report_status db_accepts (\<lambda>_. True) parse_req data len s = Inr s'" "db_open s' = Suc (db_open s)"
        "reportQueues s' \<noteq> []" "0 \<le> report_index s'" "report_index s' < int (length (reportQueues s'))"
        "\<forall>q \<in> set (reportQueues s'). ev_counter q + length rs < 18446744073709551614"
      using once Cons.prems(5) by auto
    have "Suc (length rs) \<le> limit - db_open s \<longleftrightarrow> length rs \<le> limit - db_open s'" using True s'(2) by linarith
    then show ?thesis using Cons.IH [OF s'(3-6) Cons.prems(5)] s'(1,2) True by (auto simp: r)
  next
    case False
    then show ?thesis using once Cons.prems(5,6) by (simp add: r)
  qed
qed simp

lemma reports_exhaust_db_witness:
  "(\<exists>s'. report_all (\<lambda>k. k < 4) demo_parse [(None, 5), (None, 6)] demo_reporter = Inr s' \<and> db_open s' = 4) \<and>
   report_all (\<lambda>k. k < 4) demo_parse [(None, 5), (None, 6), (None, 7)] demo_reporter = Inl (Exit 1)"
  using reports_exhaust_db [of demo_reporter "[(None, 5), (None, 6)]" "\<lambda>k. k < 4" 4 demo_parse]
    reports_exhaust_db [of demo_reporter "[(None, 5), (None, 6), (None, 7)]" "\<lambda>k. k < 4" 4 demo_parse]
  by (simp add: demo_reporter_def)

text \<open>
  The index of the queues is shared by the server's threads without a lock. If a second report arrives between
  the two statements that advance the index past the last queue and wrap it, \<open>reportQueues\<close> is indexed
  outside its bounds; with the wrap in time it is not.
\<close>

theorem report_index_race:
  assumes "rep_ok s" and "report_index s = int (length (reportQueues s)) - 1"
  shows "\<exists>s1. enqueue_report r1 s = Inr s1 \<and> enqueue_report r2 (next_index s1) = Inl OutOfBounds \<and>
    (\<exists>s2. enqueue_report r2 (wrap_index (next_index s1)) = Inr s2)"
proof -
  let ?n = "length (reportQueues s)" let ?i = "nat (report_index s)"
  have ne: "0 < ?n" and i: "?i < ?n" using assms by (simp_all add: rep_ok_def nat_less_iff)
  have cnt: "ev_counter q + 2 < 18446744073709551614" if "q \<in> set (reportQueues s)" for q using assms(1) that by (simp add: rep_ok_def)
  obtain q where q: "send r1 (reportQueues s ! ?i) = Inr q" "ev_counter q = ev_counter (reportQueues s ! ?i) + 1"
    using cnt [OF nth_mem [OF i]] by (auto simp: send_def)
  let ?s1 = "s\<lparr>reportQueues := (reportQueues s)[?i := q]\<rparr>"
  have s1: "enqueue_report r1 s = Inr ?s1" using q(1) assms by (simp add: enqueue_report_def rep_ok_def)
  have w: "report_index (wrap_index (next_index ?s1)) = 0" using assms ne
    by (simp add: wrap_index_def next_index_def c_rem_nonneg)
  have "ev_counter ((reportQueues s)[?i := q] ! 0) < 18446744073709551614"
  proof (cases "?i = 0")
    case True
    then show ?thesis using q(2) cnt [OF nth_mem [OF i]] i by simp
  next
    case False
    then show ?thesis using cnt [OF nth_mem [OF ne]] by simp
  qed
  then have "\<exists>s2. enqueue_report r2 (wrap_index (next_index ?s1)) = Inr s2"
    using w ne by (simp add: enqueue_report_def) (simp add: wrap_index_def next_index_def send_def)
  moreover have "enqueue_report r2 (next_index ?s1) = Inl OutOfBounds" using assms(2) by (simp add: enqueue_report_def next_index_def)
  ultimately show ?thesis using s1 by blast
qed

lemma report_index_race_witness:
  "\<exists>s1. enqueue_report (demo_req 5 1) demo_reporter = Inr s1 \<and> enqueue_report (demo_req 6 1) (next_index s1) = Inl OutOfBounds"
  using report_index_race [OF demo_reporter_ok, of "demo_req 5 1" "demo_req 6 1"] by (auto simp: demo_reporter_def)

end
