(* ===== verification/Agent_Start.thy ===== *)
theory Agent_Start
  imports Agent
begin

text \<open>
  The start of the agent (\<open>lars_lb_agent/src/main_server.cpp\<close>): \<open>init_lb_agent\<close> reads the thresholds of the
  balancers from the configuration file and creates the three \<open>route_lb\<close>. \<open>new_lb\<close> is the constructor of
  \<open>route_lb\<close>, whose source is not in the repository; \<open>show_float\<close> and \<open>read_float\<close> are the string streams of
  \<open>GetFloat\<close>.
\<close>

text \<open>The sizes are \<open>unsigned\<close> numbers stored in \<open>int\<close>, except the last, which goes into a \<open>long\<close>.\<close>

definition lb_number_of :: "conf \<Rightarrow> string \<Rightarrow> u32 \<Rightarrow> u32" where
  "lb_number_of cf key d = GetNumber cf ''loadbalance'' key d"

definition load_lb_config :: "(rat \<Rightarrow> string) \<Rightarrow> (string \<Rightarrow> rat option) \<Rightarrow> conf \<Rightarrow> load_balance_config" where
  "load_lb_config show_float read_float cf =
     \<lparr>probe_num = sint (lb_number_of cf ''probe_num'' 10),
      init_succ_cnt = lb_number_of cf ''init_succ_cnt'' 180,
      init_err_cnt = lb_number_of cf ''init_err_cnt'' 5,
      err_rate = GetFloat show_float read_float 0 cf ''loadbalance'' ''err_rate'' (13421773 / 134217728),
      succ_rate = GetFloat show_float read_float 0 cf ''loadbalance'' ''succ_rate'' (15938355 / 16777216),
      contin_err_limit = lb_number_of cf ''contin_err_limit'' 10,
      contin_succ_limit = lb_number_of cf ''contin_succ_limit'' 10,
      idle_timeout = sint (lb_number_of cf ''idle_timeout'' 15),
      overload_timeout = sint (lb_number_of cf ''overload_timeout'' 15),
      update_timeout = uint (lb_number_of cf ''update_timeout'' 15)\<rparr>"

definition init_lb_agent ::
  "(rat \<Rightarrow> string) \<Rightarrow> (string \<Rightarrow> rat option) \<Rightarrow> (int \<Rightarrow> 'r) \<Rightarrow> string option \<Rightarrow> conf option \<Rightarrow>
   (load_balance_config \<times> 'r list \<times> conf option) res" where
  "init_lb_agent show_float read_float new_lb file config =
     rbind (setPath file config) (\<lambda>(ok, config').
     rbind (config_instance config') (\<lambda>cf.
       Inr (load_lb_config show_float read_float cf, map (\<lambda>i. new_lb (i + 1)) [0, 1, 2], config')))"

section \<open>Lemmas\<close>

text \<open>A missing file is not noticed: every threshold has its default. A second call aborts.\<close>

lemma init_without_file:
  "init_lb_agent sf rf new_lb None None = Inr (load_lb_config sf rf (\<lambda>_. None), [new_lb 1, new_lb 2, new_lb 3], Some (\<lambda>_. None)) \<and>
   probe_num (load_lb_config sf rf (\<lambda>_. None)) = 10 \<and> init_succ_cnt (load_lb_config sf rf (\<lambda>_. None)) = 180 \<and>
   init_lb_agent sf rf new_lb file (Some cf) = Inl AssertFail"
  by (simp add: init_lb_agent_def setPath_def Load_def config_instance_def load_lb_config_def lb_number_of_def GetNumber_def conf_find_def)

text \<open>With a file in the usual form, each threshold is the last value the file gives for its key.\<close>

lemma init_with_file:
  assumes "\<forall>s \<in> set ss. section_ok s" and "pad_ok pad"
  shows "\<exists>cf. init_lb_agent sf rf new_lb (Some (render pad ss)) None =
      Inr (load_lb_config sf rf cf, [new_lb 1, new_lb 2, new_lb 3], Some cf) \<and>
    (\<forall>key d. lb_number_of cf key d = (case map_of (rev (entries ss)) (''loadbalance'', key) of None \<Rightarrow> d | Some v \<Rightarrow> parseNumber v))"
proof -
  obtain cf where "setPath (Some (render pad ss)) None = Inr (True, Some cf)"
      "\<forall>sec key. conf_find cf sec key = map_of (rev (entries ss)) (sec, key)"
    using set_path_render [OF assms] by blast
  then show ?thesis by (simp add: init_lb_agent_def config_instance_def lb_number_of_def GetNumber_def)
qed

text \<open>
  A threshold above \<open>2 ^ 31 - 1\<close> is negative in an \<open>int\<close>: with a negative \<open>probe_num\<close> every choice with both
  lists filled is a probe.
\<close>

lemma huge_probe_num:
  assumes "\<forall>s \<in> set ss. section_ok s" and "pad_ok pad" and "map_of (rev (entries ss)) (''loadbalance'', ''probe_num'') = Some (show_nat n)"
    and "2 ^ 31 \<le> n" and "n < 2 ^ 32"
  shows "\<exists>cfg lbs cf. init_lb_agent sf rf new_lb (Some (render pad ss)) None = Inr (cfg, lbs, Some cf) \<and> probe_num cfg = int n - 2 ^ 32"
proof -
  have "parseNumber (show_nat n) = word_of_int (int n)"
    using read_ll_show [of "[]" n "[]"] assms(5) by (simp add: parseNumber_def)
  moreover have "sint (word_of_int (int n) :: u32) = int n - 2 ^ 32"
  proof -
    have "(int n + 2147483648) mod 4294967296 = (int n - 2147483648 + 4294967296) mod 4294967296" by (simp add: add.commute)
    also have "\<dots> = (int n - 2147483648) mod 4294967296" by (rule mod_add_self2)
    also have "\<dots> = int n - 2147483648" using assms(4,5) by (intro mod_pos_pos_trivial) simp_all
    finally have m: "(int n + 2147483648) mod 4294967296 = int n - 2147483648" .
    have "sint (word_of_int (int n) :: u32) = (int n + 2147483648) mod 4294967296 - 2147483648"
      by (subst int_word_sint) simp
    then show ?thesis unfolding m by simp
  qed
  moreover obtain cf where "init_lb_agent sf rf new_lb (Some (render pad ss)) None =
      Inr (load_lb_config sf rf cf, [new_lb 1, new_lb 2, new_lb 3], Some cf)"
      "lb_number_of cf ''probe_num'' 10 = parseNumber (show_nat n)"
    using init_with_file [OF assms(1,2), of sf rf new_lb] by (auto simp: assms(3))
  ultimately show ?thesis
    by (intro exI [of _ "load_lb_config sf rf cf"] exI [of _ "[new_lb 1, new_lb 2, new_lb 3]"] exI [of _ cf])
      (simp add: load_lb_config_def)
qed

end
