(* ===== verification/Start_Up.thy ===== *)
theory Start_Up
  imports Dns_Server Report_Limits Agent_Start Udp
begin

text \<open>
  How the services start: the constructors of \<open>tcp_server\<close>, \<open>udp_server\<close>, \<open>udp_client\<close>, \<open>lars_client\<close> and \<open>StoreReport\<close>,
  the connection of \<open>Route\<close> to its database, and the \<open>main\<close> functions up to their endless loop. What the system calls
  return is an argument; \<open>aton\<close> is the C library's \<open>inet_aton\<close>. Creating a thread always succeeds:
  \<open>pthread_create\<close> never returns the \<open>-1\<close> the code tests for.
\<close>

section \<open>Sockets\<close>

record sys_start =
  s_sock :: int
  s_bind :: int
  s_listen :: int

text \<open>The address of a socket: a text that is no address leaves the zeros of \<open>bzero\<close>.\<close>

definition sock_addr :: "(string \<Rightarrow> u32 option) \<Rightarrow> string \<Rightarrow> 16 word \<Rightarrow> u32 \<times> 16 word" where
  "sock_addr aton ip port = ((case aton ip of None \<Rightarrow> 0 | Some a \<Rightarrow> a), port)"

definition tcp_server_new ::
  "(string \<Rightarrow> u32 option) \<Rightarrow> conf \<Rightarrow> string \<Rightarrow> 16 word \<Rightarrow> sys_start \<Rightarrow> int list \<Rightarrow> 'u net \<Rightarrow> ((u32 \<times> 16 word) \<times> 'u net) res" where
  "tcp_server_new aton cf ip port k fds n =
     (if s_sock k = - 1 then Inl (Exit 1)
      else let server_addr = sock_addr aton ip port
           in if s_bind k < 0 then Inl (Exit 1)
              else if s_listen k = - 1 then Inl (Exit 1)
              else let thread_cnt = sint (GetNumber cf ''reactor'' ''threadNum'' 3);
                       max_conn = sint (GetNumber cf ''reactor'' ''maxConn'' 1000)
                   in rbind (tcp_server_start (s_sock k) thread_cnt max_conn fds n) (\<lambda>n'. Inr (server_addr, n')))"

text \<open>The event loop of a UDP endpoint is its own; the result is the address and the loop.\<close>

datatype udp_cb_name = server_read_callback | client_read_callback

definition udp_server_new ::
  "(string \<Rightarrow> u32 option) \<Rightarrow> string \<Rightarrow> 16 word \<Rightarrow> int \<Rightarrow> int \<Rightarrow> (udp_cb_name, unit, nat) loop_st \<Rightarrow>
   ((u32 \<times> 16 word) \<times> (udp_cb_name, unit, nat) loop_st) res" where
  "udp_server_new aton ip port sock bind_ret lp =
     (if sock = - 1 then Inl (Exit 1)
      else let server_addr = sock_addr aton ip port
           in if bind_ret < 0 then Inl (Exit 1)
              else Inr (server_addr, add_io_event True sock server_read_callback EPOLLIN (Some ()) lp))"

definition udp_client_new ::
  "(string \<Rightarrow> u32 option) \<Rightarrow> string \<Rightarrow> 16 word \<Rightarrow> int \<Rightarrow> int \<Rightarrow> (udp_cb_name, unit, nat) loop_st \<Rightarrow>
   ((u32 \<times> 16 word) \<times> (udp_cb_name, unit, nat) loop_st) res" where
  "udp_client_new aton ip port sock connect_ret lp =
     (if sock = - 1 then Inl (Exit 1)
      else let server_addr = sock_addr aton ip port
           in if connect_ret = - 1 then Inl (Exit 1)
              else Inr (server_addr, add_io_event True sock client_read_callback EPOLLIN (Some ()) lp))"

text \<open>The three servers of the agent, each with its router; \<open>r_lb[port-8888]\<close> is the balancer of the same number.\<close>

definition agent_server_start ::
  "(string \<Rightarrow> u32 option) \<Rightarrow> api_proto \<Rightarrow> nat \<Rightarrow> int \<Rightarrow> int \<Rightarrow> ('p, 'r) agent_srv \<Rightarrow>
   ((u32 \<times> 16 word) \<times> (udp_cb_name, unit, nat) loop_st \<times> ('p, 'r) agent_srv) res" where
  "agent_server_start aton pb index sock bind_ret s =
     (let port = (word_of_nat (index + 8888) :: 16 word)
      in rbind (udp_server_new aton ''0.0.0.0'' port sock bind_ret event_loop_new) (\<lambda>(addr, lp).
           Inr (addr, lp, agent_server_main pb (nat (sint port - 8888)) s)))"

fun start_UDP_servers ::
  "(string \<Rightarrow> u32 option) \<Rightarrow> api_proto \<Rightarrow> nat \<Rightarrow> (int \<times> int) list \<Rightarrow> (nat \<Rightarrow> ('p, 'r) agent_srv) \<Rightarrow>
   ((u32 \<times> 16 word) \<times> (udp_cb_name, unit, nat) loop_st \<times> ('p, 'r) agent_srv) list res" where
  "start_UDP_servers aton pb i [] s = Inr []"
| "start_UDP_servers aton pb i ((sock, bind_ret) # ks) s =
     rbind (agent_server_start aton pb i sock bind_ret (s i)) (\<lambda>x.
     rbind (start_UDP_servers aton pb (Suc i) ks s) (\<lambda>xs. Inr (x # xs)))"

text \<open>The constructor of \<open>lars_client\<close>: one socket per server; the result is each socket with its peer.\<close>

fun connect_agents :: "(string \<Rightarrow> u32 option) \<Rightarrow> nat \<Rightarrow> (int \<times> int) list \<Rightarrow> (int \<times> u32 \<times> 16 word) list res" where
  "connect_agents aton i [] = Inr []"
| "connect_agents aton i ((sock, connect_ret) # ks) =
     (if sock = - 1 then Inl (Exit 1)
      else if connect_ret = - 1 then Inl (Exit 1)
      else rbind (connect_agents aton (Suc i) ks) (\<lambda>xs. Inr ((sock, sock_addr aton ''127.0.0.1'' (word_of_nat (8888 + i))) # xs)))"

definition lars_client_new :: "(string \<Rightarrow> u32 option) \<Rightarrow> int \<times> int \<Rightarrow> int \<times> int \<Rightarrow> int \<times> int \<Rightarrow> (api \<times> (int \<times> u32 \<times> 16 word) list) res" where
  "lars_client_new aton k0 k1 k2 =
     rbind (connect_agents aton 0 [k0, k1, k2]) (\<lambda>socks. Inr (\<lparr>seqid = 0, api_sent = []\<rparr>, socks))"

section \<open>Databases\<close>

text \<open>What is given to \<open>mysql_real_connect\<close>, whose port is an \<open>unsigned int\<close>; the code keeps it in a \<open>short\<close>.\<close>

record db_args =
  db_host :: string
  db_user :: string
  db_passwd :: string
  db_name :: string
  db_port :: u32

definition store_db_args :: "conf \<Rightarrow> db_args" where
  "store_db_args cf =
     \<lparr>db_host = GetString cf ''mysql'' ''db_host'' ''127.0.0.1'', db_user = GetString cf ''mysql'' ''db_user'' ''root'',
      db_passwd = GetString cf ''mysql'' ''db_passwd'' ''root'', db_name = GetString cf ''mysql'' ''db_name'' ''lars_dns'',
      db_port = scast (ucast (GetNumber cf ''mysql'' ''db_port'' 3306) :: 16 word)\<rparr>"

text \<open>\<open>mysql args k\<close> is whether \<open>mysql_real_connect\<close> succeeds when \<open>k\<close> connections are open.\<close>

definition StoreReport_connect :: "(db_args \<Rightarrow> nat \<Rightarrow> bool) \<Rightarrow> conf \<Rightarrow> reporter \<Rightarrow> reporter res" where
  "StoreReport_connect mysql cf = StoreReport_new (mysql (store_db_args cf))"

definition connect_db :: "(db_args \<Rightarrow> bool) \<Rightarrow> conf \<Rightarrow> unit res" where
  "connect_db mysql cf =
     (if mysql \<lparr>db_host = GetString cf ''mysql'' ''db_host'' ''127.0.0.1'', db_user = GetString cf ''mysql'' ''db_user'' ''root'',
         db_passwd = GetString cf ''mysql'' ''db_passwd'' ''aceld'', db_name = GetString cf ''mysql'' ''db_name'' ''lars_dns'',
         db_port = scast (ucast (GetNumber cf ''mysql'' ''db_port'' 3306) :: 16 word)\<rparr>
      then Inr () else Inl (Exit 1))"

text \<open>A storing thread: its own connection, its own loop, which watches the thread's queue.\<close>

datatype store_cb = thread_report_cb

definition store_main ::
  "(db_args \<Rightarrow> nat \<Rightarrow> bool) \<Rightarrow> conf \<Rightarrow> nat \<Rightarrow> reporter \<Rightarrow> (reporter \<times> (store_cb, nat, nat) loop_st) res" where
  "store_main mysql cf i s =
     rbind (StoreReport_connect mysql cf s) (\<lambda>s1.
       let q = set_queue_loop (Suc i) (reportQueues s1 ! i)
       in Inr (s1\<lparr>reportQueues := (reportQueues s1)[i := q]\<rparr>, add_io_event True (evfd q) thread_report_cb EPOLLIN (Some i) event_loop_new))"

section \<open>The services\<close>

text \<open>The DNS service up to its loop; the hooks and the router are \<open>dns_env\<close>.\<close>

definition dns_main ::
  "(string \<Rightarrow> u32 option) \<Rightarrow> string option \<Rightarrow> conf option \<Rightarrow> sys_start \<Rightarrow> int list \<Rightarrow> dns \<Rightarrow> ((u32 \<times> 16 word) \<times> dns) res" where
  "dns_main aton file config k fds n =
     rbind (setPath file config) (\<lambda>(ok, config').
     rbind (config_instance config') (\<lambda>cf.
       let ip = GetString cf ''reactor'' ''ip'' ''0.0.0.0'';
           port = ucast (GetNumber cf ''reactor'' ''port'' 8888)
       in tcp_server_new aton cf ip port k fds n))"

text \<open>The reporter: \<open>qfds\<close> are the eventfds of its queues; a negative number of threads makes \<open>new\<close> throw.\<close>

definition reporter_main ::
  "(string \<Rightarrow> u32 option) \<Rightarrow> string option \<Rightarrow> conf option \<Rightarrow> sys_start \<Rightarrow> int list \<Rightarrow> int list \<Rightarrow> 'u net \<Rightarrow> reporter \<Rightarrow>
   ((u32 \<times> 16 word) \<times> 'u net \<times> reporter) res" where
  "reporter_main aton file config k fds qfds n s =
     rbind (setPath file config) (\<lambda>(ok, config').
     rbind (config_instance config') (\<lambda>cf.
       let ip = GetString cf ''reactor'' ''ip'' ''0.0.0.0'';
           port = ucast (GetNumber cf ''reactor'' ''port'' 8888)
       in rbind (tcp_server_new aton cf ip port k fds n) (\<lambda>(addr, n').
          let thread_cnt = sint (GetNumber cf ''reporter'' ''db_thread_cnt'' 3)
          in if thread_cnt < 0 then Inl Uncaught
             else rbind (create_reportdb_threads (nat thread_cnt) qfds s) (\<lambda>s'. Inr (addr, n', s')))))"

section \<open>Lemmas\<close>

text \<open>What a configuration file in the usual form says.\<close>

definition file_string :: "(string \<times> conf_item list) list \<Rightarrow> string \<Rightarrow> string \<Rightarrow> string \<Rightarrow> string" where
  "file_string ss sec key d = (case map_of (rev (entries ss)) (sec, key) of None \<Rightarrow> d | Some v \<Rightarrow> v)"

definition file_number :: "(string \<times> conf_item list) list \<Rightarrow> string \<Rightarrow> string \<Rightarrow> u32 \<Rightarrow> u32" where
  "file_number ss sec key d = (case map_of (rev (entries ss)) (sec, key) of None \<Rightarrow> d | Some v \<Rightarrow> parseNumber v)"

lemma file_config:
  assumes "\<forall>s \<in> set ss. section_ok s" and "pad_ok pad"
  obtains cf where "setPath (Some (render pad ss)) None = Inr (True, Some cf)"
    "\<And>sec key d. GetString cf sec key d = file_string ss sec key d" "\<And>sec key d. GetNumber cf sec key d = file_number ss sec key d"
proof -
  obtain cf where cf: "setPath (Some (render pad ss)) None = Inr (True, Some cf)"
      "\<forall>sec key. conf_find cf sec key = map_of (rev (entries ss)) (sec, key)"
    using set_path_render [OF assms] by blast
  show thesis using that [OF cf(1)] cf(2) by (simp add: GetString_def GetNumber_def file_string_def file_number_def)
qed

lemma parseNumber_show: "n < 2 ^ 63 \<Longrightarrow> parseNumber (show_nat n) = word_of_nat n"
  using read_ll_show [of "[]" n "[]"] by (simp add: parseNumber_def)

lemma start_threads_ok:
  assumes "\<forall>fd \<in> set fds. fd \<noteq> - 1"
  shows "\<exists>n'. start_threads fds n = Inr n'"
  using assms by (induction fds arbitrary: n) (auto simp: thread_queue_new_def)

lemma start_threads_same: "start_threads fds n = Inr n' \<Longrightarrow> max_conns n' = max_conns n"
  by (induction fds arbitrary: n) (auto simp: rbind_eq_Inr thread_main_def Let_def)

lemma tcp_server_starts:
  assumes "0 < T" "T < 1000000" "0 \<le> M" "M < 1000000" "length fds = nat T" "\<forall>fd \<in> set fds. fd \<noteq> - 1"
  shows "\<exists>n'. tcp_server_start sock T M fds n = Inr n' \<and> max_conns n' = M \<and> length (conns n') = nat (M + 5 + 2 * T)"
proof -
  obtain n1 where n1: "start_threads fds (n\<lparr>queues := [], tp_index := 0\<rparr>) = Inr n1" using start_threads_ok [OF assms(6)] by blast
  have "conns_size M T = Inr (M + 5 + 2 * T)" using assms(1-4) by (simp add: conns_size_def cint_add_def in_int_def)
  then show ?thesis using n1 assms(1,5) by (simp add: tcp_server_start_def thread_pool_new_def)
qed

section \<open>Properties\<close>

text \<open>
  C14: the DNS service starts as its configuration file says, whatever else is in the file: it listens at the address
  and port of the section \<open>reactor\<close> (the port modulo \<open>2 ^ 16\<close>), has \<open>maxConn\<close> as its limit on connections and \<open>threadNum\<close> threads
  with a queue each, and from then on its server is in order in every state it gets to.
\<close>

theorem dns_main_starts:
  assumes "\<forall>s \<in> set ss. section_ok s" and "pad_ok pad" and "net_zero n"
    and "T = sint (file_number ss ''reactor'' ''threadNum'' 3)" and "0 < T" and "T < 1000000"
    and "M = sint (file_number ss ''reactor'' ''maxConn'' 1000)" and "0 \<le> M" and "M < 1000000"
    and "length fds = nat T" and "\<forall>fd \<in> set fds. fd \<noteq> - 1"
    and "s_sock k \<noteq> - 1" and "0 \<le> s_bind k" and "s_listen k \<noteq> - 1"
  shows "\<exists>addr n1. dns_main aton (Some (render pad ss)) None k fds n = Inr (addr, n1) \<and>
    addr = sock_addr aton (file_string ss ''reactor'' ''ip'' ''0.0.0.0'') (ucast (file_number ss ''reactor'' ''port'' 8888)) \<and>
    max_conns n1 = M \<and> length (queues n1) = nat T \<and>
    (\<forall>n2. rtranclp (srv_step (srv_events (s_sock k) fds) (dns_env pb)) n1 n2 \<longrightarrow> srv_inv (srv_events (s_sock k) fds) n2)"
proof -
  obtain cf where cf: "setPath (Some (render pad ss)) None = Inr (True, Some cf)"
      "\<And>sec key d. GetString cf sec key d = file_string ss sec key d" "\<And>sec key d. GetNumber cf sec key d = file_number ss sec key d"
    using file_config [OF assms(1,2)] by blast
  obtain n1 where n1: "tcp_server_start (s_sock k) T M fds n = Inr n1" "max_conns n1 = M"
    using tcp_server_starts [OF assms(5,6,8-11)] by blast
  have "dns_main aton (Some (render pad ss)) None k fds n =
      Inr (sock_addr aton (file_string ss ''reactor'' ''ip'' ''0.0.0.0'') (ucast (file_number ss ''reactor'' ''port'' 8888)), n1)"
    using assms(12-14) n1(1) by (simp add: dns_main_def cf config_instance_def tcp_server_new_def Let_def assms(4,7))
  moreover have "srv_setup T fds (dns_env pb) n" using assms(3,5,10) ds.app_ok by (simp add: srv_setup_def)
  then have "srv_inv (srv_events (s_sock k) fds) n2 \<and> length (queues n2) = length fds"
    if "rtranclp (srv_step (srv_events (s_sock k) fds) (dns_env pb)) n1 n2" for n2
    using srv_reached_inv n1(1) that unfolding srv_reached_def by blast
  ultimately show ?thesis using n1(2) assms(10) by (metis rtranclp.rtrancl_refl)
qed

text \<open>
  The port of the database goes through a \<open>short\<close>: above 32767 the code asks MySQL for a port beyond \<open>2 ^ 32 - 32769\<close>,
  while the same number given as the port of a server is listened at as it is.
\<close>

theorem db_port_wraps:
  assumes "\<forall>s \<in> set ss. section_ok s" and "pad_ok pad" and "p < 65536"
    and "map_of (rev (entries ss)) (''mysql'', ''db_port'') = Some (show_nat p)"
    and "map_of (rev (entries ss)) (''reactor'', ''port'') = Some (show_nat p)"
  shows "\<exists>cf. setPath (Some (render pad ss)) None = Inr (True, Some cf) \<and>
    uint (db_port (store_db_args cf)) = (if p < 32768 then int p else int p + 2 ^ 32 - 65536) \<and>
    uint (ucast (GetNumber cf ''reactor'' ''port'' 8888) :: 16 word) = int p"
proof -
  obtain cf where cf: "setPath (Some (render pad ss)) None = Inr (True, Some cf)"
      "\<And>sec key d. GetString cf sec key d = file_string ss sec key d" "\<And>sec key d. GetNumber cf sec key d = file_number ss sec key d"
    using file_config [OF assms(1,2)] by blast
  have n: "parseNumber (show_nat p) = word_of_nat p" using assms(3) by (intro parseNumber_show) simp
  then have g: "GetNumber cf ''mysql'' ''db_port'' d = word_of_nat p" "GetNumber cf ''reactor'' ''port'' d = word_of_nat p" for d
    by (simp_all add: cf(3) file_number_def assms(4,5))
  have u: "(ucast (word_of_nat p :: u32) :: 16 word) = word_of_int (int p)" using assms(3) by (simp add: unsigned_of_nat take_bit_nat_eq_self)
  have "sint (word_of_int (int p) :: 16 word) = (int p + 32768) mod 65536 - 32768" by (subst int_word_sint) simp
  moreover have "(int p + 32768) mod 65536 = (if p < 32768 then int p + 32768 else int p - 32768)"
  proof (cases "p < 32768")
    case False
    have "(int p + 32768) mod 65536 = (int p - 32768 + 65536) mod 65536" by (simp add: add.commute)
    also have "\<dots> = (int p - 32768) mod 65536" by (rule mod_add_self2)
    finally show ?thesis using False assms(3) by simp
  qed (simp add: mod_pos_pos_trivial)
  ultimately have s: "sint (word_of_int (int p) :: 16 word) = (if p < 32768 then int p else int p - 65536)" by simp
  have "uint (scast w :: u32) = sint w mod 2 ^ 32" for w :: "16 word"
    by (simp only: scast_eq uint_word_of_int) simp
  then have "uint (scast (word_of_int (int p) :: 16 word) :: u32) = sint (word_of_int (int p) :: 16 word) mod 2 ^ 32" .
  also have "\<dots> = (if p < 32768 then int p else int p + 2 ^ 32 - 65536)"
  proof (cases "p < 32768")
    case False
    have "(int p - 65536) mod 4294967296 = (int p + 4294901760) mod 4294967296"
      using mod_add_self2 [of "int p - 65536" "4294967296 :: int"] by (simp add: algebra_simps)
    with False assms(3) s show ?thesis by simp
  qed (use s in simp)
  finally have w: "uint (scast (word_of_int (int p) :: 16 word) :: u32) = (if p < 32768 then int p else int p + 2 ^ 32 - 65536)" .
  have v: "uint (word_of_int (int p) :: 16 word) = int p" by (simp only: uint_word_of_int) (use assms(3) in simp)
  have d: "db_port (store_db_args cf) = scast (word_of_int (int p) :: 16 word)" unfolding store_db_args_def by (simp only: g u db_args.select_convs)
  show ?thesis by (rule exI [of _ cf], intro conjI, rule cf(1), unfold d, rule w, unfold g u, rule v)
qed

text \<open>
  C34: the API and the agent meet. Each of the three sockets of \<open>lars_client\<close> is connected to the local port at which the agent's
  UDP server of the same number listens, no two servers have the same port, and that server hands a request for a
  host or a route to the balancer of its number.
\<close>

theorem api_meets_agent:
  assumes "ids_ok pb" and "\<forall>i < 3. udp_router (s i) = msg_router_new"
    and "aton ''127.0.0.1'' = Some lo" and "aton ''0.0.0.0'' = Some 0"
    and "\<forall>(sock, ret) \<in> set [k0, k1, k2]. sock \<noteq> - 1 \<and> 0 \<le> ret" and "\<forall>(sock, ret) \<in> set [c0, c1, c2]. sock \<noteq> - 1 \<and> ret \<noteq> - 1"
    and "i < 3"
  shows "\<exists>servers client socks. start_UDP_servers aton pb 0 [k0, k1, k2] s = Inr servers \<and>
    lars_client_new aton c0 c1 c2 = Inr (client, socks) \<and> length servers = 3 \<and> length socks = 3 \<and>
    snd (socks ! i) = (lo, word_of_nat (8888 + i)) \<and> fst (servers ! i) = (0, word_of_nat (8888 + i)) \<and>
    (\<forall>j < 3. j \<noteq> i \<longrightarrow> snd (fst (servers ! j)) \<noteq> snd (fst (servers ! i))) \<and>
    (let r = udp_router (snd (snd (servers ! i)))
     in router r (ID_GetHostRequest pb) = Some 0 \<and> args r (ID_GetHostRequest pb) = Some i \<and>
        router r (ID_API_GetRouteRequest pb) = Some 2 \<and> args r (ID_API_GetRouteRequest pb) = Some i)"
proof -
  obtain s0 b0 s1 b1 s2 b2 where k: "k0 = (s0, b0)" "k1 = (s1, b1)" "k2 = (s2, b2)" by (cases k0, cases k1, cases k2) blast
  obtain t0 d0 t1 d1 t2 d2 where c: "c0 = (t0, d0)" "c1 = (t1, d1)" "c2 = (t2, d2)" by (cases c0, cases c1, cases c2) blast
  let ?srv = "\<lambda>i sock. ((0, word_of_nat (8888 + i)), add_io_event True sock server_read_callback EPOLLIN (Some ()) event_loop_new,
      agent_server_main pb i (s i)) :: (u32 \<times> 16 word) \<times> (udp_cb_name, unit, nat) loop_st \<times> _"
  have port: "sint (word_of_nat (8888 + i) :: 16 word) = int (8888 + i)" if "i < 3" for i
    using that by (auto simp: less_Suc_eq numeral_3_eq_3)
  have one: "agent_server_start aton pb i sock b (s i) = Inr (?srv i sock)" if "i < 3" "sock \<noteq> - 1" "0 \<le> b" for i sock b
    using that assms(4) port [OF that(1)]
    by (simp add: agent_server_start_def udp_server_new_def sock_addr_def Let_def add.commute)
  have servers: "start_UDP_servers aton pb 0 [k0, k1, k2] s = Inr [?srv 0 s0, ?srv 1 s1, ?srv 2 s2]"
    using assms(5) one [of 0 s0 b0] one [of 1 s1 b1] one [of 2 s2 b2] by (simp add: k numeral_2_eq_2)
  have socks: "lars_client_new aton c0 c1 c2 =
      Inr (\<lparr>seqid = 0, api_sent = []\<rparr>, [(t0, lo, 8888), (t1, lo, 8889), (t2, lo, 8890)])"
    using assms(3,6) by (simp add: c lars_client_new_def sock_addr_def)
  have rt: "router (udp_router (agent_server_main pb j (s j))) (ID_GetHostRequest pb) = Some 0"
    "args (udp_router (agent_server_main pb j (s j))) (ID_GetHostRequest pb) = Some j"
    "router (udp_router (agent_server_main pb j (s j))) (ID_API_GetRouteRequest pb) = Some 2"
    "args (udp_router (agent_server_main pb j (s j))) (ID_API_GetRouteRequest pb) = Some j" if "j < 3" for j
    using agent_router [OF assms(1)] assms(2) that by blast+
  consider "i = 0" | "i = 1" | "i = 2" using assms(7) by linarith
  then show ?thesis
    by (cases; intro exI [of _ "[?srv 0 s0, ?srv 1 s1, ?srv 2 s2]"] exI [of _ "\<lparr>seqid = 0, api_sent = []\<rparr>"]
        exI [of _ "[(t0, lo, 8888), (t1, lo, 8889), (t2, lo, 8890)]"])
      (use servers socks rt in \<open>auto simp: less_Suc_eq numeral_3_eq_3 numeral_2_eq_2\<close>)
qed

section \<open>Witnesses\<close>

lemma show_nat_demo: "show_nat 40000 = ''40000''" "show_nat 1 = ''1''"
  by (simp_all add: show_nat.simps char_of_def bit_0)

definition demo_conf :: "(string \<times> conf_item list) list" where
  "demo_conf = [(''reactor'', [Entry ''ip'' ''127.0.0.1'', Entry ''threadNum'' ''1'', Entry ''port'' ''40000'']),
     (''mysql'', [Entry ''db_port'' ''40000''])]"

definition demo_aton :: "string \<Rightarrow> u32 option" where
  "demo_aton ip = (if ip = ''127.0.0.1'' then Some 16777343 else if ip = ''0.0.0.0'' then Some 0 else None)"

lemma demo_conf_ok: "\<forall>s \<in> set demo_conf. section_ok s" "pad_ok '' ''"
  by (simp_all add: demo_conf_def section_ok_def item_ok_def trimmed_def one_line_def pad_ok_def isspace_def)

lemma demo_conf_lookup:
  "map_of (rev (entries demo_conf)) (''reactor'', ''ip'') = Some ''127.0.0.1''"
  "map_of (rev (entries demo_conf)) (''reactor'', ''threadNum'') = Some (show_nat 1)"
  "map_of (rev (entries demo_conf)) (''reactor'', ''maxConn'') = None"
  "map_of (rev (entries demo_conf)) (''reactor'', ''port'') = Some (show_nat 40000)"
  "map_of (rev (entries demo_conf)) (''mysql'', ''db_port'') = Some (show_nat 40000)"
  by (simp_all add: demo_conf_def entries_def item_entries_def show_nat_demo del: One_nat_def)

lemma dns_main_starts_witness:
  "\<exists>n1. dns_main demo_aton (Some (render '' '' demo_conf)) None \<lparr>s_sock = 3, s_bind = 0, s_listen = 0\<rparr> [8] demo_zero = Inr ((16777343, 40000), n1) \<and>
     max_conns n1 = 1000 \<and> length (queues n1) = 1 \<and> srv_inv (srv_events 3 [8]) n1"
proof -
  have zero: "net_zero demo_zero" using drained_pool_inv drained_all_free by (simp add: net_zero_def demo_zero_def)
  have f: "file_number demo_conf ''reactor'' ''threadNum'' 3 = 1" "file_number demo_conf ''reactor'' ''maxConn'' 1000 = 1000"
    "file_number demo_conf ''reactor'' ''port'' 8888 = 40000" "file_string demo_conf ''reactor'' ''ip'' ''0.0.0.0'' = ''127.0.0.1''"
    by (simp_all add: file_number_def file_string_def demo_conf_lookup parseNumber_show)
  have s: "1 = sint (file_number demo_conf ''reactor'' ''threadNum'' 3)" "1000 = sint (file_number demo_conf ''reactor'' ''maxConn'' 1000)"
    unfolding f by simp_all
  from dns_main_starts [OF demo_conf_ok zero s(1) _ _ s(2), of "[8]" "\<lparr>s_sock = 3, s_bind = 0, s_listen = 0\<rparr>" demo_aton demo_proto]
  obtain n1 where n1: "dns_main demo_aton (Some (render '' '' demo_conf)) None \<lparr>s_sock = 3, s_bind = 0, s_listen = 0\<rparr> [8] demo_zero =
      Inr (sock_addr demo_aton ''127.0.0.1'' (ucast (40000 :: u32)), n1)" "max_conns n1 = 1000" "length (queues n1) = 1"
      "\<forall>n2. rtranclp (srv_step (srv_events 3 [8]) (dns_env demo_proto)) n1 n2 \<longrightarrow> srv_inv (srv_events 3 [8]) n2"
    unfolding f by auto
  then show ?thesis by (auto simp: sock_addr_def demo_aton_def)
qed

lemma db_port_wraps_witness:
  "\<exists>cf. setPath (Some (render '' '' demo_conf)) None = Inr (True, Some cf) \<and> uint (db_port (store_db_args cf)) = 4294941760"
  using db_port_wraps [OF demo_conf_ok _ demo_conf_lookup(5,4)] by auto

lemma api_meets_agent_witness:
  "\<exists>servers client socks. start_UDP_servers demo_aton demo_api_proto 0 [(4, 0), (5, 0), (6, 0)] (\<lambda>_. demo_agent_srv) = Inr servers \<and>
     lars_client_new demo_aton (7, 0) (8, 0) (9, 0) = Inr (client, socks) \<and> snd (socks ! 2) = (16777343, 8890) \<and> fst (servers ! 2) = (0, 8890)"
proof -
  have "ids_ok demo_api_proto" "\<forall>i < 3. udp_router ((\<lambda>_. demo_agent_srv) i) = msg_router_new"
    by (simp_all add: ids_ok_def demo_api_proto_def in_int_def demo_agent_srv_def)
  from api_meets_agent [OF this, of demo_aton 16777343 "(4, 0)" "(5, 0)" "(6, 0)" "(7, 0)" "(8, 0)" "(9, 0)" 2] show ?thesis
    by (auto simp: demo_aton_def)
qed

end
