(* ===== verification/Balance_Fair.thy ===== *)
theory Balance_Fair
  imports Balance_Churn
begin

text \<open>
  Overloaded hosts are not forgotten. What still has to happen before a given one is probed is a number that
  no report and no route answer makes larger and every choice makes smaller, whatever comes in between, also when
  other hosts come and go.
\<close>

definition place :: "'a \<Rightarrow> 'a list \<Rightarrow> nat" where
  "place a l = length (takeWhile (\<lambda>x. x \<noteq> a) l)"

lemma place_simps [simp]: "place a [] = 0" "place a (x # l) = (if x = a then 0 else Suc (place a l))"
  by (simp_all add: place_def)

lemma place_append: "a \<in> set l \<Longrightarrow> place a (l @ l') = place a l"
  by (induction l) auto

lemma place_removeAll: "b \<noteq> a \<Longrightarrow> place a (removeAll b l) \<le> place a l"
  by (induction l) auto

lemma place_filter: "P a \<Longrightarrow> place a (filter P l) \<le> place a l"
  by (induction l) auto

text \<open>The number of choices before the host is probed, at most.\<close>

definition choices_ahead :: "load_balance_config \<Rightarrow> addr \<Rightarrow> load_balance \<Rightarrow> int" where
  "choices_ahead cfg a s = int (place a (overload_list s)) * (probe_num cfg + 1) + (probe_num cfg - access_cnt s)"

lemma choices_ahead_mono:
  assumes "place a (overload_list s') \<le> place a (overload_list s)" and "access_cnt s' = access_cnt s" and "0 \<le> probe_num cfg"
  shows "choices_ahead cfg a s' \<le> choices_ahead cfg a s"
proof -
  have "int (place a (overload_list s')) * (probe_num cfg + 1) \<le> int (place a (overload_list s)) * (probe_num cfg + 1)"
    using assms(1,3) by (intro mult_right_mono) simp_all
  then show ?thesis using assms(2) by (simp add: choices_ahead_def)
qed

lemma choice_nearer:
  assumes r: "lb_ready s" and a: "a \<in> set (overload_list s)" and c: "access_cnt s \<le> probe_num cfg" "0 \<le> probe_num cfg"
    and run: "choice_one_host cfg s = Inr (rc, h, s')" and no: "h \<noteq> Some (host_of s a)"
  shows "access_cnt s' \<le> probe_num cfg \<and> choices_ahead cfg a s' = choices_ahead cfg a s - 1"
proof -
  have inv: "lb_inv s" and ne: "overload_list s \<noteq> []" using r a by (auto simp: lb_ready_def)
  show ?thesis
  proof (cases "access_cnt s < probe_num cfg")
    case lt: True
    show ?thesis
    proof (cases "idle_list s = []")
      case True
      from choice_wait [OF True lt] run have e: "s' = s\<lparr>access_cnt := access_cnt s + 1\<rparr>" by simp
      then show ?thesis using lt by (simp add: choices_ahead_def)
    next
      case False
      from choice_idle [OF inv False, of cfg] lt ne run
      have e: "overload_list s' = overload_list s" "access_cnt s' = access_cnt s + 1" by auto
      then show ?thesis using lt by (simp add: choices_ahead_def)
    qed
  next
    case False
    obtain b l where l: "overload_list s = b # l" using ne by (cases "overload_list s") auto
    from choice_probe [OF inv ne, of cfg] False run
    have e: "h = Some (host_of s b)" "overload_list s' = l @ [b]" "access_cnt s' = 0" by (auto simp: l)
    then have "b \<noteq> a" using no by auto
    then have "place a (overload_list s') = place a l" "place a (overload_list s) = Suc (place a l)"
      using a l e(2) by (auto simp: place_append)
    then show ?thesis using False c e(3) by (simp add: choices_ahead_def algebra_simps)
  qed
qed

lemma sound_choice_nearer:
  assumes s: "lb_sound s" and a: "a \<in> set (overload_list s)" and c: "access_cnt s \<le> probe_num cfg" "0 \<le> probe_num cfg"
    and run: "choice_one_host cfg s = Inr (rc, h, s')" and no: "h \<noteq> Some (host_of s a)"
  shows "access_cnt s' \<le> probe_num cfg \<and> choices_ahead cfg a s' = choices_ahead cfg a s - 1"
proof -
  obtain u where u: "choice_one_host cfg (prune s) = Inr (rc, h, u)" "s' = u\<lparr>host_map := host_map s\<rparr>"
    using run unfolding choice_pruned [of cfg s] by (auto simp: rbind_eq_Inr)
  obtain ha where "host_heap s a = Some ha" "map_of (host_map s) (mk_key_u (h_ip ha) (h_port ha)) = Some a"
    using sound_listed [OF s] a by blast
  with map_of_prune [OF s] have "map_of (host_map (prune s)) (mk_key_u (h_ip ha) (h_port ha)) = Some a" by blast
  then have "host_map (prune s) \<noteq> []" by auto
  then have "lb_ready (prune s)" using s by (simp add: lb_ready_def lb_sound_def)
  from choice_nearer [OF this _ _ c(2) u(1)] a c(1) no u(2) show ?thesis by (simp add: choices_ahead_def)
qed

text \<open>A report about another host can only move the given one forward; one about itself leaves its place.\<close>

lemma report_not_further:
  assumes s: "lb_sound s" and a: "a \<in> set (overload_list s)"
    and run: "lb_report cfg t0 t1 ip port b s = Inr s'" and still: "a \<in> set (overload_list s')"
  shows "place a (overload_list s') \<le> place a (overload_list s)"
proof (cases "map_of (host_map s) (mk_key ip port)")
  case None
  then show ?thesis using run by (simp add: lb_report_def)
next
  case (Some c)
  obtain h where h: "host_heap s c = Some h" using run report_dangling [OF Some] by (cases "host_heap s c") auto
  have l: "overload_list s' = snd (follow_flag c (overload h) (overload (report_host cfg t0 t1 b h)) s)"
    using sound_report [OF s Some h, of cfg t0 t1 b] run by auto
  show ?thesis
  proof (cases "c = a")
    case True
    then show ?thesis using sound_host(4) [OF s Some h] a still l by (auto simp: follow_flag_def split: if_splits)
  next
    case False
    then show ?thesis using a place_removeAll [of c a "overload_list s"]
      unfolding l by (auto simp: follow_flag_def place_append)
  qed
qed

lemma step_nearer:
  assumes s: "lb_sound s" and kh: "keeps_host k (e # es)" and k: "map_of (host_map s) k = Some a"
    and a: "a \<in> set (overload_list s)" and c: "access_cnt s \<le> probe_num cfg" "0 \<le> probe_num cfg"
    and run: "lb_step cfg e s = Inr (out, s')" and still: "a \<in> set (overload_list s')"
    and no: "times_chosen (host_of s a) out = 0"
  shows "access_cnt s' \<le> probe_num cfg \<and>
    choices_ahead cfg a s' \<le> choices_ahead cfg a s - (if e = Choose then 1 else 0)"
proof (cases e)
  case Choose
  with run obtain rc h where "choice_one_host cfg s = Inr (rc, h, s')" "out = [(rc, h)]" by (auto simp: rbind_eq_Inr)
  with sound_choice_nearer [OF s a c this(1)] no Choose show ?thesis by (auto split: if_splits)
next
  case (Result ip port b t0 t1)
  with run have "lb_report cfg t0 t1 ip port b s = Inr s'" by (auto simp: rbind_eq_Inr)
  from choices_ahead_mono [OF report_not_further [OF s a this still] report_access [OF this] c(2)] report_access [OF this] c
  show ?thesis unfolding Result by simp
next
  case (Routes now hosts)
  with run have u: "lb_update cfg now hosts s = Inr s'" by (auto simp: rbind_eq_Inr)
  have kin: "k \<in> host_key ` set hosts" "hosts \<noteq> []" using kh by (auto simp: Routes)
  have "place a (overload_list s') \<le> place a (overload_list s)"
    using s kin(2)
  proof (cases rule: sound_update [where cfg = cfg and now = now])
    case (2 t D)
    then show ?thesis using u place_filter [of "\<lambda>x. x \<notin> D" a "overload_list s"] kin(1) k by auto
  qed (use u in simp)
  from choices_ahead_mono [OF this update_access [OF u] c(2)] update_access [OF u] c show ?thesis unfolding Routes by simp
qed

lemma run_nearer:
  assumes "lb_sound s" and "keeps_host k es" and "map_of (host_map s) k = Some a"
    and "host_heap s a = Some h" and "overload h" and "overload_ts h = Some t"
    and "failures_within cfg t (results_about k es)" and "access_cnt s \<le> probe_num cfg" and "0 \<le> probe_num cfg"
    and "lb_run cfg es s = Inr (outs, s')" and "times_chosen (host_of s a) outs = 0"
  shows "int (choices_made es) \<le> choices_ahead cfg a s"
  using assms
proof (induction es arbitrary: s h outs)
  case Nil
  then show ?case by (simp add: choices_ahead_def)
next
  case (Cons e es)
  obtain out s1 outs2 where o: "lb_step cfg e s = Inr (out, s1)" "lb_run cfg es s1 = Inr (outs2, s')" "outs = out @ outs2"
    using Cons.prems(10) by (auto simp: rbind_eq_Inr)
  have s1: "lb_sound s1" "keeps_host k es" "map_of (host_map s1) k = Some a"
      "host_heap s1 a = Some (report_hosts cfg (results_about k [e]) h)"
    by (cases rule: churn_step [OF Cons.prems(1-4), of cfg]; use o(1) in simp)+
  have fw: "failures_within cfg t (results_about k [e])" "failures_within cfg t (results_about k es)"
    using Cons.prems(7) by (auto simp: failures_within_def results_about_Cons [of k e es] simp del: results_about.simps)
  note ov = failures_keep_overload [OF Cons.prems(5,6) fw(1)]
  have a: "a \<in> set (overload_list s)" "a \<in> set (overload_list s1)"
    using sound_host(4) [OF Cons.prems(1,3,4)] sound_host(4) [OF s1(1,3,4)] Cons.prems(5) ov by simp_all
  have ho: "host_of s1 a = host_of s a" using s1(4) Cons.prems(4) by (simp add: host_of_def)
  have no: "times_chosen (host_of s a) out = 0" "times_chosen (host_of s1 a) outs2 = 0"
    using Cons.prems(11) unfolding o(3) ho by (simp_all add: times_chosen_def)
  from step_nearer [OF Cons.prems(1-3) a(1) Cons.prems(8,9) o(1) a(2) no(1)]
    Cons.IH [OF s1 _ _ fw(2) _ Cons.prems(9) o(2) no(2)] ov
  show ?case by (auto split: if_splits)
qed

section \<open>Properties\<close>

text \<open>
  C8: an overloaded host is probed in time. Take an overloaded host that every route answer repeats and about which only
  failures are reported, within its time window. As soon as \<open>probe_num + 1\<close> choices have been made for each host
  before it on the overload list and for itself (less what \<open>access_cnt\<close> has already counted), one of them has answered
  with it, whatever was reported about other hosts and whichever of those came and went; unless the balancer has
  stopped at the entry of another host that a route answer had dropped, by its use after free. So no overloaded host
  starves, and with the bound of \<open>overloaded_share\<close> its part of the choices is known from both sides.
\<close>

theorem overloaded_probed:
  assumes "lb_ready s" and "keeps_host (mk_key ip port) es"
    and "map_of (host_map s) (mk_key ip port) = Some a" and "host_heap s a = Some h"
    and "overload h" and "overload_ts h = Some t"
    and "failures_within cfg t (results_about (mk_key ip port) es)"
    and "access_cnt s \<le> probe_num cfg" and "0 \<le> probe_num cfg"
    and "choices_ahead cfg a s < int (choices_made es)"
  shows "lb_run cfg es s = Inl UseAfterFree \<and> \<not> none_leaves (keys s) es \<or>
    (\<exists>outs s'. lb_run cfg es s = Inr (outs, s') \<and> (RET_SUCC, Some (ip, port)) \<in> set outs)"
proof -
  have s: "lb_sound s" using assms(1) by (simp add: lb_ready_def lb_inv_sound)
  have nl: "lb_run cfg es s \<noteq> Inl UseAfterFree" if "none_leaves (keys s) es"
    using run_ok [OF assms(1) that assms(3,4), of cfg] by auto
  from churn_run [OF s assms(2-4), of cfg] show ?thesis
  proof (elim disjE exE conjE)
    fix outs s'
    assume run: "lb_run cfg es s = Inr (outs, s')"
    have ho: "host_of s a = (ip, port)" by (rule host_of_named [OF assms(1,3,4)])
    have "times_chosen (ip, port) outs \<noteq> 0"
      using run_nearer [OF s assms(2-9) run] assms(10) unfolding ho by linarith
    then have "\<exists>c \<in> set outs. snd c = Some (ip, port)" by (auto simp: times_chosen_def filter_empty_conv)
    then show ?thesis using run run_answers [OF run] by fastforce
  qed (use nl in blast)
qed

lemma overloaded_probed_witness:
  "\<exists>outs s'. lb_run demo_cfg [Choose, Result 2 80 True 102 102, Choose, Result 1 80 False 105 105, Choose,
      Routes 106 [(3, 80), (2, 80), (1, 80)], Choose] demo_ov = Inr (outs, s') \<and> (RET_SUCC, Some (1, 80)) \<in> set outs"
    (is "\<exists>outs s'. lb_run demo_cfg ?es demo_ov = Inr (outs, s') \<and> _")
proof -
  have "none_leaves (keys demo_ov) ?es"
    by (simp add: demo_ov_host(1) demo_lb_eq(2) host_key_def mk_key_u_eq)
  moreover have "lb_run demo_cfg ?es demo_ov = Inl UseAfterFree \<and> \<not> none_leaves (keys demo_ov) ?es \<or>
      (\<exists>outs s'. lb_run demo_cfg ?es demo_ov = Inr (outs, s') \<and> (RET_SUCC, Some (1, 80)) \<in> set outs)"
    by (rule overloaded_probed [OF demo_ready(2), where ip = 1 and port = 80 and t = 101, OF _ _ demo_ov_host(2)])
      (simp_all add: demo_ov_host(1) demo_lb_eq(2) demo_ov_eq(3,4) failures_within_def set_overload_def demo_cfg_def
        host_key_def mk_key_u_eq choices_ahead_def)
  ultimately show ?thesis by blast
qed

end
