(* ===== verification/Agent_Main.thy ===== *)
theory Agent_Main
  imports Agent_Start
begin

text \<open>
  \<open>main\<close> of the agent (\<open>lars_lb_agent/src/main_server.cpp\<close>) as the sequence of its statements after
  \<open>init_lb_agent\<close>. The UDP servers are threads of their own from the first statement on and can be in
  \<open>load_balance::pull\<close> or \<open>commit\<close> between any two of them; these go through the global pointers
  \<open>dns_queue\<close> and \<open>report_queue\<close>, which are \<open>NULL\<close> until \<open>main\<close> has created the queues.
\<close>

record agent_proc =
  udp_servers_run :: bool
  report_queue_ptr :: "status_request tqueue option"
  report_client_runs :: bool
  dns_queue_ptr :: "(i32 \<times> i32) tqueue option"
  dns_client_runs :: bool

definition agent_proc_new :: agent_proc where
  "agent_proc_new = \<lparr>udp_servers_run = False, report_queue_ptr = None, report_client_runs = False,
     dns_queue_ptr = None, dns_client_runs = False\<rparr>"

text \<open>The statements; the numbers are what \<open>eventfd\<close> returns in the constructor of a queue.\<close>

datatype main_stmt = StartUdpServers | NewReportQueue int | StartReportClient | NewDnsQueue int | StartDnsClient

definition agent_main :: "int \<Rightarrow> int \<Rightarrow> main_stmt list" where
  "agent_main fd1 fd2 = [StartUdpServers, NewReportQueue fd1, StartReportClient, NewDnsQueue fd2, StartDnsClient]"

fun main_exec :: "main_stmt \<Rightarrow> agent_proc \<Rightarrow> agent_proc res" where
  "main_exec StartUdpServers p = Inr (p\<lparr>udp_servers_run := True\<rparr>)"
| "main_exec (NewReportQueue fd) p = rbind (thread_queue_new fd) (\<lambda>q. Inr (p\<lparr>report_queue_ptr := Some q\<rparr>))"
| "main_exec StartReportClient p = Inr (p\<lparr>report_client_runs := True\<rparr>)"
| "main_exec (NewDnsQueue fd) p = rbind (thread_queue_new fd) (\<lambda>q. Inr (p\<lparr>dns_queue_ptr := Some q\<rparr>))"
| "main_exec StartDnsClient p = Inr (p\<lparr>dns_client_runs := True\<rparr>)"

fun main_run :: "main_stmt list \<Rightarrow> agent_proc \<Rightarrow> agent_proc res" where
  "main_run [] p = Inr p"
| "main_run (c # cs) p = rbind (main_exec c p) (main_run cs)"

text \<open>The two calls of a balancer that use the queues, as the UDP servers make them.\<close>

definition pull_now :: "load_balance \<Rightarrow> agent_proc \<Rightarrow> (load_balance \<times> agent_proc) res" where
  "pull_now s p =
     (case dns_queue_ptr p of
        None \<Rightarrow> Inl NullDeref
      | Some q \<Rightarrow> rbind (pull s q) (\<lambda>(_, s', q'). Inr (s', p\<lparr>dns_queue_ptr := Some q'\<rparr>)))"

definition commit_now :: "int \<Rightarrow> load_balance \<Rightarrow> agent_proc \<Rightarrow> agent_proc res" where
  "commit_now now s p =
     (if lb_empty s then Inr p
      else case report_queue_ptr p of
        None \<Rightarrow> rbind (results_of s False (idle_list s)) (\<lambda>_. rbind (results_of s True (overload_list s)) (\<lambda>_. Inl NullDeref))
      | Some q \<Rightarrow> rbind (commit now s q) (\<lambda>q'. Inr (p\<lparr>report_queue_ptr := Some q'\<rparr>)))"

text \<open>
  Whichever statement \<open>main\<close> has reached: a module that is asked for before the fourth is done crashes the
  agent, a report of a balancer with hosts before the second; after that both only queue a message. The
  UDP servers serve from the first on, so two windows are open in which the answer to a request is a crash.
\<close>

theorem early_request_crashes:
  assumes "fd1 \<noteq> - 1" and "fd2 \<noteq> - 1" and "n \<le> 5" and "lb_inv s" and "host_map s \<noteq> []"
  shows "\<exists>p. main_run (take n (agent_main fd1 fd2)) agent_proc_new = Inr p \<and>
    (udp_servers_run p \<longleftrightarrow> 1 \<le> n) \<and>
    (if n < 4 then pull_now s p = Inl NullDeref
     else \<exists>s' p' q. pull_now s p = Inr (s', p') \<and> dns_queue_ptr p' = Some q \<and> q_items q = [(lb_modid s, lb_cmdid s)]) \<and>
    (if n < 2 then commit_now now s p = Inl NullDeref else \<exists>p'. commit_now now s p = Inr p')"
proof -
  let ?q = "\<lambda>fd. \<lparr>evfd = fd, ev_counter = 0, q_items = [], q_loop = None\<rparr>"
  have c: "\<exists>q'. commit now s (?q fd1) = Inr q'" using commit_reports [OF assms(4), of "?q fd1" now] by auto
  then obtain r1 r2 where r: "results_of s False (idle_list s) = Inr r1" "results_of s True (overload_list s) = Inr r2"
    using assms(5) by (auto simp: commit_def lb_empty_def rbind_eq_Inr)
  have d: "pull s (?q fd2) = Inr (0, s\<lparr>lb_status := PULLING\<rparr>, (?q fd2)\<lparr>q_items := [(lb_modid s, lb_cmdid s)], ev_counter := 1\<rparr>)"
    by (simp add: pull_def send_def)
  consider "n = 0" | "n = 1" | "n = 2" | "n = 3" | "n = 4" | "n = 5" using assms(3) by linarith
  then show ?thesis
    using c d r assms(1,2,5)
    by cases (auto simp: agent_main_def agent_proc_new_def thread_queue_new_def pull_now_def commit_now_def lb_empty_def
        numeral_eq_Suc)
qed

lemma early_request_crashes_witness:
  "\<exists>p. main_run (take 3 (agent_main 5 6)) agent_proc_new = Inr p \<and> udp_servers_run p \<and> pull_now demo_lb p = Inl NullDeref"
  using early_request_crashes [of 5 6 3 demo_lb] by (auto simp: demo_lb_inv demo_lb_eq(2))

end
