(* ===== verification/Conn_Pair.thy ===== *)
theory Conn_Pair
  imports Tcp_Client
begin

text \<open>
  A connection with both of its buffers: what reading, answering from a message callback and writing do to the
  unread and to the unsent bytes together. The locale \<open>conn_pair\<close> joins two \<open>conn_buffer\<close>s over one pool and is
  interpreted for \<open>tcp_conn\<close> and for \<open>tcp_client\<close>.
\<close>

section \<open>Two buffers of one pool\<close>

lemma encode_msg_nonempty: "encode_msg m \<noteq> []"
  using length_encode_msg [of m] by (metis add_is_0 list.size(3) zero_neq_numeral)

locale conn_pair = inp: conn_buffer ibuf pool put_i + outp: conn_buffer obuf pool put_o
  for ibuf :: "'w \<Rightarrow> ptr" and obuf :: "'w \<Rightarrow> ptr" and pool :: "'w \<Rightarrow> pool_st"
    and put_i :: "ptr \<Rightarrow> pool_st \<Rightarrow> 'w \<Rightarrow> 'w" and put_o :: "ptr \<Rightarrow> pool_st \<Rightarrow> 'w \<Rightarrow> 'w" +
  assumes obuf_put_i [simp]: "obuf (put_i p s w) = obuf w"
    and ibuf_put_o [simp]: "ibuf (put_o p s w) = ibuf w"
begin

definition pair_ok :: "'w \<Rightarrow> u8 list \<Rightarrow> u8 list \<Rightarrow> bool" where
  "pair_ok w d e \<longleftrightarrow> pool_inv (pool w) \<and> rb_holds (pool w) (ibuf w) d \<and> rb_holds (pool w) (obuf w) e \<and>
     rb_ready (pool w) (ibuf w) \<and> rb_ready (pool w) (obuf w) \<and> (ibuf w = obuf w \<longrightarrow> ibuf w = NULL)"

lemma pair_holds:
  assumes "pair_ok w d e"
  shows "inp.holds w d" "outp.holds w e" "rb_ready (pool w) (ibuf w)" "rb_ready (pool w) (obuf w)"
  using assms by (simp_all add: pair_ok_def inp.holds_def outp.holds_def)

text \<open>Work on one buffer leaves the other alone.\<close>

lemma pair_other_i:
  assumes ok: "pair_ok w d e" and k: "others_kept (pool w) (ibuf w) s q"
  shows "rb_holds s (obuf w) e" "rb_ready s (obuf w)" "q = obuf w \<Longrightarrow> q = NULL"
proof -
  have o: "rb_holds (pool w) (obuf w) e" "rb_ready (pool w) (obuf w)" "obuf w \<noteq> ibuf w \<or> obuf w = NULL"
    using ok by (auto simp: pair_ok_def)
  show "rb_holds s (obuf w) e" "rb_ready s (obuf w)" "q = obuf w \<Longrightarrow> q = NULL"
    using rb_holds_other [OF k o(1,3)] rb_ready_other [OF k o(1,2,3)] kept_apart [OF k o(1,3)] by blast+
qed

lemma pair_other_o:
  assumes ok: "pair_ok w d e" and k: "others_kept (pool w) (obuf w) s q"
  shows "rb_holds s (ibuf w) d" "rb_ready s (ibuf w)" "q = ibuf w \<Longrightarrow> q = NULL"
proof -
  have o: "rb_holds (pool w) (ibuf w) d" "rb_ready (pool w) (ibuf w)" "ibuf w \<noteq> obuf w \<or> ibuf w = NULL"
    using ok by (auto simp: pair_ok_def)
  show "rb_holds s (ibuf w) d" "rb_ready s (ibuf w)" "q = ibuf w \<Longrightarrow> q = NULL"
    using rb_holds_other [OF k o(1,3)] rb_ready_other [OF k o(1,2,3)] kept_apart [OF k o(1,3)] by blast+
qed

lemma pair_put_i:
  assumes "pair_ok w d e" and "others_kept (pool w) (ibuf w) s q" "pool_inv s" "rb_holds s q d'" "rb_ready s q"
  shows "pair_ok (put_i q s w) d' e"
  using pair_other_i [OF assms(1,2)] assms(3-5) by (auto simp: pair_ok_def)

lemma pair_put_o:
  assumes "pair_ok w d e" and "others_kept (pool w) (obuf w) s q" "pool_inv s" "rb_holds s q e'" "rb_ready s q"
  shows "pair_ok (put_o q s w) d e'"
  using pair_other_o [OF assms(1,2)] assms(3-5) by (auto simp: pair_ok_def)

text \<open>Sending puts a message behind what waits; a small one is never refused.\<close>

lemma pair_send:
  assumes ok: "pair_ok w d e" and run: "send_framed obuf pool put_o arm data i w = Inr (r, w')"
    and small: "length e + 8 + length data \<le> 8388608"
    and arm: "\<And>v. ibuf (arm v) = ibuf v" "\<And>v. obuf (arm v) = obuf v" "\<And>v. pool (arm v) = pool v"
  shows "\<exists>p s. w' = (if e = [] then arm (put_o p s w) else put_o p s w) \<and> pair_ok w' d (e @ encode_msg (i, data)) \<and>
    others_kept (pool w) (obuf w) s p"
proof -
  note h = pair_holds [OF ok]
  have "r = 0" using outp.send_framed_small [OF h(2,4) run small] .
  then obtain p s where ps: "w' = (if e = [] then arm (put_o p s w) else put_o p s w)" "pool_inv s"
      "rb_holds s p (e @ encode_msg (i, data))" "rb_ready s p" "others_kept (pool w) (obuf w) s p"
    using outp.send_framed_ok [OF h(2,4)] run by blast
  have "pair_ok (put_o p s w) d (e @ encode_msg (i, data))" using pair_put_o [OF ok ps(5,2-4)] .
  moreover have "pair_ok (arm v) d' e' = pair_ok v d' e'" for v d' e' by (simp add: pair_ok_def arm)
  ultimately have "pair_ok w' d (e @ encode_msg (i, data))" unfolding ps(1) by (simp only: split: if_split) simp
  with ps(1,5) show ?thesis by blast
qed

section \<open>Reading\<close>

lemma pair_read_part:
  assumes ok: "pair_ok w d e" and bs: "bs \<noteq> []" and part: "encode_msg m = (d @ bs) @ rest" "msg_ok m" "rest \<noteq> []"
    and small: "length (d @ bs) \<le> 8388608"
    and run: "read_frames fuel ibuf pool put_i call clean_up (Some (int (length bs))) [Rd bs] w = Inr w'"
  shows "\<exists>p s. w' = put_i p s w \<and> pair_ok w' (d @ bs) e"
proof -
  note h = pair_holds [OF ok]
  obtain q s1 where res: "reserve (int (length bs)) (ibuf w) (pool w) = Inr (True, q, s1)"
    using inp.read_reserved [OF h(1,3) run] small by auto
  have "parse (d @ bs) = ([], d @ bs, False)" using parse_partial [OF part(2,1,3)] .
  from inp.read_frames_part [OF h(1,3) res bs this, of fuel call clean_up] run pair_put_i [OF ok]
  show ?thesis by auto
qed

text \<open>The callback of a message that answers with one message; \<open>g\<close> is what it does to its own data before.\<close>

lemma pair_read_reply:
  assumes ok: "pair_ok w d e" and bs: "bs \<noteq> []" and m: "d @ bs = encode_msg m" "msg_ok m" "snd m \<noteq> []"
    and small: "length (d @ bs) \<le> 8388608" "length e + 8 + length data \<le> 8388608"
    and call: "\<And>p s x. call (fst m) (int (length (snd m))) (Some (snd m)) (put_i p s w) = Inr x \<Longrightarrow>
        \<exists>r. send_framed obuf pool put_o arm data i (g (put_i p s w)) = Inr (r, x)"
    and g: "\<And>v. ibuf (g v) = ibuf v" "\<And>v. obuf (g v) = obuf v" "\<And>v. pool (g v) = pool v"
    and arm: "\<And>v. ibuf (arm v) = ibuf v" "\<And>v. obuf (arm v) = obuf v" "\<And>v. pool (arm v) = pool v"
    and view: "\<And>p s v. view (put_i p s v) = view v" "\<And>p s v. view (put_o p s v) = view v" "\<And>v. view (arm v) = view v"
      "\<And>p s v. view (g (put_i p s v)) = view (g v)"
    and run: "read_frames (Suc fuel) ibuf pool put_i call clean_up (Some (int (length bs))) [Rd bs] w = Inr w'"
  shows "pair_ok w' [] (e @ encode_msg (i, data)) \<and> view w' = view (g w) \<and>
    (\<exists>p s x. call (fst m) (int (length (snd m))) (Some (snd m)) (put_i p s w) = Inr x)"
proof -
  note h = pair_holds [OF ok]
  obtain q s1 where res: "reserve (int (length bs)) (ibuf w) (pool w) = Inr (True, q, s1)"
    using inp.read_reserved [OF h(1,3) run] small by auto
  obtain p s where ps: "pool_inv s" "rb_holds s p (snd m)" "p \<noteq> NULL" "others_kept (pool w) (ibuf w) s p"
    and no: "\<And>x. call (fst m) (int (length (snd m))) (Some (snd m)) (put_i p s w) \<noteq> Inl x"
    and yes: "\<And>x. call (fst m) (int (length (snd m))) (Some (snd m)) (put_i p s w) = Inr x \<Longrightarrow> inp.holds x (snd m) \<Longrightarrow> ibuf x = p \<Longrightarrow>
        \<exists>s2. w' = put_i NULL s2 x \<and> pool_inv s2 \<and> others_kept (pool x) p s2 NULL"
    using inp.read_frames_one [OF h(1,3) res bs m, of fuel call clean_up] run unfolding Let_def by auto
  let ?v = "put_i p s w"
  obtain x where x: "call (fst m) (int (length (snd m))) (Some (snd m)) ?v = Inr x"
    using no by (cases "call (fst m) (int (length (snd m))) (Some (snd m)) ?v") auto
  obtain r where sent: "send_framed obuf pool put_o arm data i (g ?v) = Inr (r, x)" using call [OF x] by blast
  note o = pair_other_i [OF ok ps(4)]
  have ho: "outp.holds (g ?v) e" "rb_ready (pool (g ?v)) (obuf (g ?v))" using o ps(1) by (simp_all add: outp.holds_def g)
  have "r = 0" using outp.send_framed_small [OF ho sent small(2)] .
  then obtain p2 s2 where x2: "x = (if e = [] then arm (put_o p2 s2 (g ?v)) else put_o p2 s2 (g ?v))" "pool_inv s2"
      "rb_holds s2 p2 (e @ encode_msg (i, data))" "rb_ready s2 p2" "others_kept s (obuf w) s2 p2"
    using outp.send_framed_ok [OF ho sent [unfolded \<open>r = 0\<close>]] unfolding g inp.pool_put obuf_put_i by blast
  have pi: "pool x = s2" "ibuf x = p" "obuf x = p2" using x2(1) by (simp_all add: arm g)
  have po: "p \<noteq> obuf w \<or> p = NULL" using o(3) by blast
  have "inp.holds x (snd m)" using rb_holds_other [OF x2(5) ps(2) po] x2(2) by (simp add: inp.holds_def pi)
  from yes [OF x this pi(2)] obtain s3 where s3: "w' = put_i NULL s3 x" "pool_inv s3" "others_kept s2 p s3 NULL"
    unfolding pi by blast
  have p2: "p2 \<noteq> p \<or> p2 = NULL" using kept_apart [OF x2(5) ps(2) po] by blast
  have "rb_holds s3 p2 (e @ encode_msg (i, data))" "rb_ready s3 p2"
    using rb_holds_other [OF s3(3) x2(3) p2] rb_ready_other [OF s3(3) x2(3,4) p2] by blast+
  then have "pair_ok w' [] (e @ encode_msg (i, data))" using s3(2) by (simp add: s3(1) pair_ok_def pi)
  moreover have "view w' = view (g w)" by (simp add: s3(1) view x2(1))
  ultimately show ?thesis using x by blast
qed

end

section \<open>The two classes\<close>

interpretation sp: conn_pair "ibuf_of c" "obuf_of c" net_pool "put_ibuf c" "put_obuf c" for c
  by unfold_locales (simp_all add: ibuf_of_def obuf_of_def)

interpretation cp: conn_pair c_ibuf c_obuf c_pool c_put_ibuf c_put_obuf
  by unfold_locales simp_all

lemma sp_pair_ok: "sp.pair_ok c n d e = conn_ok c n d e"
  by (auto simp: sp.pair_ok_def conn_ok_def)

text \<open>Writing when the kernel takes \<open>k\<close> of the waiting bytes and then says that it is full.\<close>

definition took :: "nat \<Rightarrow> u8 list \<Rightarrow> wr_ret list" where
  "took k e = (if k = length e then [Wr (int k)] else [Wr (int k), WrEagain])"

lemma srv_write_took:
  assumes ok: "conn_ok c n d e" and k: "0 < k" "k \<le> length e"
  shows "\<exists>n'. do_write env c (took k e) n = Inr n' \<and> conn_ok c n' d (drop k e)"
proof -
  let ?ws = "if k = length e then [] else [WrEagain]"
  have w: "write_retry (took k e) = Inr (Wr (int k), ?ws)" by (simp add: took_def)
  have "e \<noteq> []" "0 < int k" "int k \<le> int (length e)" using k by auto
  from do_write_pass [OF ok this(1) w this(2,3)]
  obtain n' where n': "conn_ok c n' d (drop k e)" "do_write env c (took k e) n = do_write env c ?ws n'" by auto
  show ?thesis
  proof (cases "k = length e")
    case True
    then show ?thesis using n' do_write_empty [of c n' d env "[]"] by simp
  next
    case False
    have ne: "drop k e \<noteq> []" using k False by simp
    have o: "pool_inv (net_pool n')" "rb_holds (net_pool n') (obuf_of c n') (drop k e)" "rb_ready (net_pool n') (obuf_of c n')"
      using n'(1) by (auto simp: conn_ok_def)
    have nn: "obuf_of c n' \<noteq> NULL" using o(2) ne by auto
    have we: "write_retry [WrEagain] = Inr (WrEagain, [])" by simp
    obtain s where s: "write2fd [WrEagain] (obuf_of c n') (net_pool n') = Inr (0, [], s)" "pool_inv s"
        "rb_holds s (obuf_of c n') (drop k e)" "rb_ready s (obuf_of c n')" "others_kept (net_pool n') (obuf_of c n') s (obuf_of c n')"
      using write2fd_ok [OF o nn we] by auto
    have "do_write env c [WrEagain] n' = Inr (put_obuf c (obuf_of c n') s n')"
      using rb_length_ok [OF o(2,1)] s(1) ne by (subst do_write.simps) (simp add: Let_def)
    then show ?thesis using n'(2) False conn_ok_put_obuf [OF n'(1) s(5,2-4)] by auto
  qed
qed

lemma client_write_took:
  assumes ok: "cp.pair_ok c d e" and k: "0 < k" "k \<le> length e"
  shows "\<exists>c'. client_do_write env (took k e) c = Inr c' \<and> cp.pair_ok c' d (drop k e) \<and> c_app c' = c_app c \<and> c_ibuf c' = c_ibuf c"
proof -
  let ?ws = "if k = length e then [] else [WrEagain]"
  have w: "write_retry (took k e) = Inr (Wr (int k), ?ws)" by (simp add: took_def)
  have o: "pool_inv (c_pool c)" "rb_holds (c_pool c) (c_obuf c) e" "rb_ready (c_pool c) (c_obuf c)"
    using ok by (auto simp: cp.pair_ok_def)
  have ne: "e \<noteq> []" using k by auto
  then have nn: "c_obuf c \<noteq> NULL" using o(2) by auto
  obtain s where s: "write2fd (took k e) (c_obuf c) (c_pool c) = Inr (int k, ?ws, s)" "pool_inv s"
      "rb_holds s (c_obuf c) (drop k e)" "rb_ready s (c_obuf c)" "others_kept (c_pool c) (c_obuf c) s (c_obuf c)"
    using write2fd_ok [OF o nn w] k by auto
  let ?c1 = "c_put_obuf (c_obuf c) s c"
  have ok1: "cp.pair_ok ?c1 d (drop k e)" using cp.pair_put_o [OF ok s(5,2-4)] .
  have l: "rb_length (c_obuf c) (c_pool c) = Inr (int (length e))" "rb_length (c_obuf c) s = Inr (int (length e - k))"
    using rb_length_ok [OF o(2,1)] rb_length_ok [OF s(3,2)] by simp_all
  have pass: "client_write_loop env (took k e) c = client_write_loop env ?ws ?c1"
    using l(1) s(1) k ne by (subst client_write_loop.simps) (simp add: Let_def)
  have upd: "cp.pair_ok (c_upd_loop f v) d' e' = cp.pair_ok v d' e'" for f v d' e' by (simp add: cp.pair_ok_def)
  have app: "c_app (c_upd_loop f v) = c_app v" "c_app (c_put_obuf p t v) = c_app v" for f v p t
    by (simp_all add: c_upd_loop_def c_put_obuf_def)
  show ?thesis
  proof (cases "k = length e")
    case True
    then have "client_write_loop env [] ?c1 = Inr (False, ?c1)" using l(2) by (simp add: client_write_loop.simps)
    then have "client_do_write env (took k e) c = Inr (c_upd_loop (del_io_event_mask True (c_sockfd ?c1) EPOLLOUT) ?c1)"
      using pass l(2) True by (simp add: client_do_write_def)
    then show ?thesis using ok1 by (simp add: upd app)
  next
    case False
    have o1: "pool_inv s" "rb_holds s (c_obuf c) (drop k e)" "rb_ready s (c_obuf c)" using s by simp_all
    have we: "write_retry [WrEagain] = Inr (WrEagain, [])" by simp
    obtain s2 where s2: "write2fd [WrEagain] (c_obuf c) s = Inr (0, [], s2)" "pool_inv s2"
        "rb_holds s2 (c_obuf c) (drop k e)" "rb_ready s2 (c_obuf c)" "others_kept s (c_obuf c) s2 (c_obuf c)"
      using write2fd_ok [OF o1 nn we] by auto
    let ?c2 = "c_put_obuf (c_obuf c) s2 c"
    have "client_write_loop env [WrEagain] ?c1 = Inr (False, ?c2)"
      using l(2) s2(1) k False by (subst client_write_loop.simps) (auto simp: Let_def)
    then have "client_do_write env (took k e) c = Inr ?c2"
      using pass rb_length_ok [OF s2(3,2)] k False by (auto simp: client_do_write_def)
    then show ?thesis using cp.pair_put_o [OF ok1, of s2 "c_obuf c"] s2 by (simp add: app)
  qed
qed

end
