(* ===== verification/Example_Base.thy ===== *)
theory Example_Base
  imports Start_Up Conn_Pair
begin

text \<open>What the example programs share: the arguments of \<open>main\<close>, literals as bytes, and a server's \<open>main\<close>.\<close>

text \<open>\<open>atoi\<close> is \<open>strtol\<close> cut to an \<open>int\<close>; \<open>long\<close> has 64 bits, so it reads what \<open>parseNumber\<close>'s \<open>atoll\<close> reads.\<close>

definition atoi :: "string \<Rightarrow> i32" where
  "atoi s = word_of_int (read_ll s)"

definition bytes_of :: "string \<Rightarrow> u8 list" where
  "bytes_of s = map of_char s"

lemma length_bytes_of [simp]: "length (bytes_of s) = length s"
  by (simp add: bytes_of_def)

lemma bytes_of_Nil [simp]: "bytes_of s = [] \<longleftrightarrow> s = []"
  by (simp add: bytes_of_def)

text \<open>Which connection gets what: the table's connections under the descriptors of a list.\<close>

lemma live_nth: "0 \<le> fd \<Longrightarrow> fd < int (length (conns n)) \<Longrightarrow> conns n ! nat fd = Some c \<Longrightarrow> c \<in> live n"
  by (auto simp: live_iff conn_of_def intro!: exI [of _ fd])

end
