(* ===== verification/Qps_Example.thy ===== *)
theory Qps_Example
  imports Example_Base
begin

text \<open>
  The throughput test of the reactor library (\<open>lars_reactors/example/qps_test/server.cpp\<close> and \<open>client.cpp\<close>): the
  client sends a numbered message, the server echoes it, the client counts the echo and sends the next. Both
  ends are the modelled \<open>tcp_conn\<close> and \<open>tcp_client\<close>, and between them are two streams of bytes that may be cut
  anywhere. Protobuf's encoding of \<open>EchoMessage\<close> is a parameter; \<open>ParseFromArray\<close> returns whether it succeeded
  and what it has read.
\<close>

section \<open>The programs\<close>

record echo_msg =
  em_id :: i32
  em_content :: string

record echo_proto =
  echo_bytes :: "echo_msg \<Rightarrow> u8 list"
  parse_echo :: "u8 list option \<Rightarrow> int \<Rightarrow> bool \<times> echo_msg"

text \<open>The server ignores whether the request parsed.\<close>

definition echo_busi :: "echo_proto \<Rightarrow> u8 list option \<Rightarrow> int \<Rightarrow> int \<Rightarrow> addr \<Rightarrow> 'u net \<Rightarrow> 'u net res" where
  "echo_busi pb data len i c n =
     (let request = snd (parse_echo pb data len);
          response = \<lparr>em_id = em_id request, em_content = em_content request\<rparr>
      in rbind (send_message c (echo_bytes pb response) i n) (\<lambda>(_, n1). Inr n1))"

definition qps_srv_env :: "echo_proto \<Rightarrow> 'u srv_env" where
  "qps_srv_env pb =
     \<lparr>conn_start_cb = None, conn_close_cb = None, srv_router = snd (register_msg_router 1 0 0 msg_router_new),
      run_msg_cb = (\<lambda>cb data len i c a n. echo_busi pb data len i c n)\<rparr>"

definition qps_server_main ::
  "(string \<Rightarrow> u32 option) \<Rightarrow> string option \<Rightarrow> conf option \<Rightarrow> sys_start \<Rightarrow> int list \<Rightarrow> 'u net \<Rightarrow> ((u32 \<times> 16 word) \<times> 'u net) res" where
  "qps_server_main aton file config k fds n =
     rbind (setPath file config) (\<lambda>(ok, config').
     rbind (config_instance config') (\<lambda>cf.
       let ip = GetString cf ''reactor'' ''ip'' ''0.0.0.0'';
           port = ucast (GetNumber cf ''reactor'' ''port'' 8888)
       in tcp_server_new aton cf ip port k fds n))"

text \<open>The client counts; \<open>printed\<close> are the numbers it prints, \<open>now\<close> is what \<open>time\<close> returns.\<close>

record qps =
  last_time :: int
  succ_cnt :: int
  printed :: "int list"

definition qps_new :: "int \<Rightarrow> qps" where
  "qps_new now = \<lparr>last_time = now, succ_cnt = 0, printed = []\<rparr>"

definition qps_count :: "int \<Rightarrow> echo_msg \<Rightarrow> qps \<Rightarrow> qps res" where
  "qps_count now response q =
     rbind (if em_content response = ''QPS test!'' then cint_add (succ_cnt q) 1 else Inr (succ_cnt q)) (\<lambda>k.
       if 1 \<le> now - last_time q then Inr (q\<lparr>printed := printed q @ [k], last_time := now, succ_cnt := 0\<rparr>)
       else Inr (q\<lparr>succ_cnt := k\<rparr>))"

definition qps_busi :: "echo_proto \<Rightarrow> int \<Rightarrow> u8 list option \<Rightarrow> int \<Rightarrow> int \<Rightarrow> qps client \<Rightarrow> qps client res" where
  "qps_busi pb now data len i c =
     (case parse_echo pb data len of
        (False, _) \<Rightarrow> Inr c
      | (True, response) \<Rightarrow>
          rbind (qps_count now response (c_app c)) (\<lambda>q.
          rbind (cint_add (sint (em_id response)) 1) (\<lambda>next_id.
            let request = \<lparr>em_id = word_of_int next_id, em_content = em_content response\<rparr>
            in rbind (client_send_message (echo_bytes pb request) i (c\<lparr>c_app := q\<rparr>)) (\<lambda>(_, c1). Inr c1))))"

definition qps_client_build :: "echo_proto \<Rightarrow> qps client \<Rightarrow> qps client res" where
  "qps_client_build pb c =
     rbind (client_send_message (echo_bytes pb \<lparr>em_id = 1, em_content = ''QPS test!''\<rparr>) 1 c) (\<lambda>(_, c1). Inr c1)"

definition qps_cli_env :: "echo_proto \<Rightarrow> int \<Rightarrow> qps cli_env" where
  "qps_cli_env pb now =
     \<lparr>cli_start_cb = Some (qps_client_build pb), cli_close_cb = None,
      cli_router = snd (register_msg_router 1 0 0 msg_router_new),
      cli_msg_cb = (\<lambda>cb data len i u a c. qps_busi pb now data len i c)\<rparr>"

text \<open>A thread of the client connects to port 8855 before it registers its callback and its hook.\<close>

definition qps_thread_main :: "echo_proto \<Rightarrow> int \<Rightarrow> int \<Rightarrow> conn_ret \<Rightarrow> int \<Rightarrow> pool_st \<Rightarrow> (qps cli_env \<times> qps client) res" where
  "qps_thread_main pb now sock conn so_error pool =
     rbind (tcp_client_new \<lparr>cli_start_cb = None, cli_close_cb = None, cli_router = msg_router_new,
              cli_msg_cb = cli_msg_cb (qps_cli_env pb now)\<rparr> sock conn so_error pool event_loop_new (qps_new now)) (\<lambda>c.
       Inr (qps_cli_env pb now, c))"

text \<open>\<open>main\<close>: the number of threads; without an argument it prints how to use it and goes on with \<open>argv[1]\<close>.\<close>

definition qps_client_main :: "string list \<Rightarrow> nat res" where
  "qps_client_main argv =
     (if length argv \<le> 1 then Inl NullDeref
      else let thread_num = sint (atoi (argv ! 1)) in if thread_num < 0 then Inl Uncaught else Inr (nat thread_num))"

section \<open>The two ends and the bytes between them\<close>

record 'u ping_pong =
  srv :: "'u net"
  cli :: "qps client"
  to_srv :: "u8 list"
  to_cli :: "u8 list"

text \<open>
  A step: one end writes as much as the kernel takes, or reads some of the bytes that are on their way to it.
  What is waiting in an output buffer is \<open>e\<close>.
\<close>

inductive pp_step :: "echo_proto \<Rightarrow> addr \<Rightarrow> 'u ping_pong \<Rightarrow> 'u ping_pong \<Rightarrow> bool" for pb c where
  cli_writes: "co.holds (cli s) e \<Longrightarrow> 0 < k \<Longrightarrow> k \<le> length e \<Longrightarrow>
    client_do_write (qps_cli_env pb now) (took k e) (cli s) = Inr cl \<Longrightarrow>
    pp_step pb c s (s\<lparr>cli := cl, to_srv := to_srv s @ take k e\<rparr>)"
| srv_reads: "to_srv s = bs @ rest \<Longrightarrow> bs \<noteq> [] \<Longrightarrow>
    do_read (qps_srv_env pb) c (Some (int (length bs))) [Rd bs] (srv s) = Inr n \<Longrightarrow>
    pp_step pb c s (s\<lparr>srv := n, to_srv := rest\<rparr>)"
| srv_writes: "ob.holds c (srv s) e \<Longrightarrow> 0 < k \<Longrightarrow> k \<le> length e \<Longrightarrow>
    do_write (qps_srv_env pb) c (took k e) (srv s) = Inr n \<Longrightarrow>
    pp_step pb c s (s\<lparr>srv := n, to_cli := to_cli s @ take k e\<rparr>)"
| cli_reads: "to_cli s = bs @ rest \<Longrightarrow> bs \<noteq> [] \<Longrightarrow>
    client_do_read (qps_cli_env pb now) (Some (int (length bs))) [Rd bs] (cli s) = Inr cl \<Longrightarrow>
    pp_step pb c s (s\<lparr>cli := cl, to_cli := rest\<rparr>)"

text \<open>The connection has just been made on both sides; the client's hook has run.\<close>

definition pp_start :: "echo_proto \<Rightarrow> addr \<Rightarrow> 'u ping_pong \<Rightarrow> bool" where
  "pp_start pb c s \<longleftrightarrow> conn_ok c (srv s) [] [] \<and> to_srv s = [] \<and> to_cli s = [] \<and>
     (\<exists>cl now fd. cp.pair_ok cl [] [] \<and> c_app cl = qps_new now \<and> client_connection_succ (qps_cli_env pb now) fd 0 cl = Inr (cli s))"

text \<open>The messages of the test arrive as they were encoded and fit in a frame.\<close>

definition echo_ok :: "echo_proto \<Rightarrow> bool" where
  "echo_ok pb \<longleftrightarrow> (\<forall>i. let m = \<lparr>em_id = i, em_content = ''QPS test!''\<rparr>; b = echo_bytes pb m
     in b \<noteq> [] \<and> length b \<le> 65527 \<and> parse_echo pb (Some b) (int (length b)) = (True, m))"

section \<open>Lemmas\<close>

text \<open>The server is an application of the library's server, so what \<open>Server_Run\<close> shows holds of it.\<close>

interpretation qa: server_app "qps_srv_env pb" for pb
proof unfold_locales
  fix cb data len i c a and n n' :: "'a net"
  assume "c \<in> live n" and "run_msg_cb (qps_srv_env pb) cb data len i c a n = Inr n'"
  then show "app_work n n'" by (auto simp: qps_srv_env_def echo_busi_def Let_def rbind_eq_Inr intro: work_send [OF work_none])
qed (simp_all add: run_hook_def qps_srv_env_def work_none)

text \<open>The \<open>k\<close>-th message of the conversation, as the bytes of its frame.\<close>

definition kth_msg :: "echo_proto \<Rightarrow> int \<Rightarrow> msg" where
  "kth_msg pb k = (1, echo_bytes pb \<lparr>em_id = word_of_int k, em_content = ''QPS test!''\<rparr>)"

lemma kth_msg_ok:
  assumes "echo_ok pb"
  shows "msg_ok (kth_msg pb k)" "snd (kth_msg pb k) \<noteq> []" "length (snd (kth_msg pb k)) \<le> 65527"
    "parse_echo pb (Some (snd (kth_msg pb k))) (int (length (snd (kth_msg pb k)))) =
      (True, \<lparr>em_id = word_of_int k, em_content = ''QPS test!''\<rparr>)" "length (encode_msg (kth_msg pb k)) \<le> 65535"
  using assms by (auto simp: echo_ok_def kth_msg_def msg_ok_def in_int_def MESSAGE_LENGTH_LIMIT_def MESSAGE_HEAD_LEN_def Let_def length_encode_msg)

definition counted :: "qps \<Rightarrow> int" where
  "counted q = sum_list (printed q) + succ_cnt q"

text \<open>
  The invariant: \<open>k\<close> echoes have been counted, and either request \<open>k + 1\<close> is on its way to the server or its echo is
  on its way back; nothing else is in any buffer or on the way.
\<close>

definition pp_inv :: "echo_proto \<Rightarrow> addr \<Rightarrow> 'u ping_pong \<Rightarrow> bool" where
  "pp_inv pb c s \<longleftrightarrow> (\<exists>ds es dc ec k. conn_ok c (srv s) ds es \<and> cp.pair_ok (cli s) dc ec \<and> counted (c_app (cli s)) = k \<and>
     0 \<le> k \<and> k \<le> 2147483646 \<and>
     (ds @ to_srv s @ ec = encode_msg (kth_msg pb (k + 1)) \<and> to_srv s @ ec \<noteq> [] \<and> es = [] \<and> to_cli s = [] \<and> dc = [] \<or>
      dc @ to_cli s @ es = encode_msg (kth_msg pb (k + 1)) \<and> to_cli s @ es \<noteq> [] \<and> ec = [] \<and> to_srv s = [] \<and> ds = []))"

lemma max_frames_Suc: "max_frames = Suc 1048575"
  by (simp add: max_frames_def)

lemma pp_start_inv:
  assumes "echo_ok pb" and "pp_start pb c s"
  shows "pp_inv pb c s"
proof -
  obtain cl now fd where cl: "cp.pair_ok cl [] []" "c_app cl = qps_new now" "client_connection_succ (qps_cli_env pb now) fd 0 cl = Inr (cli s)"
    using assms(2) by (auto simp: pp_start_def)
  let ?c1 = "c_upd_loop (del_io_event fd) cl"
  let ?m = "kth_msg pb 1"
  have upd: "cp.pair_ok (c_upd_loop f v) d e = cp.pair_ok v d e" for f d e and v :: "qps client" by (simp add: cp.pair_ok_def)
  have app: "c_app (c_upd_loop f v) = c_app v" "c_app (c_put_obuf p t v) = c_app v" for f p t and v :: "qps client"
    by (simp_all add: c_upd_loop_def c_put_obuf_def)
  have ok1: "cp.pair_ok ?c1 [] []" using cl(1) by (simp add: upd)
  let ?arm = "\<lambda>c :: qps client. c_upd_loop (add_io_event True (c_sockfd c) write_callback EPOLLOUT (Some 0)) c"
  let ?r = "add_io_event True fd read_callback EPOLLIN (Some 0)" let ?w = "add_io_event True fd write_callback EPOLLOUT (Some 0)"
  obtain c2 where hook: "qps_client_build pb ?c1 = Inr c2"
      "cli s = c_upd_loop ?r c2 \<or> cli s = c_upd_loop ?w (c_upd_loop ?r c2)"
    using cl(3) by (auto simp: client_connection_succ_def Let_def c_hook_def qps_cli_env_def rbind_eq_Inr simp del: c_upd_loop_simps split: if_splits)
  then obtain r where c2: "send_framed c_obuf c_pool c_put_obuf ?arm (snd ?m) 1 ?c1 = Inr (r, c2)"
    by (auto simp: qps_client_build_def client_send_message_def kth_msg_def rbind_eq_Inr)
  have small: "length ([] :: u8 list) + 8 + length (snd ?m) \<le> 8388608" using kth_msg_ok(3) [OF assms(1), of 1] by simp
  obtain p t where pt: "c2 = ?arm (c_put_obuf p t ?c1)" "cp.pair_ok c2 [] (encode_msg (1, snd ?m))"
    using cp.pair_send [OF ok1 c2 small] by auto
  have "cp.pair_ok (cli s) [] (encode_msg ?m)" "c_app (cli s) = qps_new now"
    using pt hook(2) by (auto simp: upd app cl(2) kth_msg_def)
  moreover have "encode_msg ?m \<noteq> []" by (rule encode_msg_nonempty)
  ultimately show ?thesis using assms(2) unfolding pp_inv_def
    by (intro exI [of _ "[]"] exI [of _ "encode_msg ?m"] exI [of _ 0]) (simp add: pp_start_def qps_new_def counted_def)
qed

text \<open>The server, reading the last bytes of a request, queues the same message.\<close>

lemma srv_echoes:
  assumes "echo_ok pb" and ok: "conn_ok c n ds []" and bs: "bs \<noteq> []" "ds @ bs = encode_msg (kth_msg pb k)"
    and run: "do_read (qps_srv_env pb) c (Some (int (length bs))) [Rd bs] n = Inr n'"
  shows "conn_ok c n' [] (encode_msg (kth_msg pb k))"
proof -
  let ?m = "kth_msg pb k"
  note m = kth_msg_ok [OF assms(1), of k]
  let ?arm = "\<lambda>m. upd_loop (conn_loop (tcps m c)) (add_io_event True (connfd (tcps m c)) conn_wt_callback EPOLLOUT (Some c)) m"
  have call: "\<exists>r. send_framed (obuf_of c) net_pool (put_obuf c) ?arm (snd ?m) 1 v = Inr (r, x)"
    if "conn_msg_call (qps_srv_env pb) c (fst ?m) (int (length (snd ?m))) (Some (snd ?m)) v = Inr x" for v x
    using that m(4) by (auto simp: conn_msg_call_def qps_srv_env_def router_call_def register_msg_router_def msg_router_new_def kth_msg_def
        echo_busi_def Let_def send_message_def rbind_eq_Inr)
  have "length (ds @ bs) \<le> 8388608" "length ([] :: u8 list) + 8 + length (snd ?m) \<le> 8388608" using m(3,5) bs(2) by simp_all
  note small = this
  have run': "read_frames (Suc 1048575) (ibuf_of c) net_pool (put_ibuf c) (conn_msg_call (qps_srv_env pb) c) (clean_conn (qps_srv_env pb) c)
      (Some (int (length bs))) [Rd bs] n = Inr n'" using run unfolding do_read_def max_frames_Suc .
  note reply = sp.pair_read_reply [where g = "\<lambda>v. v" and view = "\<lambda>_. ()" and arm = ?arm, OF ok [folded sp_pair_ok] bs(1,2) m(1,2) small call
        _ _ _ _ _ _ _ _ _ _ run']
  have "sp.pair_ok c n' [] ([] @ encode_msg (1, snd ?m))"
    by (rule reply [THEN conjunct1]) (simp_all add: obuf_of_def ibuf_of_def)
  then show ?thesis by (simp add: sp_pair_ok kth_msg_def)
qed

lemma qps_count_counted:
  assumes "qps_count now m q = Inr q'" and "em_content m = ''QPS test!''"
  shows "counted q' = counted q + 1"
  using assms by (auto simp: qps_count_def counted_def rbind_eq_Inr split: if_splits)

text \<open>The client, reading the last bytes of an echo, counts it and queues the next request.\<close>

lemma cli_next:
  assumes "echo_ok pb" and ok: "cp.pair_ok cl dc []" and bs: "bs \<noteq> []" "dc @ bs = encode_msg (kth_msg pb k)"
    and k: "0 \<le> k" "k \<le> 2147483647"
    and run: "client_do_read (qps_cli_env pb now) (Some (int (length bs))) [Rd bs] cl = Inr cl'"
  shows "cp.pair_ok cl' [] (encode_msg (kth_msg pb (k + 1))) \<and> counted (c_app cl') = counted (c_app cl) + 1 \<and> k + 1 \<le> 2147483647"
proof -
  let ?m = "kth_msg pb k" let ?em = "\<lparr>em_id = word_of_int k, em_content = ''QPS test!''\<rparr> :: echo_msg"
  note m = kth_msg_ok [OF assms(1), of k]
  let ?arm = "\<lambda>c :: qps client. c_upd_loop (add_io_event True (c_sockfd c) write_callback EPOLLOUT (Some 0)) c"
  let ?g = "\<lambda>v :: qps client. v\<lparr>c_app := (case qps_count now ?em (c_app v) of Inr q \<Rightarrow> q | Inl _ \<Rightarrow> c_app v)\<rparr>"
  have id: "sint (word_of_int k :: i32) = k" using k by (simp add: sint_of_int_32 in_int_def)
  have parts: "\<exists>q. qps_count now ?em (c_app v) = Inr q \<and> k + 1 \<le> 2147483647 \<and>
      (\<exists>r. client_send_message (snd (kth_msg pb (k + 1))) 1 (v\<lparr>c_app := q\<rparr>) = Inr (r, x))"
    if "client_msg_call (qps_cli_env pb now) (fst ?m) (int (length (snd ?m))) (Some (snd ?m)) v = Inr x" for v x
  proof -
    have "qps_busi pb now (Some (snd ?m)) (int (length (snd ?m))) 1 v = Inr x"
      using that by (simp add: client_msg_call_def qps_cli_env_def router_call_def register_msg_router_def msg_router_new_def kth_msg_def)
    then show ?thesis unfolding qps_busi_def m(4) by (auto simp: rbind_eq_Inr id kth_msg_def in_int_def)
  qed
  have call: "\<exists>r. send_framed c_obuf c_pool c_put_obuf ?arm (snd (kth_msg pb (k + 1))) 1 (?g v) = Inr (r, x)"
    if "client_msg_call (qps_cli_env pb now) (fst ?m) (int (length (snd ?m))) (Some (snd ?m)) v = Inr x" for v x
    using parts [OF that] by (auto simp: client_send_message_def)
  have small: "length (dc @ bs) \<le> 8388608" "length ([] :: u8 list) + 8 + length (snd (kth_msg pb (k + 1))) \<le> 8388608"
    using m(5) kth_msg_ok(3) [OF assms(1), of "k + 1"] bs(2) by simp_all
  have run': "read_frames (Suc 1048575) c_ibuf c_pool c_put_ibuf (client_msg_call (qps_cli_env pb now)) (client_clean_conn (qps_cli_env pb now))
      (Some (int (length bs))) [Rd bs] cl = Inr cl'" using run unfolding client_do_read_def max_frames_Suc .
  have r: "cp.pair_ok cl' [] ([] @ encode_msg (1, snd (kth_msg pb (k + 1)))) \<and> c_app cl' = c_app (?g cl) \<and>
      (\<exists>p s x. client_msg_call (qps_cli_env pb now) (fst ?m) (int (length (snd ?m))) (Some (snd ?m)) (c_put_ibuf p s cl) = Inr x)"
    by (rule cp.pair_read_reply [where g = ?g and view = c_app and arm = ?arm, OF ok bs(1,2) m(1,2) small call _ _ _ _ _ _ _ _ _ _ run'])
      (simp_all add: c_put_ibuf_def c_put_obuf_def c_upd_loop_def split: sum.split)
  then obtain p s x where "client_msg_call (qps_cli_env pb now) (fst ?m) (int (length (snd ?m))) (Some (snd ?m)) (c_put_ibuf p s cl) = Inr x"
    by blast
  from parts [OF this] obtain q where q: "qps_count now ?em (c_app cl) = Inr q" "k + 1 \<le> 2147483647"
    by (auto simp: c_put_ibuf_def)
  have "counted q = counted (c_app cl) + 1" using qps_count_counted [OF q(1)] by simp
  then show ?thesis using r q by (simp add: kth_msg_def)
qed

text \<open>A request on its way, and an echo on its way back.\<close>

lemma pp_inv_request:
  assumes "conn_ok c (srv s) ds []" "cp.pair_ok (cli s) [] ec" "to_cli s = []"
    "ds @ to_srv s @ ec = encode_msg (kth_msg pb (counted (c_app (cli s)) + 1))" "to_srv s @ ec \<noteq> []"
    "0 \<le> counted (c_app (cli s))" "counted (c_app (cli s)) \<le> 2147483646"
  shows "pp_inv pb c s"
  unfolding pp_inv_def using assms by (intro exI [of _ ds] exI [of _ "[]"] exI [of _ ec] exI) auto

lemma pp_inv_echo:
  assumes "conn_ok c (srv s) [] es" "cp.pair_ok (cli s) dc []" "to_srv s = []"
    "dc @ to_cli s @ es = encode_msg (kth_msg pb (counted (c_app (cli s)) + 1))" "to_cli s @ es \<noteq> []"
    "0 \<le> counted (c_app (cli s))" "counted (c_app (cli s)) \<le> 2147483646"
  shows "pp_inv pb c s"
  unfolding pp_inv_def using assms by (intro exI [of _ "[]"] exI [of _ es] exI [of _ dc] exI) auto

lemma pp_invE:
  assumes "pp_inv pb c s"
  obtains (request) ds ec where "conn_ok c (srv s) ds []" "cp.pair_ok (cli s) [] ec" "to_cli s = []"
    "ds @ to_srv s @ ec = encode_msg (kth_msg pb (counted (c_app (cli s)) + 1))" "to_srv s @ ec \<noteq> []"
    "0 \<le> counted (c_app (cli s))" "counted (c_app (cli s)) \<le> 2147483646"
  | (echo) dc es where "conn_ok c (srv s) [] es" "cp.pair_ok (cli s) dc []" "to_srv s = []"
    "dc @ to_cli s @ es = encode_msg (kth_msg pb (counted (c_app (cli s)) + 1))" "to_cli s @ es \<noteq> []"
    "0 \<le> counted (c_app (cli s))" "counted (c_app (cli s)) \<le> 2147483646"
  using assms unfolding pp_inv_def by blast

text \<open>What the ends' views determine: the bytes that wait.\<close>

lemma waiting_same:
  "cp.pair_ok cl d e \<Longrightarrow> co.holds cl e' \<Longrightarrow> e' = e"
  "conn_ok c n d e \<Longrightarrow> ob.holds c n e' \<Longrightarrow> e' = e"
  by (auto simp: cp.pair_ok_def co.holds_def conn_ok_def ob.holds_def dest: rb_holds_unique)

lemma part_small: "length e \<le> 65535 \<Longrightarrow> ds @ bs @ rest = e \<Longrightarrow> length (ds @ bs) \<le> 8388608"
  by auto

lemma srv_partial:
  assumes "echo_ok pb" and ok: "conn_ok c n ds es" and bs: "bs \<noteq> []" "ds @ bs @ rest = encode_msg (kth_msg pb k)" "rest \<noteq> []"
    and run: "do_read (qps_srv_env pb) c (Some (int (length bs))) [Rd bs] n = Inr n'"
  shows "conn_ok c n' (ds @ bs) es"
proof -
  note m = kth_msg_ok [OF assms(1), of k]
  have small: "length (ds @ bs) \<le> 8388608" using m(5) bs(2) by (rule part_small)
  show ?thesis
    using sp.pair_read_part [OF ok [folded sp_pair_ok] bs(1) _ m(1) bs(3) small run [unfolded do_read_def]] bs(2)
    by (auto simp: sp_pair_ok)
qed

lemma cli_partial:
  assumes "echo_ok pb" and ok: "cp.pair_ok cl dc ec" and bs: "bs \<noteq> []" "dc @ bs @ rest = encode_msg (kth_msg pb k)" "rest \<noteq> []"
    and run: "client_do_read (qps_cli_env pb now) (Some (int (length bs))) [Rd bs] cl = Inr cl'"
  shows "cp.pair_ok cl' (dc @ bs) ec \<and> c_app cl' = c_app cl"
proof -
  note m = kth_msg_ok [OF assms(1), of k]
  have small: "length (dc @ bs) \<le> 8388608" using m(5) bs(2) by (rule part_small)
  show ?thesis
    using cp.pair_read_part [OF ok bs(1) _ m(1) bs(3) small run [unfolded client_do_read_def]] bs(2)
    by (auto simp: c_put_ibuf_def)
qed

lemma pp_srv_reads:
  assumes e: "echo_ok pb" and inv: "pp_inv pb c s" and bs: "to_srv s = bs @ rest" "bs \<noteq> []"
    and run: "do_read (qps_srv_env pb) c (Some (int (length bs))) [Rd bs] (srv s) = Inr n"
  shows "pp_inv pb c (s\<lparr>srv := n, to_srv := rest\<rparr>)"
  using inv
proof (cases rule: pp_invE)
  case (request ds ec)
  note r = request(4) [unfolded bs(1)]
  show ?thesis
  proof (cases "rest @ ec = []")
    case True
    then have "ds @ bs = encode_msg (kth_msg pb (counted (c_app (cli s)) + 1))" using r by simp
    from srv_echoes [OF e request(1) bs(2) this run] show ?thesis using True request encode_msg_nonempty
      by (intro pp_inv_echo [where dc = "[]" and es = "encode_msg (kth_msg pb (counted (c_app (cli s)) + 1))"]) simp_all
  next
    case False
    have r': "ds @ bs @ (rest @ ec) = encode_msg (kth_msg pb (counted (c_app (cli s)) + 1))" using r by simp
    from srv_partial [OF e request(1) bs(2) r' False run] show ?thesis
      using request False r' by (intro pp_inv_request [where ds = "ds @ bs" and ec = ec]) simp_all
  qed
next
  case (echo dc es)
  then show ?thesis using bs by simp
qed

lemma pp_cli_reads:
  assumes e: "echo_ok pb" and inv: "pp_inv pb c s" and bs: "to_cli s = bs @ rest" "bs \<noteq> []"
    and run: "client_do_read (qps_cli_env pb now) (Some (int (length bs))) [Rd bs] (cli s) = Inr cl"
  shows "pp_inv pb c (s\<lparr>cli := cl, to_cli := rest\<rparr>)"
  using inv
proof (cases rule: pp_invE)
  case (request ds ec)
  then show ?thesis using bs by simp
next
  case (echo dc es)
  note r = echo(4) [unfolded bs(1)]
  show ?thesis
  proof (cases "rest @ es = []")
    case True
    then have d: "dc @ bs = encode_msg (kth_msg pb (counted (c_app (cli s)) + 1))" using r by simp
    have "0 \<le> counted (c_app (cli s)) + 1" "counted (c_app (cli s)) + 1 \<le> 2147483647" using echo by simp_all
    from cli_next [OF e echo(2) bs(2) d this run] show ?thesis using True echo encode_msg_nonempty
      by (intro pp_inv_request [where ds = "[]" and ec = "encode_msg (kth_msg pb (counted (c_app (cli s)) + 1 + 1))"]) simp_all
  next
    case False
    have r': "dc @ bs @ (rest @ es) = encode_msg (kth_msg pb (counted (c_app (cli s)) + 1))" using r by simp
    from cli_partial [OF e echo(2) bs(2) r' False run] show ?thesis
      using echo False r' by (intro pp_inv_echo [where dc = "dc @ bs" and es = es]) simp_all
  qed
qed

lemma pp_srv_writes:
  assumes inv: "pp_inv pb c s" and w: "ob.holds c (srv s) e" "0 < k" "k \<le> length e"
    and run: "do_write (qps_srv_env pb) c (took k e) (srv s) = Inr n"
  shows "pp_inv pb c (s\<lparr>srv := n, to_cli := to_cli s @ take k e\<rparr>)"
  using inv
proof (cases rule: pp_invE)
  case (request ds ec)
  then show ?thesis using waiting_same(2) [OF request(1) w(1)] w by simp
next
  case (echo dc es)
  have "e = es" using waiting_same(2) [OF echo(1) w(1)] .
  then show ?thesis using srv_write_took [OF echo(1), of k "qps_srv_env pb"] run w echo
    by (intro pp_inv_echo [where dc = dc and es = "drop k e"]) auto
qed

lemma pp_cli_writes:
  assumes inv: "pp_inv pb c s" and w: "co.holds (cli s) e" "0 < k" "k \<le> length e"
    and run: "client_do_write (qps_cli_env pb now) (took k e) (cli s) = Inr cl"
  shows "pp_inv pb c (s\<lparr>cli := cl, to_srv := to_srv s @ take k e\<rparr>)"
  using inv
proof (cases rule: pp_invE)
  case (echo dc es)
  then show ?thesis using waiting_same(1) [OF echo(2) w(1)] w by simp
next
  case (request ds ec)
  have "e = ec" using waiting_same(1) [OF request(2) w(1)] .
  then show ?thesis using client_write_took [OF request(2), of k "qps_cli_env pb now"] run w request
    by (intro pp_inv_request [where ds = ds and ec = "drop k e"]) auto
qed

inductive_cases pp_stepE: "pp_step pb c s t"

lemma pp_step_inv:
  assumes "echo_ok pb" "pp_step pb c s t" "pp_inv pb c s"
  shows "pp_inv pb c t"
  using assms(2)
  by (elim pp_stepE)
    (simp_all add: pp_cli_writes [OF assms(3)] pp_srv_reads [OF assms(1,3)] pp_srv_writes [OF assms(3)] pp_cli_reads [OF assms(1,3)])

lemma pp_steps_inv:
  assumes "echo_ok pb" "(pp_step pb c)\<^sup>*\<^sup>* s t" "pp_inv pb c s"
  shows "pp_inv pb c t"
  using assms(2,3) by (induction rule: rtranclp_induct) (auto intro: pp_step_inv [OF assms(1)])

section \<open>An instance\<close>

definition demo_echo :: echo_proto where
  "demo_echo = \<lparr>echo_bytes = (\<lambda>m. le32 (em_id m)),
     parse_echo = (\<lambda>data len. (True, \<lparr>em_id = un32 (case data of None \<Rightarrow> [] | Some b \<Rightarrow> b), em_content = ''QPS test!''\<rparr>))\<rparr>"

definition demo_qps :: "qps client" where
  "demo_qps = \<lparr>c_pool = demo_pool, c_loop = event_loop_new, c_sockfd = 6, c_ibuf = NULL, c_obuf = NULL, c_closed = [], c_app = qps_new 0\<rparr>"

lemma demo_echo_ok: "echo_ok demo_echo"
  by (auto simp: echo_ok_def demo_echo_def Let_def) (simp add: le32_def)

lemma demo_qps_pair: "cp.pair_ok demo_qps [] []"
  using demo_pool_ok by (simp add: cp.pair_ok_def demo_qps_def)

lemma demo_qps_connected: "\<exists>cl. client_connection_succ (qps_cli_env demo_echo 0) 6 0 demo_qps = Inr cl"
proof -
  let ?h = "encode_head \<lparr>msgid = 1, msglen = 4\<rparr>"
  let ?c1 = "c_upd_loop (del_io_event 6) demo_qps"
  have c1: "c_obuf ?c1 = NULL" "c_pool ?c1 = demo_pool" by (simp_all add: demo_qps_def)
  obtain s1 where s1: "send_data ?h NULL demo_pool = Inr (0, Ptr 1, s1)"
    using send_data_first [OF demo_pool_ok(1), of ?h] demo_alloc [of 8] by fastforce
  obtain s2 where s2: "send_data (le32 1) (Ptr 1) s1 = Inr (0, Ptr 1, s2)"
    using send_data_ok [OF demo_pool_ok(1) _ _ s1, of "[]"] send_data_small [of s1 1 ?h "le32 1"] by auto
  obtain c2 where c2: "client_send_message (le32 1) 1 ?c1 = Inr (0, c2)"
    using c1 s1 s2 by (simp add: client_send_message_def send_framed_def rb_length_def Let_def)
  have ok: "cp.pair_ok ?c1 [] []" using demo_qps_pair by (simp add: cp.pair_ok_def)
  let ?arm = "\<lambda>c :: qps client. c_upd_loop (add_io_event True (c_sockfd c) write_callback EPOLLOUT (Some 0)) c"
  have "cp.pair_ok c2 [] (encode_msg (1, le32 1))"
    using cp.pair_send [OF ok c2 [unfolded client_send_message_def]] by auto
  then have "rb_length (c_obuf c2) (c_pool c2) = Inr 12"
    using rb_length_ok [of "c_pool c2" "c_obuf c2" "encode_msg (1, le32 1)"] by (simp add: cp.pair_ok_def)
  then show ?thesis using c2
    by (simp add: client_connection_succ_def c_hook_def qps_cli_env_def qps_client_build_def demo_echo_def Let_def)
qed

lemma demo_qps_start: "\<exists>s :: unit ping_pong. pp_start demo_echo 0 s"
proof -
  let ?n = "\<lparr>net_pool = demo_pool, loops = (\<lambda>_. event_loop_new), tcps = (\<lambda>_. \<lparr>connfd = 5, conn_loop = 0, ibuf = NULL, obuf = NULL\<rparr>),
     fresh_conn = 1, conns = [], curr_conns = 0, max_conns = 0, queues = [], tp_index = 0, closed = [], app = ()\<rparr> :: unit net"
  obtain cl where cl: "client_connection_succ (qps_cli_env demo_echo 0) 6 0 demo_qps = Inr cl" using demo_qps_connected by blast
  have "c_app demo_qps = qps_new 0" by (simp add: demo_qps_def)
  then have "\<exists>cl' now fd. cp.pair_ok cl' [] [] \<and> c_app cl' = qps_new now \<and>
      client_connection_succ (qps_cli_env demo_echo now) fd 0 cl' = Inr cl" using cl demo_qps_pair by blast
  then have "pp_start demo_echo 0 \<lparr>srv = ?n, cli = cl, to_srv = [], to_cli = []\<rparr>"
    using demo_pool_ok by (simp add: pp_start_def conn_ok_def ibuf_of_def obuf_of_def)
  then show ?thesis by blast
qed

section \<open>The property\<close>

text \<open>
  C9: Request and echo alternate. Whatever the sizes in which the kernel takes and delivers the bytes, exactly one
  message is in the two ends' buffers and on the way between them: the request numbered one more than the echoes
  counted so far, or its echo; the bytes of the four places put together are its frame. The count stays below
  2^31, because the client's \<open>id\<close> is an \<open>int\<close>: the test does not survive the addition after that.
\<close>

theorem one_in_flight:
  assumes "echo_ok pb" and "pp_start pb c s" and "(pp_step pb c)\<^sup>*\<^sup>* s t"
  shows "\<exists>ds es dc ec k. conn_ok c (srv t) ds es \<and> cp.pair_ok (cli t) dc ec \<and> counted (c_app (cli t)) = k \<and>
     0 \<le> k \<and> k \<le> 2147483646 \<and>
     (ds @ to_srv t @ ec = encode_msg (kth_msg pb (k + 1)) \<and> to_srv t @ ec \<noteq> [] \<and> es = [] \<and> to_cli t = [] \<and> dc = [] \<or>
      dc @ to_cli t @ es = encode_msg (kth_msg pb (k + 1)) \<and> to_cli t @ es \<noteq> [] \<and> ec = [] \<and> to_srv t = [] \<and> ds = [])"
  using pp_steps_inv [OF assms(1,3) pp_start_inv [OF assms(1,2)]] unfolding pp_inv_def .

lemma one_in_flight_witness:
  "\<exists>(s :: unit ping_pong) t. pp_start demo_echo 0 s \<and> pp_step demo_echo 0 s t \<and> to_srv t \<noteq> [] \<and>
     (\<exists>ds es dc ec k. conn_ok 0 (srv t) ds es \<and> cp.pair_ok (cli t) dc ec \<and> counted (c_app (cli t)) = k \<and>
        0 \<le> k \<and> k \<le> 2147483646 \<and>
        (ds @ to_srv t @ ec = encode_msg (kth_msg demo_echo (k + 1)) \<and> to_srv t @ ec \<noteq> [] \<and> es = [] \<and> to_cli t = [] \<and> dc = [] \<or>
         dc @ to_cli t @ es = encode_msg (kth_msg demo_echo (k + 1)) \<and> to_cli t @ es \<noteq> [] \<and> ec = [] \<and> to_srv t = [] \<and> ds = []))"
proof -
  obtain s :: "unit ping_pong" where s: "pp_start demo_echo 0 s" using demo_qps_start by blast
  have empty: "to_srv s = []" "to_cli s = []" "conn_ok 0 (srv s) [] []" using s by (simp_all add: pp_start_def)
  obtain ec where ec: "cp.pair_ok (cli s) [] ec" "ec \<noteq> []"
    using pp_start_inv [OF demo_echo_ok s] empty waiting_same(2) [OF empty(3)]
    by (elim pp_invE) (auto simp: conn_ok_def ob.holds_def)
  then have k: "co.holds (cli s) ec" "0 < (1::nat)" "1 \<le> length ec" by (auto simp: cp.pair_ok_def co.holds_def Suc_le_eq)
  obtain cl where "client_do_write (qps_cli_env demo_echo 0) (took 1 ec) (cli s) = Inr cl"
    using client_write_took [OF ec(1) k(2,3)] by blast
  from pp_step.cli_writes [OF k this, of 0] obtain t where t: "pp_step demo_echo 0 s t" "to_srv t \<noteq> []"
    using ec(2) by fastforce
  show ?thesis using s t one_in_flight [OF demo_echo_ok s r_into_rtranclp [where r = "pp_step demo_echo 0", OF t(1)]] by blast
qed

end
