(* ===== verification/Example_Server.thy ===== *)
theory Example_Server
  imports Example_Base Conn_Fds
begin

text \<open>
  The example of the reactor library (\<open>lars_reactors/example/server.cpp\<close> and \<open>client.cpp\<close>). The server greets a new
  connection from its hook, gives every thread a task that greets the thread's connections, echoes messages and prints
  them; the client sends one message and prints what it gets. What \<open>printf\<close> shows of a message is kept in the state.
\<close>

section \<open>The server\<close>

datatype ex_line = Received "u8 list" int int | Param string

record ex_app =
  ex_param :: "addr \<Rightarrow> string option"    \<comment> \<open>\<open>net_connection::param\<close>, not initialised\<close>
  ex_lines :: "ex_line list"

text \<open>
  \<open>printf("%s")\<close> of a message goes on behind its bytes when they hold no terminator; \<open>after\<close> is what the rest of the
  buffer holds.
\<close>

definition c_string :: "u8 list \<Rightarrow> u8 list \<Rightarrow> u8 list res" where
  "c_string after bs = (if 0 \<in> set (bs @ after) then Inr (takeWhile (\<lambda>b. b \<noteq> 0) (bs @ after)) else Inl OutOfBounds)"

definition bytes_at :: "u8 list option \<Rightarrow> u8 list" where
  "bytes_at data = (case data of None \<Rightarrow> [] | Some bs \<Rightarrow> bs)"

text \<open>
  The task. \<open>fds\<close> are the loop's descriptors in the order of the hash set. The array \<open>conns\<close> comes uninitialised from
  \<open>new\<close>, and \<open>conns[fd]\<close> is written when a connection is made for \<open>fd\<close> and by that connection alone afterwards;
  before, it is whatever the memory held, and \<open>zero fd\<close> is whether that was zero.
\<close>

definition assigned :: "int \<Rightarrow> 'u net \<Rightarrow> bool" where
  "assigned fd n = list_ex (\<lambda>c. connfd (tcps n c) = fd) [0..<fresh_conn n]"

fun print_lars_task :: "(int \<Rightarrow> bool) \<Rightarrow> int list \<Rightarrow> 'u net \<Rightarrow> 'u net res" where
  "print_lars_task zero [] n = Inr n"
| "print_lars_task zero (fd # fds) n =
     (if fd < 0 \<or> int (length (conns n)) \<le> fd then Inl OutOfBounds
      else if \<not> assigned fd n \<and> \<not> zero fd then Inl UninitRead
      else case conns n ! nat fd of
             None \<Rightarrow> print_lars_task zero fds n
           | Some c \<Rightarrow> rbind (send_message c (bytes_of ''Hello I am a Task!'') 404 n) (\<lambda>(_, n1). print_lars_task zero fds n1))"

definition print_lars_task_id :: nat where "print_lars_task_id = 0"

definition ex_callback_busi :: "u8 list option \<Rightarrow> int \<Rightarrow> addr \<Rightarrow> ex_app net \<Rightarrow> ex_app net res" where
  "ex_callback_busi data i c n =
     rbind (send_message c (bytes_at data) i n) (\<lambda>(_, n1).
       case ex_param (app n1) c of
         None \<Rightarrow> Inl UninitRead
       | Some p \<Rightarrow> Inr (n1\<lparr>app := (app n1)\<lparr>ex_lines := ex_lines (app n1) @ [Param p]\<rparr>\<rparr>))"

definition ex_print_busi :: "u8 list \<Rightarrow> u8 list option \<Rightarrow> int \<Rightarrow> int \<Rightarrow> ex_app net \<Rightarrow> ex_app net res" where
  "ex_print_busi after data len i n =
     rbind (c_string after (bytes_at data)) (\<lambda>s.
       Inr (n\<lparr>app := (app n)\<lparr>ex_lines := ex_lines (app n) @ [Received s i len]\<rparr>\<rparr>))"

text \<open>The hook of a new connection; without threads \<open>get_thread_pool\<close> gives no pool.\<close>

definition ex_on_client_build :: "addr \<Rightarrow> ex_app net \<Rightarrow> ex_app net res" where
  "ex_on_client_build c n =
     rbind (send_message c (bytes_of ''welcome ! you are online!!!'') 200 n) (\<lambda>(_, n1).
       if queues n1 = [] then Inl NullDeref
       else rbind (send_task print_lars_task_id None n1) (\<lambda>n2.
         Inr (n2\<lparr>app := (app n2)\<lparr>ex_param := (ex_param (app n2))(c \<mapsto> ''I am the conn param for you!'')\<rparr>\<rparr>)))"

definition ex_on_client_lost :: "addr \<Rightarrow> ex_app net \<Rightarrow> ex_app net res" where
  "ex_on_client_lost c n = Inr n"

definition ex_env :: "u8 list \<Rightarrow> ex_app srv_env" where
  "ex_env after =
     \<lparr>conn_start_cb = Some ex_on_client_build, conn_close_cb = Some ex_on_client_lost,
      srv_router = snd (register_msg_router 2 1 0 (snd (register_msg_router 1 0 0 msg_router_new))),
      run_msg_cb = (\<lambda>cb data len i c a n. if cb = 0 then ex_callback_busi data i c n else ex_print_busi after data len i n)\<rparr>"

definition ex_server_main ::
  "(string \<Rightarrow> u32 option) \<Rightarrow> string option \<Rightarrow> conf option \<Rightarrow> sys_start \<Rightarrow> int list \<Rightarrow> ex_app net \<Rightarrow>
   ((u32 \<times> 16 word) \<times> ex_app net) res" where
  "ex_server_main aton file config k fds n =
     rbind (setPath file config) (\<lambda>(ok, config').
     rbind (config_instance config') (\<lambda>cf.
       let ip = GetString cf ''reactor'' ''ip'' ''0.0.0.0'';
           port = ucast (GetNumber cf ''reactor'' ''port'' 8888)
       in tcp_server_new aton cf ip port k fds n))"

section \<open>The client\<close>

definition ex_cli_callback_busi :: "u8 list option \<Rightarrow> int \<Rightarrow> ex_line list client \<Rightarrow> ex_line list client res" where
  "ex_cli_callback_busi data i c = rbind (client_send_message (bytes_at data) i c) (\<lambda>(_, c1). Inr c1)"

definition ex_cli_print_busi :: "u8 list \<Rightarrow> u8 list option \<Rightarrow> int \<Rightarrow> int \<Rightarrow> ex_line list client \<Rightarrow> ex_line list client res" where
  "ex_cli_print_busi after data len i c =
     rbind (c_string after (bytes_at data)) (\<lambda>s. Inr (c\<lparr>c_app := c_app c @ [Received s i len]\<rparr>))"

definition ex_cli_on_client_build :: "ex_line list client \<Rightarrow> ex_line list client res" where
  "ex_cli_on_client_build c = rbind (client_send_message (bytes_of ''hello lars'') 1 c) (\<lambda>(_, c1). Inr c1)"

definition ex_cli_on_client_lost :: "ex_line list client \<Rightarrow> ex_line list client res" where
  "ex_cli_on_client_lost c = Inr c"

definition ex_cli_env :: "u8 list \<Rightarrow> ex_line list cli_env" where
  "ex_cli_env after =
     \<lparr>cli_start_cb = Some ex_cli_on_client_build, cli_close_cb = Some ex_cli_on_client_lost,
      cli_router = snd (register_msg_router 404 0 0 (snd (register_msg_router 200 0 0
                     (snd (register_msg_router 2 1 0 (snd (register_msg_router 1 0 0 msg_router_new))))))),
      cli_msg_cb = (\<lambda>cb data len i u a c. if cb = 0 then ex_cli_print_busi after data len i c else ex_cli_callback_busi data i c)\<rparr>"

text \<open>\<open>main\<close>: the client connects in its constructor, before it has its callbacks.\<close>

definition ex_client_main :: "u8 list \<Rightarrow> int \<Rightarrow> conn_ret \<Rightarrow> int \<Rightarrow> pool_st \<Rightarrow> (ex_line list cli_env \<times> ex_line list client) res" where
  "ex_client_main after sock conn so_error pool =
     rbind (tcp_client_new \<lparr>cli_start_cb = None, cli_close_cb = None, cli_router = msg_router_new, cli_msg_cb = cli_msg_cb (ex_cli_env after)\<rparr>
              sock conn so_error pool event_loop_new []) (\<lambda>c. Inr (ex_cli_env after, c))"

section \<open>Lemmas\<close>

lemma assigned_iff: "assigned fd n \<longleftrightarrow> fd \<in> made_fds n"
  by (auto simp: assigned_def made_fds_def list_ex_iff)

lemma print_task_work: "print_lars_task zero fds n = Inr n' \<Longrightarrow> app_work n n'"
proof (induction zero fds n rule: print_lars_task.induct)
  case (1 zero n)
  then show ?case by (simp add: work_none)
next
  case (2 zero fd fds n)
  have ok: "0 \<le> fd" "fd < int (length (conns n))" "\<not> (\<not> assigned fd n \<and> \<not> zero fd)" using "2.prems" by (auto split: if_splits)
  show ?case
  proof (cases "conns n ! nat fd")
    case None
    then show ?thesis using 2 ok by simp
  next
    case (Some c)
    then obtain r n1 where n1: "send_message c (bytes_of ''Hello I am a Task!'') 404 n = Inr (r, n1)" "print_lars_task zero fds n1 = Inr n'"
      using "2.prems" ok by (auto simp: rbind_eq_Inr)
    have "app_work n n1" using work_send [OF work_none live_nth [OF ok(1,2) Some] n1(1)] .
    moreover have "app_work n1 n'" using "2.IH"(2) ok Some n1 by (simp add: not_le)
    ultimately show ?thesis using work_trans by blast
  qed
qed

lemma print_task_append:
  "print_lars_task zero (xs @ ys) n = rbind (print_lars_task zero xs n) (print_lars_task zero ys)"
proof (induction zero xs n rule: print_lars_task.induct)
  case (2 zero fd fds n)
  show ?case
  proof (cases "conns n ! nat fd")
    case (Some c)
    then show ?thesis using "2.IH"(2) by (cases "send_message c (bytes_of ''Hello I am a Task!'') 404 n") auto
  qed (use "2.IH"(1) in auto)
qed simp

interpretation ea: server_app "ex_env after" for after
proof unfold_locales
  fix c and n n' :: "ex_app net"
  assume "run_hook (conn_start_cb (ex_env after)) c n = Inr n'"
  then obtain r n1 n2 a where n: "send_message c (bytes_of ''welcome ! you are online!!!'') 200 n = Inr (r, n1)"
      "send_task print_lars_task_id None n1 = Inr n2" "n' = n2\<lparr>app := a\<rparr>"
    by (auto simp: run_hook_def ex_env_def ex_on_client_build_def rbind_eq_Inr split: if_splits)
  show "work_on {c} n n'" unfolding n(3)
    by (rule work_app, rule work_task [OF _ n(2)], rule work_self [OF work_none _ n(1)]) simp
next
  fix c and n n' :: "ex_app net"
  show "run_hook (conn_close_cb (ex_env after)) c n = Inr n' \<Longrightarrow> app_work n n'"
    by (simp add: run_hook_def ex_env_def ex_on_client_lost_def work_none)
next
  fix cb data len i c a and n n' :: "ex_app net"
  assume c: "c \<in> live n" and run: "run_msg_cb (ex_env after) cb data len i c a n = Inr n'"
  show "app_work n n'"
  proof (cases "cb = 0")
    case True
    then obtain r n1 a' where n: "send_message c (bytes_at data) i n = Inr (r, n1)" "n' = n1\<lparr>app := a'\<rparr>"
      using run by (auto simp: ex_env_def ex_callback_busi_def rbind_eq_Inr split: option.splits)
    show ?thesis unfolding n(2) by (rule work_app, rule work_send [OF work_none c n(1)])
  next
    case False
    then obtain a' where "n' = n\<lparr>app := a'\<rparr>" using run by (auto simp: ex_env_def ex_print_busi_def rbind_eq_Inr)
    then show ?thesis by (simp add: work_app [OF work_none])
  qed
qed

interpretation ef: fds_app "ex_env after" for after
proof unfold_locales
  fix c and n n' :: "ex_app net"
  assume "run_hook (conn_start_cb (ex_env after)) c n = Inr n'"
  from work_fds [OF ea.start_hook [OF this]] show "fds_kept n n'" .
next
  fix c and n n' :: "ex_app net"
  show "run_hook (conn_close_cb (ex_env after)) c n = Inr n' \<Longrightarrow> fds_kept n n'"
    by (simp add: run_hook_def ex_env_def ex_on_client_lost_def)
next
  fix cb data len i c a and n n' :: "ex_app net"
  assume "run_msg_cb (ex_env after) cb data len i c a n = Inr n'"
  then consider r n1 a' where "send_message c (bytes_at data) i n = Inr (r, n1)" "n' = n1\<lparr>app := a'\<rparr>" | a' where "n' = n\<lparr>app := a'\<rparr>"
    by (auto simp: ex_env_def ex_callback_busi_def ex_print_busi_def rbind_eq_Inr split: if_splits option.splits)
  then show "fds_kept n n'"
  proof cases
    case 1
    from send_message_fds [OF 1(1)] show ?thesis unfolding 1(2) by simp
  qed simp
qed

text \<open>A loop's own descriptor is among those it listens to, and no connection's.\<close>

lemma own_listened:
  assumes inv: "srv_inv (srv_events sockfd fds) n" and l: "0 < l" "l \<le> length fds"
  shows "fds ! (l - 1) \<in> listen_fds (loops n l)" and "conn_of (fds ! (l - 1)) n = None"
proof -
  let ?fd = "fds ! (l - 1)"
  have "srv_events sockfd fds l ?fd \<noteq> None" using l by (simp add: srv_events_def)
  then have own: "?fd \<in> own (srv_events sockfd fds)" by (auto simp: own_def)
  note i = inv [unfolded srv_inv_def]
  have "io_evs (loops n l) ?fd \<noteq> None" using net_invD(10) [OF i own, of l] l by (simp add: srv_events_def)
  then show "?fd \<in> listen_fds (loops n l)" using net_invD(6) [OF i, of l] by (auto simp: loop_inv_def)
  show "conn_of ?fd n = None" using net_invD(4) [OF i, of ?fd] own by (cases "conn_of ?fd n") auto
qed

section \<open>Properties\<close>

text \<open>
  C29: the example server as a whole. Its hook sends on the connection that is being made and gives tasks to the
  threads, its callbacks send and keep what they were given, its task sends on other connections; from the
  constructor on, in every interleaving of all this with accepting, reading, writing and closing, the server's
  invariant holds, also after each run of a thread's tasks.
\<close>

theorem example_server_ok:
  assumes "net_zero n0" and "0 \<le> thread_cnt" and "length fds = nat thread_cnt"
    and "srv_reached sockfd thread_cnt max_conn fds (ex_env after) n0 n"
  shows "srv_inv (srv_events sockfd fds) n \<and>
    (\<forall>l order n'. execute_ready_tasks (\<lambda>n. loops n l) (set_loop l) (\<lambda>f a n. print_lars_task zero (order (listen_fds (loops n l))) n) n = Inr n' \<longrightarrow>
       srv_reached sockfd thread_cnt max_conn fds (ex_env after) n0 n' \<and> srv_inv (srv_events sockfd fds) n')"
proof -
  have "srv_reached sockfd thread_cnt max_conn fds (ex_env after) n0 n'"
    if "execute_ready_tasks (\<lambda>n. loops n l) (set_loop l) (\<lambda>f a n. print_lars_task zero (order (listen_fds (loops n l))) n) n = Inr n'"
    for l n' and order :: "int set \<Rightarrow> int list"
    using ea.reached_run [OF assms(4) print_task_work that] .
  then show ?thesis using ea.reached_inv [OF assms(1-3)] assms(4) by blast
qed

text \<open>
  C31: the example's task reads an entry of \<open>conns\<close> that has never been written. The descriptors a thread listens to
  include the eventfd of its own queue, for which no connection is ever made: in every state the server gets to, and
  in whatever order the task goes through the descriptors, it comes to that one after those before it, and unless
  the memory that \<open>new\<close> returned happened to be zero there, what it takes for a connection is an uninitialised pointer.
\<close>

theorem example_task_uninit:
  assumes "net_zero n0" and "fresh_conn n0 = 0" and "0 \<le> thread_cnt" and "length fds = nat thread_cnt"
    and "srv_reached sockfd thread_cnt max_conn fds (ex_env after) n0 n"
    and "0 < l" and "l \<le> length fds" and "set order = listen_fds (loops n l)" and "fd = fds ! (l - 1)"
  shows "\<exists>pre post. order = pre @ fd # post \<and> fd \<notin> set pre \<and> \<not> assigned fd n \<and>
    print_lars_task zero order n =
      rbind (print_lars_task zero pre n) (\<lambda>n1.
        if fd < 0 \<or> int (length (conns n)) \<le> fd then Inl OutOfBounds
        else if zero fd then print_lars_task zero post n1 else Inl UninitRead)"
proof -
  let ?E = "srv_events sockfd fds"
  have inv: "srv_inv ?E n" using ea.reached_inv [OF assms(1,3,4,5)] .
  note own = own_listened [OF inv assms(6,7), folded assms(9)]
  obtain pre post where o: "order = pre @ fd # post" "fd \<notin> set pre" using split_list_first [of fd order] own(1) assms(8) by auto
  have "?E l fd \<noteq> None" using assms(6,7,9) by (simp add: srv_events_def)
  then have "fd \<in> own ?E" by (auto simp: own_def)
  moreover have "srv_setup thread_cnt fds (ex_env after) n0" using assms(1,3,4) ea.app_ok by (simp add: srv_setup_def)
  ultimately have not: "\<not> assigned fd n" using ef.reached_fds [OF _ assms(2,5)] by (auto simp: assigned_iff)
  have at: "print_lars_task zero (fd # post) n1 =
      (if fd < 0 \<or> int (length (conns n)) \<le> fd then Inl OutOfBounds
       else if zero fd then print_lars_task zero post n1 else Inl UninitRead)" if "print_lars_task zero pre n = Inr n1" for n1
  proof -
    note w = print_task_work [OF that]
    have "conns n1 = conns n" using app_work_inv [OF w inv [unfolded srv_inv_def]] by (simp add: same_table_def)
    moreover have "\<not> assigned fd n1" using not fds_kept_made [OF work_fds [OF w]] by (simp add: assigned_iff)
    ultimately show ?thesis using own(2) by (auto simp: conn_of_def)
  qed
  have "print_lars_task zero order n = rbind (print_lars_task zero pre n) (print_lars_task zero (fd # post))"
    unfolding o(1) by (rule print_task_append)
  then show ?thesis using o not at by (intro exI [of _ pre] exI [of _ post]) (cases "print_lars_task zero pre n"; simp)
qed

section \<open>An instance\<close>

definition demo_ex_zero :: "ex_app net" where
  "demo_ex_zero = \<lparr>net_pool = drained_pool, loops = (\<lambda>_. event_loop_new), tcps = (\<lambda>_. \<lparr>connfd = 0, conn_loop = 0, ibuf = NULL, obuf = NULL\<rparr>),
     fresh_conn = 0, conns = [], curr_conns = 0, max_conns = 0, queues = [], tp_index = 0, closed = [],
     app = \<lparr>ex_param = (\<lambda>_. None), ex_lines = []\<rparr>\<rparr>"

lemma demo_ex_net_zero: "net_zero demo_ex_zero"
  using drained_pool_inv drained_all_free by (simp add: net_zero_def demo_ex_zero_def)

lemma demo_ex_started:
  "\<exists>n. srv_reached 3 1 10 [8] (ex_env after) demo_ex_zero n \<and> listen_fds (loops n 1) = {8} \<and> length (conns n) = 17"
proof -
  obtain n where n: "tcp_server_start 3 1 10 [8] demo_ex_zero = Inr n" "listen_fds (loops n 1) = {8}" "length (conns n) = 17"
    by (simp add: tcp_server_start_def conns_size_def cint_add_def in_int_def thread_pool_new_def thread_queue_new_def thread_main_def
        set_queue_loop_def Let_def demo_ex_zero_def)
      (simp add: add_io_event_def epoll_ctl_def event_loop_new_def)
  then show ?thesis by (auto simp: srv_reached_def)
qed

lemma example_server_ok_witness:
  "\<exists>n. srv_reached 3 1 10 [8] (ex_env [0]) demo_ex_zero n \<and> srv_inv (srv_events 3 [8]) n"
  using demo_ex_started [of "[0]"] example_server_ok [OF demo_ex_net_zero, of 1 "[8]" 3 10 "[0]"] by auto

lemma example_task_uninit_witness:
  "\<exists>n. srv_reached 3 1 10 [8] (ex_env [0]) demo_ex_zero n \<and> print_lars_task (\<lambda>fd. fd = 7) [8] n = Inl UninitRead \<and>
     print_lars_task (\<lambda>fd. True) [8] n = Inr n"
proof -
  obtain n where n: "srv_reached 3 1 10 [8] (ex_env [0]) demo_ex_zero n" "listen_fds (loops n 1) = {8}" "length (conns n) = 17"
    using demo_ex_started by blast
  have t: "print_lars_task zero [8] n = (if zero 8 then Inr n else Inl UninitRead)" for zero
  proof -
    have "fresh_conn demo_ex_zero = 0" "0 \<le> (1 :: int)" "length [8] = nat 1" "0 < (1 :: nat)" "1 \<le> length [8]" "set [8] = listen_fds (loops n 1)"
        "8 = [8] ! (1 - 1)"
      using n(2) by (simp_all add: demo_ex_zero_def)
    from example_task_uninit [OF demo_ex_net_zero this(1-3) n(1) this(4-7), of zero]
    obtain pre post where p: "[8 :: int] = pre @ 8 # post" "print_lars_task zero [8] n =
        rbind (print_lars_task zero pre n) (\<lambda>n1. if (8 :: int) < 0 \<or> int (length (conns n)) \<le> 8 then Inl OutOfBounds
          else if zero 8 then print_lars_task zero post n1 else Inl UninitRead)"
      by (elim exE conjE) (rule that)
    from p(1) have "pre = [] \<and> post = []" by (cases pre) simp_all
    with p(2) n(3) show ?thesis by (simp del: print_lars_task.simps(2))
  qed
  have "print_lars_task (\<lambda>fd. fd = 7) [8] n = Inl UninitRead \<and> print_lars_task (\<lambda>fd. True) [8] n = Inr n" unfolding t by simp
  with n(1) show ?thesis by blast
qed

end
