(* ===== verification/Api_Examples.thy ===== *)
theory Api_Examples
  imports Example_Base "HOL-Library.RBT" "HOL-Library.List_Lexorder" "HOL-Library.Char_ord"
begin

text \<open>
  The programs that use the client library (\<open>lars/api/cpp/example\<close>): a simulator that asks for hosts and reports
  calls, a throughput test, and three small programs. \<open>std::map\<close> is \<open>rbt\<close>, which iterates in the same order.
\<close>

section \<open>A call of \<open>get_host\<close> and the report after it\<close>

text \<open>What the system calls of one round yield; the report's \<open>sendto\<close> comes last.\<close>

record api_call =
  host_sent :: bool
  host_buf :: "int \<Rightarrow> u8"
  host_recv :: "api_recv list"
  report_sent :: bool

text \<open>The caller's \<open>ip\<close> is empty at first and its \<open>port\<close> not initialised; \<open>get_host\<close> sets both or neither.\<close>

type_synonym host_var = "string \<times> i32 option"

definition ask_host ::
  "api_proto \<Rightarrow> i32 \<Rightarrow> i32 \<Rightarrow> api_call \<Rightarrow> host_var \<Rightarrow> api \<Rightarrow> (ret_code \<times> host_var \<times> api) res" where
  "ask_host pb modid cmdid k v st =
     rbind (api_get_host pb (host_sent k) (host_buf k) (host_recv k) modid cmdid st) (\<lambda>(ret, host, st1).
       Inr (ret, case host of None \<Rightarrow> v | Some (ip, port) \<Rightarrow> (ip, Some port), st1))"

text \<open>\<open>report\<close> of those variables. \<open>inet_aton\<close> of a text that is no address leaves \<open>inaddr\<close> as it was.\<close>

definition report_var ::
  "(string \<Rightarrow> u32 option) \<Rightarrow> api_proto \<Rightarrow> i32 \<Rightarrow> i32 \<Rightarrow> api_call \<Rightarrow> host_var \<Rightarrow> i32 \<Rightarrow> api \<Rightarrow> api res" where
  "report_var aton pb modid cmdid k v retcode st =
     (case snd v of
        None \<Rightarrow> Inl UninitRead
      | Some port \<Rightarrow>
          (case aton (fst v) of
             None \<Rightarrow> Inl UninitRead
           | Some ip_num \<Rightarrow> api_report pb (report_sent k) modid cmdid ip_num port retcode st))"

section \<open>The simulator\<close>

record sim =
  sim_host :: host_var
  sim_api :: api
  sim_result :: "(string, int \<times> int) rbt"    \<comment> \<open>successes and errors of each address\<close>

text \<open>One query, with what \<open>rand()\<close> returns.\<close>

definition sim_query ::
  "(string \<Rightarrow> u32 option) \<Rightarrow> api_proto \<Rightarrow> i32 \<Rightarrow> i32 \<Rightarrow> i32 \<Rightarrow> api_call \<Rightarrow> nat \<Rightarrow> sim \<Rightarrow> sim res" where
  "sim_query aton pb modid cmdid rate k rnd s =
     rbind (ask_host pb modid cmdid k (sim_host s) (sim_api s)) (\<lambda>(ret, v, st).
       if ret = RET_SUCC then
         let ip = fst v;
             result = (if RBT.lookup (sim_result s) ip = None then RBT.insert ip (0, 0) (sim_result s) else sim_result s);
             (succ, err) = (case RBT.lookup result ip of None \<Rightarrow> (0, 0) | Some p \<Rightarrow> p)
         in if int (rnd mod 10) < sint rate
            then rbind (cint_add err 1) (\<lambda>err'.
                 rbind (report_var aton pb modid cmdid k v 1 st) (\<lambda>st1.
                   Inr \<lparr>sim_host = v, sim_api = st1, sim_result = RBT.insert ip (succ, err') result\<rparr>))
            else rbind (cint_add succ 1) (\<lambda>succ'.
                 rbind (report_var aton pb modid cmdid k v 0 st) (\<lambda>st1.
                   Inr \<lparr>sim_host = v, sim_api = st1, sim_result = RBT.insert ip (succ', err) result\<rparr>))
       else Inr (s\<lparr>sim_host := v, sim_api := st\<rparr>))"

fun sim_loop ::
  "(string \<Rightarrow> u32 option) \<Rightarrow> api_proto \<Rightarrow> i32 \<Rightarrow> i32 \<Rightarrow> i32 \<Rightarrow> nat \<Rightarrow> (api_call \<times> nat) list \<Rightarrow> sim \<Rightarrow> sim res" where
  "sim_loop aton pb modid cmdid rate 0 ks s = Inr s"
| "sim_loop aton pb modid cmdid rate (Suc n) [] s = Inl Blocked"
| "sim_loop aton pb modid cmdid rate (Suc n) ((k, rnd) # ks) s =
     rbind (sim_query aton pb modid cmdid rate k rnd s) (sim_loop aton pb modid cmdid rate n ks)"

text \<open>\<open>main\<close>: the exit status and the table it prints, in the order of the map.\<close>

definition simulator_main ::
  "(string \<Rightarrow> u32 option) \<Rightarrow> api_proto \<Rightarrow> string list \<Rightarrow> (int \<times> int) \<times> (int \<times> int) \<times> (int \<times> int) \<Rightarrow>
   (bool \<times> (int \<Rightarrow> u8) \<times> api_recv list) list \<Rightarrow> (api_call \<times> nat) list \<Rightarrow>
   (int \<times> (string \<times> int \<times> int) list \<times> (nat \<times> u8 list) list) res" where
  "simulator_main aton pb argv socks regs ks =
     (if length argv < 3 then Inr (1, [], [])
      else let modid = atoi (argv ! 1); cmdid = atoi (argv ! 2);
               rate = (if 3 < length argv then atoi (argv ! 3) else 2);
               query_cnt = (if 4 < length argv then atoi (argv ! 4) else 100);
               (k0, k1, k2) = socks
           in rbind (lars_client_new aton k0 k1 k2) (\<lambda>(st, _).
              rbind (reg_init pb regs modid cmdid st) (\<lambda>(ret, st1).
              rbind (sim_loop aton pb modid cmdid rate (nat (sint query_cnt)) ks
                       \<lparr>sim_host = ([], None), sim_api = st1, sim_result = RBT.empty\<rparr>) (\<lambda>s.
                Inr (0, RBT.entries (sim_result s), api_sent (sim_api s))))))"

section \<open>The throughput test\<close>

record qps_thread =
  qt_host :: host_var
  qt_api :: api
  qt_qps :: int
  qt_last :: int
  qt_total :: int
  qt_secs :: int
  qt_lines :: "(int \<times> int) list"             \<comment> \<open>answers in the last second and average, as printed\<close>

definition long_add :: "int \<Rightarrow> int \<Rightarrow> int res" where
  "long_add a b = (if - (2 ^ 63) \<le> a + b \<and> a + b < 2 ^ 63 then Inr (a + b) else Inl SignedOverflow)"

text \<open>A round of the endless loop; \<open>now\<close> is what \<open>time\<close> returns at its end.\<close>

definition test_qps_round ::
  "(string \<Rightarrow> u32 option) \<Rightarrow> api_proto \<Rightarrow> i32 \<Rightarrow> i32 \<Rightarrow> api_call \<Rightarrow> int \<Rightarrow> qps_thread \<Rightarrow> qps_thread res" where
  "test_qps_round aton pb modid cmdid k now q =
     rbind (ask_host pb modid cmdid k (qt_host q) (qt_api q)) (\<lambda>(ret, v, st).
     rbind (if ret \<in> {RET_SUCC, RET_OVERLOAD, RET_NOEXIST} then
              rbind (long_add (qt_qps q) 1) (\<lambda>n.
                if ret = RET_SUCC then rbind (report_var aton pb modid cmdid k v 0 st) (\<lambda>st1. Inr (n, st1))
                else if ret = RET_OVERLOAD then rbind (report_var aton pb modid cmdid k v 1 st) (\<lambda>st1. Inr (n, st1))
                else Inr (n, st))
            else Inr (qt_qps q, st)) (\<lambda>(n, st1).
       let q1 = q\<lparr>qt_host := v, qt_api := st1\<rparr>
       in if 1 \<le> now - qt_last q then
            rbind (long_add (qt_secs q) 1) (\<lambda>secs.
            rbind (long_add (qt_total q) n) (\<lambda>total.
              Inr (q1\<lparr>qt_secs := secs, qt_total := total, qt_last := now, qt_lines := qt_lines q @ [(n, total div secs)], qt_qps := 0\<rparr>)))
          else Inr (q1\<lparr>qt_qps := n\<rparr>)))"

fun test_qps_loop ::
  "(string \<Rightarrow> u32 option) \<Rightarrow> api_proto \<Rightarrow> i32 \<Rightarrow> i32 \<Rightarrow> (api_call \<times> int) list \<Rightarrow> qps_thread \<Rightarrow> qps_thread res" where
  "test_qps_loop aton pb modid cmdid [] q = Inr q"
| "test_qps_loop aton pb modid cmdid ((k, now) # ks) q =
     rbind (test_qps_round aton pb modid cmdid k now q) (test_qps_loop aton pb modid cmdid ks)"

text \<open>The thread's start, at the time \<open>now\<close>; what follows are as many rounds as are given.\<close>

definition test_qps ::
  "(string \<Rightarrow> u32 option) \<Rightarrow> api_proto \<Rightarrow> i32 \<times> i32 \<Rightarrow> (int \<times> int) \<times> (int \<times> int) \<times> (int \<times> int) \<Rightarrow> int \<Rightarrow>
   (bool \<times> (int \<Rightarrow> u8) \<times> api_recv list) list \<Rightarrow> (api_call \<times> int) list \<Rightarrow> qps_thread res" where
  "test_qps aton pb mod_cmd socks now regs ks =
     (let (modid, cmdid) = mod_cmd; (k0, k1, k2) = socks
      in rbind (lars_client_new aton k0 k1 k2) (\<lambda>(st, _).
         rbind (reg_init pb regs modid cmdid st) (\<lambda>(ret, st1).
           test_qps_loop aton pb modid cmdid ks
             \<lparr>qt_host = ([], None), qt_api = st1, qt_qps = 0, qt_last = now, qt_total = 0, qt_secs = 0, qt_lines = []\<rparr>)))"

text \<open>\<open>main\<close>: the exit status on a wrong call, else the threads with their (modid, cmdid).\<close>

definition api_qps_main :: "string list \<Rightarrow> (int + (i32 \<times> i32) list) res" where
  "api_qps_main argv =
     (if length argv \<noteq> 2 then Inr (Inl 1)
      else let cnt = sint (atoi (argv ! 1))
           in if cnt < 0 then Inl Uncaught
              else Inr (Inr (map (\<lambda>i. (word_of_int (int i + 1), 1)) [0..<nat cnt])))"

section \<open>The small programs\<close>

text \<open>What they print of the hosts: the answer of \<open>get_host\<close> and the list of \<open>get_route\<close>.\<close>

datatype line = HostIs host_var | NotExist | RouteTo "string \<times> i32"

definition example_main ::
  "(string \<Rightarrow> u32 option) \<Rightarrow> api_proto \<Rightarrow> string list \<Rightarrow> (int \<times> int) \<times> (int \<times> int) \<times> (int \<times> int) \<Rightarrow>
   (bool \<times> (int \<Rightarrow> u8) \<times> api_recv list) list \<Rightarrow> api_call \<Rightarrow> bool \<times> (int \<Rightarrow> u8) \<times> api_recv list \<Rightarrow>
   (int \<times> line list \<times> api option) res" where
  "example_main aton pb argv socks regs k rt =
     (if length argv \<noteq> 3 then Inr (1, [], None)
      else let modid = atoi (argv ! 1); cmdid = atoi (argv ! 2); (k0, k1, k2) = socks; (ok, buf, rs) = rt
           in rbind (lars_client_new aton k0 k1 k2) (\<lambda>(st, _).
              rbind (reg_init pb regs modid cmdid st) (\<lambda>(ret, st1).
              rbind (ask_host pb modid cmdid k ([], None) st1) (\<lambda>(ret, v, st2).
              rbind (if ret = RET_SUCC then rbind (report_var aton pb modid cmdid k v 0 st2) (\<lambda>st3. Inr ([HostIs v], st3))
                     else Inr (if ret = RET_NOEXIST then [NotExist] else [], st2)) (\<lambda>(out, st3).
              rbind (api_get_route pb ok buf rs modid cmdid [] st3) (\<lambda>(ret, route, st4).
                Inr (0, out @ (if ret = RET_SUCC then map RouteTo route else []), Some st4)))))))"

definition get_host_main ::
  "(string \<Rightarrow> u32 option) \<Rightarrow> api_proto \<Rightarrow> string list \<Rightarrow> (int \<times> int) \<times> (int \<times> int) \<times> (int \<times> int) \<Rightarrow>
   (bool \<times> (int \<Rightarrow> u8) \<times> api_recv list) list \<Rightarrow> api_call \<Rightarrow> (int \<times> line list) res" where
  "get_host_main aton pb argv socks regs k =
     (if length argv \<noteq> 3 then Inr (1, [])
      else let modid = atoi (argv ! 1); cmdid = atoi (argv ! 2); (k0, k1, k2) = socks
           in rbind (lars_client_new aton k0 k1 k2) (\<lambda>(st, _).
              rbind (reg_init pb regs modid cmdid st) (\<lambda>(ret, st1).
              rbind (ask_host pb modid cmdid k ([], None) st1) (\<lambda>(ret, v, st2).
                Inr (0, if ret = RET_SUCC then [HostIs v] else if ret = RET_NOEXIST then [NotExist] else [])))))"

definition get_route_main ::
  "(string \<Rightarrow> u32 option) \<Rightarrow> api_proto \<Rightarrow> string list \<Rightarrow> (int \<times> int) \<times> (int \<times> int) \<times> (int \<times> int) \<Rightarrow>
   (bool \<times> (int \<Rightarrow> u8) \<times> api_recv list) list \<Rightarrow> bool \<times> (int \<Rightarrow> u8) \<times> api_recv list \<Rightarrow> (int \<times> line list) res" where
  "get_route_main aton pb argv socks regs rt =
     (if length argv \<noteq> 3 then Inr (1, [])
      else let modid = atoi (argv ! 1); cmdid = atoi (argv ! 2); (k0, k1, k2) = socks; (ok, buf, rs) = rt
           in rbind (lars_client_new aton k0 k1 k2) (\<lambda>(st, _).
              rbind (reg_init pb regs modid cmdid st) (\<lambda>(ret, st1).
              rbind (api_get_route pb ok buf rs modid cmdid [] st1) (\<lambda>(ret, route, st2).
                Inr (0, if ret = RET_SUCC then map RouteTo route else [])))))"

section \<open>Lemmas\<close>

text \<open>The agent answers a query: after late answers to earlier ones comes \<open>rsp\<close>, and everything sent gets out.\<close>

definition answered :: "api_proto \<Rightarrow> i32 \<Rightarrow> i32 \<Rightarrow> u32 \<Rightarrow> api_call \<Rightarrow> get_host_response \<Rightarrow> bool" where
  "answered pb modid cmdid seq k rsp \<longleftrightarrow>
     host_sent k \<and> report_sent k \<and> hr_seq rsp = seq \<and> hr_modid rsp = modid \<and> hr_cmdid rsp = cmdid \<and>
     (\<exists>stale good rs. host_recv k = map Got stale @ Got good # rs \<and> host_dgram pb good = Some rsp \<and>
        (\<forall>d \<in> set stale. \<exists>r. host_dgram pb d = Some r \<and> hr_seq r < seq))"

fun all_answered :: "api_proto \<Rightarrow> i32 \<Rightarrow> i32 \<Rightarrow> u32 \<Rightarrow> (api_call \<times> nat) list \<Rightarrow> get_host_response list \<Rightarrow> bool" where
  "all_answered pb modid cmdid seq [] rsps = (rsps = [])"
| "all_answered pb modid cmdid seq ((k, rnd) # ks) rsps =
     (case rsps of [] \<Rightarrow> False | r # rs \<Rightarrow> answered pb modid cmdid seq k r \<and> all_answered pb modid cmdid (seq + 1) ks rs)"

text \<open>Requests and reports fit in the buffer, and \<open>inet_aton\<close> reads what \<open>inet_ntoa\<close> writes.\<close>

definition small_requests :: "api_proto \<Rightarrow> bool" where
  "small_requests pb \<longleftrightarrow> (\<forall>r. length (host_req_bytes pb r) \<le> 4088) \<and> (\<forall>r. length (report_req_bytes pb r) \<le> 4088)"

definition reads_addresses :: "(string \<Rightarrow> u32 option) \<Rightarrow> u32 set \<Rightarrow> bool" where
  "reads_addresses aton A \<longleftrightarrow> (\<forall>a \<in> A. aton (inet_ntoa a) = Some a)"

definition request_dgram :: "api_proto \<Rightarrow> nat \<Rightarrow> i32 \<Rightarrow> i32 \<Rightarrow> u32 \<Rightarrow> nat \<times> u8 list" where
  "request_dgram pb i modid cmdid seq =
     (i, encode_msg (ID_GetHostRequest pb, host_req_bytes pb \<lparr>hq_seq = seq, hq_modid = modid, hq_cmdid = cmdid\<rparr>))"

definition report_dgram :: "api_proto \<Rightarrow> nat \<Rightarrow> i32 \<Rightarrow> i32 \<Rightarrow> i32 \<Rightarrow> u32 \<times> i32 \<Rightarrow> nat \<times> u8 list" where
  "report_dgram pb i modid cmdid retcode host =
     (i, encode_msg (ID_ReportRequest pb, report_req_bytes pb \<lparr>pq_modid = modid, pq_cmdid = cmdid, pq_retcode = retcode, pq_host = host\<rparr>))"

lemma answered_first:
  assumes "host_dgram pb d = Some rsp" "host_recv k = [Got d]" "host_sent k" "report_sent k"
  shows "answered pb (hr_modid rsp) (hr_cmdid rsp) (hr_seq rsp) k rsp"
  unfolding answered_def using assms by (auto intro!: exI [of _ "[]"] exI [of _ d])

lemma ask_host_answered:
  assumes "sock_index modid cmdid = Inr i" "small_requests pb" and a: "answered pb modid cmdid (seqid st) k rsp"
  shows "ask_host pb modid cmdid k v st = Inr (hr_retcode rsp,
    if hr_retcode rsp = RET_SUCC then (inet_ntoa (fst (hr_host rsp)), Some (snd (hr_host rsp))) else v,
    st\<lparr>seqid := seqid st + 1, api_sent := api_sent st @ [request_dgram pb i modid cmdid (seqid st)]\<rparr>)"
proof -
  obtain stale good rs where g: "host_recv k = map Got stale @ Got good # rs" "host_dgram pb good = Some rsp"
      "\<forall>d \<in> set stale. \<exists>r. host_dgram pb d = Some r \<and> hr_seq r < seqid st"
    using a by (auto simp: answered_def)
  show ?thesis using get_host_run [OF assms(1) _ g(3,2), of "host_buf k" rs] assms(2) a
    by (simp add: ask_host_def answered_def small_requests_def g(1) host_of_ip_def request_dgram_def)
qed

lemma report_var_sent:
  assumes "sock_index modid cmdid = Inr i" "small_requests pb" "report_sent k" and "aton ip = Some a"
  shows "report_var aton pb modid cmdid k (ip, Some port) retcode st =
    Inr (st\<lparr>api_sent := api_sent st @ [report_dgram pb i modid cmdid retcode (a, port)]\<rparr>)"
  using assms by (simp add: report_var_def api_report_def api_send_def small_requests_def report_dgram_def encode_msg_def Let_def MESSAGE_HEAD_LEN_def not_less)


text \<open>What a simulator does with the answers: the addresses given, each with whether the call was made to fail.\<close>

definition fails :: "i32 \<Rightarrow> nat \<Rightarrow> bool" where
  "fails rate rnd \<longleftrightarrow> int (rnd mod 10) < sint rate"

definition sim_marks :: "i32 \<Rightarrow> (api_call \<times> nat) list \<Rightarrow> get_host_response list \<Rightarrow> (string \<times> bool) list" where
  "sim_marks rate ks rsps =
     [(inet_ntoa (fst (hr_host r)), fails rate (snd k)). (k, r) \<leftarrow> zip ks rsps, hr_retcode r = RET_SUCC]"

definition tally :: "(string \<times> bool) list \<Rightarrow> string \<Rightarrow> (int \<times> int) option" where
  "tally ms ip = (if ip \<in> fst ` set ms then Some (int (count_list ms (ip, False)), int (count_list ms (ip, True))) else None)"

fun sim_dgrams ::
  "api_proto \<Rightarrow> nat \<Rightarrow> i32 \<Rightarrow> i32 \<Rightarrow> i32 \<Rightarrow> u32 \<Rightarrow> (api_call \<times> nat) list \<Rightarrow> get_host_response list \<Rightarrow> (nat \<times> u8 list) list" where
  "sim_dgrams pb i modid cmdid rate seq ((k, rnd) # ks) (r # rs) =
     request_dgram pb i modid cmdid seq #
     (if hr_retcode r = RET_SUCC then [report_dgram pb i modid cmdid (if fails rate rnd then 1 else 0) (hr_host r)] else []) @
     sim_dgrams pb i modid cmdid rate (seq + 1) ks rs"
| "sim_dgrams pb i modid cmdid rate seq ks rs = []"

lemma tally_snoc:
  "tally (ms @ [(ip, b)]) x =
    (if x = ip then (case tally ms ip of None \<Rightarrow> Some (if b then (0, 1) else (1, 0))
                     | Some (g, e) \<Rightarrow> Some (if b then (g, e + 1) else (g + 1, e)))
     else tally ms x)"
proof -
  have "count_list ms (ip, c) = 0" if "ip \<notin> fst ` set ms" for c using that by (force simp: count_list_0_iff)
  then show ?thesis by (auto simp: tally_def)
qed

lemma tally_bound: "tally ms ip = Some (g, e) \<Longrightarrow> 0 \<le> g \<and> g \<le> int (length ms) \<and> 0 \<le> e \<and> e \<le> int (length ms)"
  using count_le_length [of ms] by (auto simp: tally_def split: if_splits)

lemma sim_query_run:
  assumes i: "sock_index modid cmdid = Inr i" "small_requests pb" "reads_addresses aton {fst (hr_host rsp)}"
    and a: "answered pb modid cmdid (seqid (sim_api s)) k rsp"
    and t: "\<forall>ip. RBT.lookup (sim_result s) ip = tally ms ip" and small: "int (length ms) < int_max"
  shows "\<exists>s'. sim_query aton pb modid cmdid rate k rnd s = Inr s' \<and> seqid (sim_api s') = seqid (sim_api s) + 1 \<and>
    api_sent (sim_api s') = api_sent (sim_api s) @ sim_dgrams pb i modid cmdid rate (seqid (sim_api s)) [(k, rnd)] [rsp] \<and>
    (\<forall>ip. RBT.lookup (sim_result s') ip = tally (ms @ sim_marks rate [(k, rnd)] [rsp]) ip)"
proof (cases "hr_retcode rsp = RET_SUCC")
  case False
  then show ?thesis using ask_host_answered [OF i(1,2) a] t by (simp add: sim_query_def sim_marks_def)
next
  case True
  let ?ip = "inet_ntoa (fst (hr_host rsp))"
  let ?ge = "case tally ms ?ip of None \<Rightarrow> (0, 0) | Some p \<Rightarrow> p"
  let ?st = "(sim_api s)\<lparr>seqid := seqid (sim_api s) + 1, api_sent := api_sent (sim_api s) @ [request_dgram pb i modid cmdid (seqid (sim_api s))]\<rparr>"
  have ge: "0 \<le> fst ?ge" "0 \<le> snd ?ge" "fst ?ge < int_max" "snd ?ge < int_max"
    using tally_bound [of ms ?ip] small by (force split: option.split simp: int_max_def)+
  have rep: "report_var aton pb modid cmdid k (?ip, Some (snd (hr_host rsp))) code ?st =
      Inr (?st\<lparr>api_sent := api_sent ?st @ [report_dgram pb i modid cmdid code (hr_host rsp)]\<rparr>)" for code
    using report_var_sent [where a = "fst (hr_host rsp)", OF i(1,2)] a i(3) by (simp add: answered_def reads_addresses_def)
  note run = ask_host_answered [OF i(1,2) a]
  show ?thesis
  proof (cases "tally ms ?ip")
    case None
    then show ?thesis using run True t rep
      by (cases "int (rnd mod 10) < sint rate")
        (simp_all add: sim_query_def sim_marks_def fails_def tally_snoc Let_def cint_add_def in_int_def)
  next
    case (Some p)
    obtain g e where p: "p = (g, e)" by (cases p)
    have "cint_add g 1 = Inr (g + 1)" "cint_add e 1 = Inr (e + 1)" using ge by (simp_all add: Some p int_max_def in_int_def)
    then show ?thesis using run True t rep Some p
      by (cases "int (rnd mod 10) < sint rate")
        (simp_all add: sim_query_def sim_marks_def fails_def tally_snoc Let_def cint_add_def)
  qed
qed

lemma sim_marks_Cons: "sim_marks rate (k # ks) (r # rs) = sim_marks rate [k] [r] @ sim_marks rate ks rs"
  by (cases k) (simp add: sim_marks_def)

lemma length_sim_marks: "length (sim_marks rate ks rs) \<le> length ks"
proof -
  have "length (concat (map (\<lambda>(k, r). if hr_retcode r = RET_SUCC then [f k r] else []) zs)) \<le> length zs" for f :: "'k \<Rightarrow> _ \<Rightarrow> 'm" and zs
    by (induction zs) auto
  from this [of "\<lambda>k r. (inet_ntoa (fst (hr_host r)), fails rate (snd k))" "zip ks rs"]
  show ?thesis unfolding sim_marks_def by simp
qed

lemma sim_loop_run:
  assumes i: "sock_index modid cmdid = Inr i" "small_requests pb"
    and "reads_addresses aton ((\<lambda>r. fst (hr_host r)) ` set rsps)" and "all_answered pb modid cmdid (seqid (sim_api s)) ks rsps"
    and "\<forall>ip. RBT.lookup (sim_result s) ip = tally ms ip" and "int (length ms) + int (length ks) \<le> int_max"
  shows "\<exists>s'. sim_loop aton pb modid cmdid rate (length ks) ks s = Inr s' \<and>
    api_sent (sim_api s') = api_sent (sim_api s) @ sim_dgrams pb i modid cmdid rate (seqid (sim_api s)) ks rsps \<and>
    (\<forall>ip. RBT.lookup (sim_result s') ip = tally (ms @ sim_marks rate ks rsps) ip)"
  using assms(3-)
proof (induction ks arbitrary: s ms rsps)
  case Nil
  then show ?case by (simp add: sim_marks_def)
next
  case (Cons kr ks)
  obtain k rnd where kr: "kr = (k, rnd)" by (cases kr)
  obtain r rs where rs: "rsps = r # rs" "answered pb modid cmdid (seqid (sim_api s)) k r"
      "all_answered pb modid cmdid (seqid (sim_api s) + 1) ks rs"
    using Cons.prems(2) by (auto simp: kr split: list.splits)
  have ad: "reads_addresses aton {fst (hr_host r)}" "reads_addresses aton ((\<lambda>r. fst (hr_host r)) ` set rs)"
    using Cons.prems(1) by (simp_all add: reads_addresses_def rs(1))
  obtain s1 where s1: "sim_query aton pb modid cmdid rate k rnd s = Inr s1" "seqid (sim_api s1) = seqid (sim_api s) + 1"
      "api_sent (sim_api s1) = api_sent (sim_api s) @ sim_dgrams pb i modid cmdid rate (seqid (sim_api s)) [(k, rnd)] [r]"
      "\<forall>ip. RBT.lookup (sim_result s1) ip = tally (ms @ sim_marks rate [(k, rnd)] [r]) ip"
    using sim_query_run [OF i ad(1) rs(2) Cons.prems(3), of rate rnd] Cons.prems(4) by auto
  have "int (length (ms @ sim_marks rate [(k, rnd)] [r])) + int (length ks) \<le> int_max"
    using length_sim_marks [of rate "[(k, rnd)]" "[r]"] Cons.prems(4) by simp
  moreover have "all_answered pb modid cmdid (seqid (sim_api s1)) ks rs" using rs(3) s1(2) by simp
  ultimately obtain s' where s': "sim_loop aton pb modid cmdid rate (length ks) ks s1 = Inr s'"
      "api_sent (sim_api s') = api_sent (sim_api s1) @ sim_dgrams pb i modid cmdid rate (seqid (sim_api s1)) ks rs"
      "\<forall>ip. RBT.lookup (sim_result s') ip = tally ((ms @ sim_marks rate [(k, rnd)] [r]) @ sim_marks rate ks rs) ip"
    using Cons.IH [OF ad(2) _ s1(4)] by blast
  have "sim_marks rate (kr # ks) rsps = sim_marks rate [(k, rnd)] [r] @ sim_marks rate ks rs"
    unfolding kr rs(1) by (rule sim_marks_Cons)
  then show ?case using s' s1 by (intro exI [of _ s']) (simp add: kr rs(1))
qed

section \<open>Properties\<close>

text \<open>
  C11: The simulator's table agrees with what it has told the agent. If every query is answered - late answers to
  earlier queries may come first - the run ends; it has sent, query by query, the request and, when a host was given,
  one report that carries this host and 1 exactly when the call was made to fail; the table holds for each address
  given how many of these reports were successes and how many were errors, and no other address.
\<close>

theorem simulator_tallies:
  assumes "0 \<le> sint modid + sint cmdid" and "in_int (sint modid + sint cmdid)"
    and "small_requests pb" and "reads_addresses aton ((\<lambda>r. fst (hr_host r)) ` set rsps)"
    and "all_answered pb modid cmdid (seqid st) ks rsps" and "length ks = nat (sint (query_cnt :: i32))"
  shows "\<exists>s. sim_loop aton pb modid cmdid rate (nat (sint query_cnt)) ks
        \<lparr>sim_host = ([], None), sim_api = st, sim_result = RBT.empty\<rparr> = Inr s \<and>
     api_sent (sim_api s) = api_sent st @
       sim_dgrams pb (nat ((sint modid + sint cmdid) mod 3)) modid cmdid rate (seqid st) ks rsps \<and>
     (\<forall>ip. RBT.lookup (sim_result s) ip = tally (sim_marks rate ks rsps) ip)"
proof -
  have "in_int (sint query_cnt)" by simp
  then have "int (length ([] :: (string \<times> bool) list)) + int (length ks) \<le> int_max"
    using assms(6) by (simp add: in_int_def int_max_def)
  moreover have "sock_index modid cmdid = Inr (nat ((sint modid + sint cmdid) mod 3))"
    using assms(1,2) by (simp add: sock_index_cases)
  moreover have "\<forall>ip. RBT.lookup RBT.empty ip = tally [] ip" by (simp add: tally_def)
  ultimately show ?thesis
    using sim_loop_run [where s = "\<lparr>sim_host = ([], None), sim_api = st, sim_result = RBT.empty\<rparr>" and ms = "[]" and ks = ks
        and pb = pb and aton = aton and rsps = rsps and rate = rate] assms(3-6)
    by simp
qed

text \<open>
  C32: The throughput test reports a host that it was not given. When the agent answers that all hosts are overloaded,
  \<open>get_host\<close> leaves the caller's variables alone and the test reports an error of the host of its last success;
  before the first success it reads variables that were never set.
\<close>

theorem overload_blames_last_host:
  assumes "0 \<le> sint modid + sint cmdid" and "in_int (sint modid + sint cmdid)"
    and "small_requests pb" and "aton (inet_ntoa ip) = Some ip" and "aton [] = None"
    and "answered pb modid cmdid (seqid (qt_api q)) k rsp" and "hr_retcode rsp = RET_OVERLOAD"
    and "qt_host q = (inet_ntoa ip, Some port)" and "0 \<le> qt_qps q" and "qt_qps q + 1 < 2 ^ 63" and "now = qt_last q"
  shows "test_qps_round aton pb modid cmdid k now (q\<lparr>qt_host := ([], None)\<rparr>) = Inl UninitRead \<and>
    (\<exists>q'. test_qps_round aton pb modid cmdid k now q = Inr q' \<and> qt_qps q' = qt_qps q + 1 \<and>
       api_sent (qt_api q') = api_sent (qt_api q) @
         [request_dgram pb (nat ((sint modid + sint cmdid) mod 3)) modid cmdid (seqid (qt_api q)),
          report_dgram pb (nat ((sint modid + sint cmdid) mod 3)) modid cmdid 1 (ip, port)])"
proof -
  have i: "sock_index modid cmdid = Inr (nat ((sint modid + sint cmdid) mod 3))" using assms(1,2) by (simp add: sock_index_cases)
  note ask = ask_host_answered [OF i assms(3,6)]
  have sent: "report_sent k" using assms(6) by (simp add: answered_def)
  note report = report_var_sent [where retcode = 1 and port = port and aton = aton and ip = "inet_ntoa ip" and a = ip, OF i assms(3) sent assms(4)]
  have "long_add (qt_qps q) 1 = Inr (qt_qps q + 1)" using assms(9,10) by (simp add: long_add_def)
  then show ?thesis using ask report assms(7,8,11) by (simp add: test_qps_round_def Let_def) (simp add: report_var_def)
qed

section \<open>Instances\<close>

definition demo_call :: "u8 \<Rightarrow> api_call" where
  "demo_call q = \<lparr>host_sent = True, host_buf = (\<lambda>_. 0), host_recv = [Got (encode_msg (2, [q]))], report_sent = True\<rparr>"

definition demo_aton :: "string \<Rightarrow> u32 option" where
  "demo_aton s = (if s = inet_ntoa 16777343 then Some 16777343 else None)"

definition demo_overload :: api_proto where
  "demo_overload = demo_api_proto\<lparr>parse_host_rsp := (\<lambda>b n. Some \<lparr>hr_seq = 7, hr_modid = 1, hr_cmdid = 2, hr_retcode = RET_OVERLOAD, hr_host = (0, 0)\<rparr>)\<rparr>"

lemma simulator_tallies_witness:
  "\<exists>s. sim_loop demo_aton demo_api_proto 1 2 5 2 [(demo_call 0, 3), (demo_call 1, 8)]
        \<lparr>sim_host = ([], None), sim_api = \<lparr>seqid = 0, api_sent = []\<rparr>, sim_result = RBT.empty\<rparr> = Inr s \<and>
     RBT.lookup (sim_result s) (inet_ntoa 16777343) = Some (1, 1)"
proof -
  let ?r = "\<lambda>q. \<lparr>hr_seq = q, hr_modid = 1, hr_cmdid = 2, hr_retcode = RET_SUCC, hr_host = (16777343, 80)\<rparr> :: get_host_response"
  let ?ks = "[(demo_call 0, 3), (demo_call 1, 8)]"
  have one: "answered demo_api_proto 1 2 (ucast q) (demo_call q) (?r (ucast q))" for q
    using answered_first [OF demo_host_dgram [of q], of "demo_call q"] by (simp add: demo_call_def)
  have all: "all_answered demo_api_proto 1 2 0 ?ks [?r 0, ?r 1]" using one [of 0] one [of 1] by simp
  have marks: "sim_marks 5 ?ks [?r 0, ?r 1] = [(inet_ntoa 16777343, True), (inet_ntoa 16777343, False)]"
    by (simp add: sim_marks_def fails_def)
  show ?thesis
    using simulator_tallies [of 1 2 demo_api_proto demo_aton "[?r 0, ?r 1]" "\<lparr>seqid = 0, api_sent = []\<rparr>" ?ks 2 5] all
    by (auto simp: marks tally_def in_int_def small_requests_def reads_addresses_def demo_aton_def demo_api_proto_def)
qed

lemma overload_blames_last_host_witness:
  "\<exists>q'. test_qps_round demo_aton demo_overload 1 2 (demo_call 7) 0
       \<lparr>qt_host = (inet_ntoa 16777343, Some 80), qt_api = \<lparr>seqid = 7, api_sent = []\<rparr>, qt_qps = 0, qt_last = 0, qt_total = 0, qt_secs = 0, qt_lines = []\<rparr> = Inr q' \<and>
     api_sent (qt_api q') = [request_dgram demo_overload 0 1 2 7, report_dgram demo_overload 0 1 2 1 (16777343, 80)]"
proof -
  let ?q = "\<lparr>qt_host = (inet_ntoa 16777343, Some 80), qt_api = \<lparr>seqid = 7, api_sent = []\<rparr>, qt_qps = 0, qt_last = 0, qt_total = 0, qt_secs = 0, qt_lines = []\<rparr> :: qps_thread"
  let ?r = "\<lparr>hr_seq = 7, hr_modid = 1, hr_cmdid = 2, hr_retcode = RET_OVERLOAD, hr_host = (0, 0)\<rparr> :: get_host_response"
  have "host_dgram demo_api_proto (encode_msg (2, [7])) \<noteq> None" using demo_host_dgram [of 7] by simp
  then have "host_dgram demo_overload (encode_msg (2, [7])) = Some ?r"
    by (auto simp: host_dgram_def dgram_body_def demo_overload_def demo_api_proto_def split: option.splits if_splits)
  then have a: "answered demo_overload 1 2 7 (demo_call 7) ?r"
    using answered_first [of demo_overload "encode_msg (2, [7])" ?r "demo_call 7"] by (simp add: demo_call_def)
  have no: "demo_aton [] = None" by (simp add: demo_aton_def inet_ntoa_def le32_def)
  show ?thesis
    using overload_blames_last_host [of 1 2 demo_overload demo_aton 16777343 ?q "demo_call 7" ?r 80 0] a no
    by (auto simp: in_int_def small_requests_def demo_overload_def demo_api_proto_def demo_aton_def)
qed

end
