(* ===== verification/Test_Clients.thy ===== *)
theory Test_Clients
  imports Example_Base Dns_Server
begin

text \<open>
  The test clients of the two services: \<open>lars_dns/test/lars_dns_test.cpp\<close> asks the DNS service for one module and prints
  the answer, \<open>lars_reporters/test/reportClient.cpp\<close> sends one report. Protobuf is a parameter.
\<close>

section \<open>The programs\<close>

record dns_test =
  ask_bytes :: "i32 \<times> i32 \<Rightarrow> u8 list"
  read_answer :: "u8 list option \<Rightarrow> int \<Rightarrow> get_route_response"
  ID_Ask :: int
  ID_Answer :: int

text \<open>The client's state is what it has printed.\<close>

definition test_on_connection :: "dns_test \<Rightarrow> get_route_response list client \<Rightarrow> get_route_response list client res" where
  "test_on_connection tp c = rbind (client_send_message (ask_bytes tp (1, 2)) (ID_Ask tp) c) (\<lambda>(_, c1). Inr c1)"

definition test_deal_get_route ::
  "dns_test \<Rightarrow> u8 list option \<Rightarrow> int \<Rightarrow> get_route_response list client \<Rightarrow> get_route_response list client res" where
  "test_deal_get_route tp data len c = Inr (c\<lparr>c_app := c_app c @ [read_answer tp data len]\<rparr>)"

definition dns_test_env :: "dns_test \<Rightarrow> get_route_response list cli_env" where
  "dns_test_env tp =
     \<lparr>cli_start_cb = Some (test_on_connection tp), cli_close_cb = None,
      cli_router = snd (register_msg_router (ID_Answer tp) 0 0 msg_router_new),
      cli_msg_cb = (\<lambda>cb data len i u a c. test_deal_get_route tp data len c)\<rparr>"

definition dns_test_main ::
  "dns_test \<Rightarrow> int \<Rightarrow> conn_ret \<Rightarrow> int \<Rightarrow> pool_st \<Rightarrow> (get_route_response list cli_env \<times> get_route_response list client) res" where
  "dns_test_main tp sock conn so_error pool =
     rbind (tcp_client_new \<lparr>cli_start_cb = None, cli_close_cb = None, cli_router = msg_router_new, cli_msg_cb = cli_msg_cb (dns_test_env tp)\<rparr>
              sock conn so_error pool event_loop_new []) (\<lambda>c. Inr (dns_test_env tp, c))"

text \<open>The report: three hosts, at the time \<open>now\<close>.\<close>

definition test_status :: "int \<Rightarrow> status_request" where
  "test_status now =
     \<lparr>sr_modid = 1, sr_cmdid = 1, sr_ts = word_of_int now, sr_caller = 888,
      sr_results = map (\<lambda>i. \<lparr>cr_ip = word_of_nat (i + 1), cr_port = word_of_nat (i + 100), cr_succ = 100, cr_err = 3, cr_overload = True\<rparr>)
        [0..<3]\<rparr>"

definition report_host_status :: "(status_request \<Rightarrow> u8 list) \<Rightarrow> int \<Rightarrow> int \<Rightarrow> unit client \<Rightarrow> unit client res" where
  "report_host_status enc id_request now c = rbind (client_send_message (enc (test_status now)) id_request c) (\<lambda>(_, c1). Inr c1)"

definition report_client_main ::
  "(status_request \<Rightarrow> u8 list) \<Rightarrow> int \<Rightarrow> int \<Rightarrow> int \<Rightarrow> conn_ret \<Rightarrow> int \<Rightarrow> pool_st \<Rightarrow> (unit cli_env \<times> unit client) res" where
  "report_client_main enc id_request now sock conn so_error pool =
     (let none = \<lparr>cli_start_cb = None, cli_close_cb = None, cli_router = msg_router_new, cli_msg_cb = (\<lambda>cb data len i u a c. Inr c)\<rparr>
      in rbind (tcp_client_new none sock conn so_error pool event_loop_new ()) (\<lambda>c.
           Inr (none\<lparr>cli_start_cb := Some (report_host_status enc id_request now)\<rparr>, c)))"

section \<open>Lemmas\<close>

text \<open>What a request does to the subscriptions.\<close>

definition noted :: "u64 \<Rightarrow> int \<Rightarrow> addr \<Rightarrow> dns_app \<Rightarrow> dns_app" where
  "noted m fd c d =
     (case sub_lists d c of
        None \<Rightarrow> d
      | Some sl \<Rightarrow> if m \<in> set sl then d else subcribe m fd (d\<lparr>sub_lists := (sub_lists d)(c \<mapsto> set_insert m sl)\<rparr>))"

lemma get_route_noted:
  assumes "parse_request pb data len = (modid, cmdid)"
  shows "get_route pb data len c n =
    rbind (send_message c (response_bytes pb (make_response modid cmdid (the_route (app n)))) (ID_GetRouteResponse pb)
      (upd_app (noted (mk_key modid cmdid) (connfd (tcps n c)) c) n)) (\<lambda>(_, n1). Inr n1)"
proof -
  have "(case sub_lists (app n) c of None \<Rightarrow> n
      | Some sub_list \<Rightarrow> if mk_key modid cmdid \<in> set sub_list then n
          else upd_app (\<lambda>d. subcribe (mk_key modid cmdid) (connfd (tcps n c)) (d\<lparr>sub_lists := (sub_lists d)(c \<mapsto> set_insert (mk_key modid cmdid) sub_list)\<rparr>)) n) =
      upd_app (noted (mk_key modid cmdid) (connfd (tcps n c)) c) n"
    by (auto simp: noted_def upd_app_def split: option.split)
  moreover have "the_route (noted m fd c d) = the_route d" for m fd d by (auto simp: noted_def subcribe_def split: option.split)
  ultimately show ?thesis using assms by (simp add: get_route_def Let_def)
qed

text \<open>The service, reading the last bytes of a request.\<close>

lemma dns_answers:
  fixes n :: dns
  assumes ok: "conn_ok c n ds []" and bs: "bs \<noteq> []" "ds @ bs = encode_msg (ID_GetRouteRequest pb, body)"
    and msg: "in_int (ID_GetRouteRequest pb)" "body \<noteq> []" "length body \<le> 65527"
    and req: "parse_request pb (Some body) (int (length body)) = (modid, cmdid)"
    and rsp: "length (response_bytes pb (make_response modid cmdid (the_route (app n)))) \<le> 65527"
    and run: "do_read (dns_env pb) c (Some (int (length bs))) [Rd bs] n = Inr n'"
  shows "conn_ok c n' [] (encode_msg (ID_GetRouteResponse pb, response_bytes pb (make_response modid cmdid (the_route (app n))))) \<and>
    app n' = noted (mk_key modid cmdid) (connfd (tcps n c)) c (app n)"
proof -
  let ?m = "(ID_GetRouteRequest pb, body)" let ?data = "response_bytes pb (make_response modid cmdid (the_route (app n)))"
  let ?arm = "\<lambda>m. upd_loop (conn_loop (tcps m c)) (add_io_event True (connfd (tcps m c)) conn_wt_callback EPOLLOUT (Some c)) m"
  let ?g = "\<lambda>v. upd_app (noted (mk_key modid cmdid) (connfd (tcps n c)) c) v"
  have m: "msg_ok ?m" "snd ?m \<noteq> []" using msg by (simp_all add: msg_ok_def MESSAGE_LENGTH_LIMIT_def MESSAGE_HEAD_LEN_def)
  have app: "app (put_ibuf c p s v) = app v" "app (put_obuf c p s v) = app v" for p s and v :: dns
    by (simp_all add: put_ibuf_def put_obuf_def upd_conn_def)
  have call: "\<exists>r. send_framed (obuf_of c) net_pool (put_obuf c) ?arm ?data (ID_GetRouteResponse pb) (?g (put_ibuf c p s n)) = Inr (r, x)"
    if "conn_msg_call (dns_env pb) c (fst ?m) (int (length (snd ?m))) (Some (snd ?m)) (put_ibuf c p s n) = Inr x" for p s x
  proof -
    have "get_route pb (Some body) (int (length body)) c (put_ibuf c p s n) = Inr x"
      using that by (simp add: conn_msg_call_def dns_env_def router_call_def register_msg_router_def msg_router_new_def)
    then show ?thesis unfolding get_route_noted [OF req] by (auto simp: send_message_def app rbind_eq_Inr)
  qed
  have "length (ds @ bs) = 8 + length body" using bs(2) by simp
  then have small: "length (ds @ bs) \<le> 8388608" "length ([] :: u8 list) + 8 + length ?data \<le> 8388608" using msg(3) rsp by simp_all
  have run': "read_frames (Suc 1048575) (ibuf_of c) net_pool (put_ibuf c) (conn_msg_call (dns_env pb) c) (clean_conn (dns_env pb) c)
      (Some (int (length bs))) [Rd bs] n = Inr n'" using run unfolding do_read_def by (simp add: max_frames_def)
  note reply = sp.pair_read_reply [where g = ?g and view = app and arm = ?arm, OF ok [folded sp_pair_ok] bs(1,2) m small call
        _ _ _ _ _ _ _ _ _ _ run']
  have "sp.pair_ok c n' [] ([] @ encode_msg (ID_GetRouteResponse pb, ?data)) \<and> app n' = app (?g n) \<and>
      (\<exists>p s x. conn_msg_call (dns_env pb) c (fst ?m) (int (length (snd ?m))) (Some (snd ?m)) (put_ibuf c p s n) = Inr x)"
    by (rule reply) (simp_all add: obuf_of_def ibuf_of_def app)
  then show ?thesis by (simp add: sp_pair_ok)
qed

text \<open>The client, reading the last bytes of an answer.\<close>

lemma test_reads_answer:
  assumes ok: "cp.pair_ok cl dc []" and bs: "bs \<noteq> []" "dc @ bs = encode_msg (ID_Answer tp, body)"
    and msg: "in_int (ID_Answer tp)" "body \<noteq> []" "length body \<le> 65527"
    and res: "reserve (int (length bs)) (c_ibuf cl) (c_pool cl) = Inr (True, q, s1)"
  shows "\<exists>cl'. client_do_read (dns_test_env tp) (Some (int (length bs))) [Rd bs] cl = Inr cl' \<and>
    c_app cl' = c_app cl @ [read_answer tp (Some body) (int (length body))] \<and> cp.pair_ok cl' [] []"
proof -
  let ?m = "(ID_Answer tp, body)" let ?env = "dns_test_env tp"
  have m: "msg_ok ?m" "snd ?m \<noteq> []" using msg by (simp_all add: msg_ok_def MESSAGE_LENGTH_LIMIT_def MESSAGE_HEAD_LEN_def)
  note h = cp.pair_holds [OF ok]
  have call: "client_msg_call ?env (fst ?m) (int (length (snd ?m))) (Some (snd ?m)) v =
      Inr (v\<lparr>c_app := c_app v @ [read_answer tp (Some body) (int (length body))]\<rparr>)" for v
    by (simp add: client_msg_call_def dns_test_env_def router_call_def register_msg_router_def msg_router_new_def test_deal_get_route_def)
  obtain p s where ps: "pool_inv s" "rb_holds s p body" "others_kept (c_pool cl) (c_ibuf cl) s p"
    and yes: "\<forall>x. client_msg_call ?env (fst ?m) (int (length (snd ?m))) (Some (snd ?m)) (c_put_ibuf p s cl) = Inr x \<longrightarrow>
        ci.holds x (snd ?m) \<longrightarrow> c_ibuf x = p \<longrightarrow>
        (\<exists>s2. read_frames (Suc 1048575) c_ibuf c_pool c_put_ibuf (client_msg_call ?env) (client_clean_conn ?env)
          (Some (int (length bs))) [Rd bs] cl = Inr (c_put_ibuf NULL s2 x) \<and> pool_inv s2 \<and> others_kept (c_pool x) p s2 NULL)"
    using ci.read_frames_one [OF h(1,3) res bs(1,2) m, of 1048575 "client_msg_call ?env" "client_clean_conn ?env"]
    unfolding Let_def snd_conv by blast
  let ?v = "(c_put_ibuf p s cl)\<lparr>c_app := c_app (c_put_ibuf p s cl) @ [read_answer tp (Some body) (int (length body))]\<rparr>"
  have v: "c_pool ?v = s" "c_ibuf ?v = p" by (simp_all add: c_put_ibuf_def)
  then have "ci.holds ?v body" using ps(1,2) by (simp add: ci.holds_def)
  with yes [rule_format, OF call] v obtain s2 where
    s2: "client_do_read ?env (Some (int (length bs))) [Rd bs] cl = Inr (c_put_ibuf NULL s2 ?v)" "pool_inv s2" "others_kept s p s2 NULL"
    by (auto simp: client_do_read_def max_frames_def)
  have "cp.pair_ok (c_put_ibuf NULL s2 cl) [] []"
    by (rule cp.pair_put_i [OF ok others_kept_trans [OF ps(3) s2(3)] s2(2)]) simp_all
  moreover have "cp.pair_ok (c_put_ibuf NULL s2 ?v) d e = cp.pair_ok (c_put_ibuf NULL s2 cl) d e" for d e
    by (simp add: cp.pair_ok_def c_put_ibuf_def)
  ultimately show ?thesis using s2(1) by (simp add: c_put_ibuf_def)
qed

section \<open>The property\<close>

text \<open>Both programs use the same messages, and protobuf reads what it has written.\<close>

definition speaks :: "dns_test \<Rightarrow> dns_proto \<Rightarrow> get_route_response \<Rightarrow> bool" where
  "speaks tp pb r \<longleftrightarrow>
     ID_Ask tp = ID_GetRouteRequest pb \<and> ID_Answer tp = ID_GetRouteResponse pb \<and> in_int (ID_Ask tp) \<and> in_int (ID_Answer tp) \<and>
     (let b = ask_bytes tp (1, 2) in b \<noteq> [] \<and> length b \<le> 65527 \<and> parse_request pb (Some b) (int (length b)) = (1, 2)) \<and>
     (let b = response_bytes pb r in b \<noteq> [] \<and> length b \<le> 65527 \<and> read_answer tp (Some b) (int (length b)) = r)"

text \<open>
  C10: a question and its answer, over the wire. The test client's hook asks; the bytes that its buffer gives up are
  read by the DNS service, whose answer is read by the client: it prints module 1/2 with exactly the hosts of the
  service's table, the service has the connection down as a subscriber of 1/2, and no byte is left unread or unsent on
  either side.
\<close>

theorem dns_query_roundtrip:
  assumes "speaks tp pb (make_response 1 2 (the_route (app n)))" and "cp.pair_ok cl [] []" and "conn_ok c n [] []"
    and "test_on_connection tp cl = Inr cl1" and "co.holds cl1 ask"
    and "client_do_write (dns_test_env tp) (took (length ask) ask) cl1 = Inr cl2"
    and "do_read (dns_env pb) c (Some (int (length ask))) [Rd ask] n = Inr n1" and "ob.holds c n1 answer"
    and "do_write (dns_env pb) c (took (length answer) answer) n1 = Inr n2"
    and "client_do_read (dns_test_env tp) (Some (int (length answer))) [Rd answer] cl2 = Inr cl3"
  shows "c_app cl3 = c_app cl @ [make_response 1 2 (the_route (app n))] \<and>
    (sub_lists (app n) c = Some [] \<longrightarrow> connfd (tcps n c) \<in> subscribers (app n1) (mk_key 1 2)) \<and>
    cp.pair_ok cl3 [] [] \<and> conn_ok c n2 [] []"
proof -
  note sp = assms(1) [unfolded speaks_def Let_def]
  let ?arm = "\<lambda>c :: get_route_response list client. c_upd_loop (add_io_event True (c_sockfd c) write_callback EPOLLOUT (Some 0)) c"
  let ?r = "make_response 1 2 (the_route (app n))"
  obtain r where r: "send_framed c_obuf c_pool c_put_obuf ?arm (ask_bytes tp (1, 2)) (ID_Ask tp) cl = Inr (r, cl1)"
    using assms(4) by (auto simp: test_on_connection_def client_send_message_def rbind_eq_Inr)
  have "length ([] :: u8 list) + 8 + length (ask_bytes tp (1, 2)) \<le> 8388608" using sp by simp
  from cp.pair_send [OF assms(2) r this] obtain p t
    where cl1: "cl1 = ?arm (c_put_obuf p t cl)" "cp.pair_ok cl1 [] (encode_msg (ID_Ask tp, ask_bytes tp (1, 2)))" by auto
  have ask: "ask = encode_msg (ID_Ask tp, ask_bytes tp (1, 2))"
    using assms(5) cl1(2) by (auto simp: cp.pair_ok_def co.holds_def dest: rb_holds_unique)
  have len: "0 < length ask" "ask \<noteq> []" using encode_msg_nonempty unfolding ask by auto
  have cl2: "cp.pair_ok cl2 [] []" "c_app cl2 = c_app cl"
    using client_write_took [OF cl1(2) len(1) [unfolded ask] order_refl, of "dns_test_env tp"] assms(6) cl1(1)
    unfolding ask by (auto simp: c_upd_loop_def c_put_obuf_def)
  have n1: "conn_ok c n1 [] (encode_msg (ID_Answer tp, response_bytes pb ?r))"
      "app n1 = noted (mk_key 1 2) (connfd (tcps n c)) c (app n)"
    using dns_answers [OF assms(3) len(2) _ _ _ _ _ _ assms(7), of "ask_bytes tp (1, 2)" 1 2] sp unfolding ask by auto
  have answer: "answer = encode_msg (ID_Answer tp, response_bytes pb ?r)"
    using assms(8) n1(1) by (auto simp: conn_ok_def ob.holds_def dest: rb_holds_unique)
  have alen: "0 < length answer" "answer \<noteq> []" using encode_msg_nonempty unfolding answer by auto
  have n2: "conn_ok c n2 [] []"
    using srv_write_took [OF n1(1) alen(1) [unfolded answer] order_refl, of "dns_env pb"] assms(9) unfolding answer by auto
  obtain q s1 where res: "reserve (int (length answer)) (c_ibuf cl2) (c_pool cl2) = Inr (True, q, s1)"
    using ci.read_reserved [OF cp.pair_holds(1,3) [OF cl2(1)] assms(10) [unfolded client_do_read_def]] sp answer by auto
  have "c_app cl3 = c_app cl @ [?r]" "cp.pair_ok cl3 [] []"
    using test_reads_answer [OF cl2(1) alen(2) _ _ _ _ res, of tp "response_bytes pb ?r"] assms(10) cl2(2) sp answer by auto
  moreover have "connfd (tcps n c) \<in> subscribers (app n1) (mk_key 1 2)" if "sub_lists (app n) c = Some []"
    using that by (auto simp: n1(2) noted_def subcribe_def subscribers_def map_set_insert_def split: option.split)
  ultimately show ?thesis using n2 by blast
qed

section \<open>An instance\<close>

text \<open>A pool with one buffer that is held and empty, so that both ends can go on working in it.\<close>

definition empty_held :: pool_st where
  "empty_held = (case send_data [] NULL drained_pool of Inr (_, _, s) \<Rightarrow> s | Inl _ \<Rightarrow> drained_pool)"

lemma empty_held_send: "send_data [] NULL drained_pool = Inr (0, Ptr 0, empty_held)"
proof -
  have "\<exists>s. send_data [] NULL drained_pool = Inr (0, Ptr 0, s)"
    by (simp add: pool_eval)
  then show ?thesis by (auto simp: empty_held_def)
qed

lemma empty_held_ok: "pool_inv empty_held" "rb_holds empty_held (Ptr 0) []" "rb_ready empty_held (Ptr 0)"
  using send_data_ok [OF drained_pool_inv _ _ empty_held_send, of "[]"] by simp_all

lemma empty_held_alloc: "k \<le> 4096 \<Longrightarrow> \<exists>s1. reserve k NULL empty_held = Inr (True, Ptr 1, s1)"
  by (simp add: empty_held_def pool_eval)

lemma reserve_empty:
  assumes "pool_inv s" "rb_holds s (Ptr a) []" "rb_ready s (Ptr a)" "k \<le> 4096"
  shows "reserve k (Ptr a) s = Inr (True, Ptr a, s)"
proof -
  obtain b where b: "bufs s a = Some b" "content b = []" "\<not> is_free s a" using assms(2) by (auto simp: rb_holds_Ptr)
  then have "wf_buf b" "capacity b \<in> set mem_caps" using pool_inv_buf [OF assms(1)] by (auto simp: held_bufs)
  then have "buf_len b = int (length (content b))" "4096 \<le> capacity b" by (auto simp: wf_buf_def mem_caps_def)
  then show ?thesis using assms(3,4) b(1,2) by (simp add: reserve_def reserve_with_def rb_ready_def)
qed

lemma send_small:
  assumes "pool_inv (net_pool n)" "rb_holds (net_pool n) (obuf_of c n) []" "rb_ready (net_pool n) (obuf_of c n)"
    and "obuf_of c n = Ptr a" "length data \<le> 4000"
  shows "\<exists>n'. send_message c data i n = Inr (0, n')"
proof -
  let ?h = "encode_head \<lparr>msgid = i, msglen = int (length data)\<rparr>"
  obtain s1 where s1: "send_data ?h (Ptr a) (net_pool n) = Inr (0, Ptr a, s1)"
    using send_data_small [of "net_pool n" a "[]" ?h] assms by auto
  obtain s2 where s2: "send_data data (Ptr a) s1 = Inr (0, Ptr a, s2)"
    using send_data_ok [OF assms(1-3) s1 [folded assms(4)]] send_data_small [of s1 a ?h data] assms(4,5) by auto
  have "rb_length (obuf_of c n) (net_pool n) = Inr 0" using rb_length_ok [OF assms(2,1)] by simp
  moreover have "obuf_of c (put_obuf c p s m) = p" "net_pool (put_obuf c p s m) = s" for p s and m :: "'a net"
    by (simp_all add: obuf_of_def)
  ultimately show ?thesis using s1 s2 assms(4) by (simp add: send_message_def send_framed_def Let_def)
qed

definition demo_srv :: dns where
  "demo_srv = demo_dns\<lparr>net_pool := empty_held, app := demo_app\<lparr>sub_lists := [0 \<mapsto> []]\<rparr>\<rparr>"

definition demo_asker :: "get_route_response list client" where
  "demo_asker = \<lparr>c_pool = empty_held, c_loop = event_loop_new, c_sockfd = 6, c_ibuf = Ptr 0, c_obuf = NULL, c_closed = [], c_app = []\<rparr>"

definition demo_test :: dns_test where
  "demo_test = \<lparr>ask_bytes = (\<lambda>_. [7]), read_answer = (\<lambda>data len. make_response 1 2 (the_route demo_app)),
     ID_Ask = ID_GetRouteRequest demo_proto, ID_Answer = ID_GetRouteResponse demo_proto\<rparr>"

lemma demo_srv_ok: "conn_ok 0 demo_srv [] []" "obuf_of 0 demo_srv = Ptr 0" "ibuf_of 0 demo_srv = NULL" "net_pool demo_srv = empty_held"
proof -
  have o: "obuf_of 0 demo_srv = Ptr 0" "ibuf_of 0 demo_srv = NULL" 
    using demo_dns_simps(2,3) by (simp_all add: demo_srv_def obuf_of_def ibuf_of_def)
  then show "conn_ok 0 demo_srv [] []" "obuf_of 0 demo_srv = Ptr 0" "ibuf_of 0 demo_srv = NULL" "net_pool demo_srv = empty_held"
    using empty_held_ok by (auto simp: conn_ok_def demo_srv_def)
qed

lemma demo_speaks: "speaks demo_test demo_proto (make_response 1 2 (the_route (app demo_srv)))"
  by (simp add: speaks_def demo_test_def demo_proto_def demo_srv_def Let_def in_int_def)

text \<open>The service answers the question of module 1/2.\<close>

lemma demo_srv_reads: "\<exists>n1. do_read (dns_env demo_proto) 0 (Some 9) [Rd (encode_msg (ID_GetRouteRequest demo_proto, [7]))] demo_srv = Inr n1"
proof -
  let ?m = "(ID_GetRouteRequest demo_proto, [7 :: u8])" let ?env = "dns_env demo_proto"
  have m: "[] @ encode_msg ?m = encode_msg ?m" "msg_ok ?m" "snd ?m \<noteq> []" "int (length (encode_msg ?m)) = 9"
    by (simp_all add: msg_ok_def in_int_def demo_proto_def MESSAGE_LENGTH_LIMIT_def MESSAGE_HEAD_LEN_def)
  note h = sp.pair_holds [OF demo_srv_ok(1) [folded sp_pair_ok]]
  obtain s1 where res: "reserve (int (length (encode_msg ?m))) (ibuf_of 0 demo_srv) (net_pool demo_srv) = Inr (True, Ptr 1, s1)"
    using empty_held_alloc [of 9] m(4) by (auto simp: demo_srv_ok)
  obtain p s where ps: "pool_inv s" "rb_holds s p (snd ?m)" "others_kept (net_pool demo_srv) (ibuf_of 0 demo_srv) s p"
    and yes: "\<forall>x. conn_msg_call ?env 0 (fst ?m) (int (length (snd ?m))) (Some (snd ?m)) (put_ibuf 0 p s demo_srv) = Inr x \<longrightarrow>
        ib.holds 0 x (snd ?m) \<longrightarrow> ibuf_of 0 x = p \<longrightarrow>
        (\<exists>s2. read_frames (Suc 1048575) (ibuf_of 0) net_pool (put_ibuf 0) (conn_msg_call ?env 0) (clean_conn ?env 0)
          (Some (int (length (encode_msg ?m)))) [Rd (encode_msg ?m)] demo_srv = Inr (put_ibuf 0 NULL s2 x) \<and> pool_inv s2 \<and>
          others_kept (net_pool x) p s2 NULL)"
    using ib.read_frames_one [OF h(1,3) res encode_msg_nonempty m(1-3), of 1048575 "conn_msg_call ?env 0" "clean_conn ?env 0"]
    unfolding Let_def snd_conv by blast
  let ?v = "put_ibuf 0 p s demo_srv"
  note o = sp.pair_other_i [OF demo_srv_ok(1) [folded sp_pair_ok] ps(3)]
  have v: "pool_inv (net_pool ?v)" "rb_holds (net_pool ?v) (obuf_of 0 ?v) []" "rb_ready (net_pool ?v) (obuf_of 0 ?v)" "obuf_of 0 ?v = Ptr 0"
    using ps(1) o demo_srv_ok(2) by (simp_all add: obuf_of_def)
  let ?w = "upd_app (noted (mk_key 1 2) (connfd (tcps ?v 0)) 0) ?v"
  have w: "net_pool ?w = s" "obuf_of 0 ?w = Ptr 0" "ibuf_of 0 ?w = p" using v(4) by (simp_all add: obuf_of_def ibuf_of_def)
  let ?data = "response_bytes demo_proto (make_response 1 2 (the_route (app ?v)))"
  have "length ?data \<le> 4000" by (simp add: demo_proto_def)
  then obtain n' where n': "send_message 0 ?data (ID_GetRouteResponse demo_proto) ?w = Inr (0, n')"
    using send_small [of ?w 0 0] v w by auto
  have ho: "ob.holds 0 ?w []" "rb_ready (net_pool ?w) (obuf_of 0 ?w)" using v w by (simp_all add: ob.holds_def)
  obtain p2 s2 where n2: "pool_inv s2" "others_kept s (Ptr 0) s2 p2" "net_pool n' = s2" "ibuf_of 0 n' = p"
    using ob.send_framed_ok [OF ho n' [unfolded send_message_def]] w by (auto simp: ibuf_of_def)
  have "p \<noteq> Ptr 0" using o(3) demo_srv_ok(2) by auto
  then have "ib.holds 0 n' (snd ?m)" using rb_holds_other [OF n2(2) ps(2)] n2 by (simp add: ib.holds_def)
  moreover have "parse_request demo_proto (Some [7]) 1 = (1, 2)" by (simp add: demo_proto_def)
  then have "conn_msg_call ?env 0 (fst ?m) (int (length (snd ?m))) (Some (snd ?m)) ?v = Inr n'"
    using n' get_route_noted [of demo_proto "Some [7]" 1 1 2 0 ?v]
    by (simp add: conn_msg_call_def dns_env_def router_call_def register_msg_router_def msg_router_new_def)
  ultimately show ?thesis using yes n2(4) m(4) by (auto simp: do_read_def max_frames_def)
qed

lemma dns_query_roundtrip_witness:
  "\<exists>cl1 cl2 cl3 n1 n2 ask answer. test_on_connection demo_test demo_asker = Inr cl1 \<and> co.holds cl1 ask \<and>
     client_do_write (dns_test_env demo_test) (took (length ask) ask) cl1 = Inr cl2 \<and>
     do_read (dns_env demo_proto) 0 (Some (int (length ask))) [Rd ask] demo_srv = Inr n1 \<and> ob.holds 0 n1 answer \<and>
     do_write (dns_env demo_proto) 0 (took (length answer) answer) n1 = Inr n2 \<and>
     client_do_read (dns_test_env demo_test) (Some (int (length answer))) [Rd answer] cl2 = Inr cl3 \<and>
     c_app cl3 = [make_response 1 2 (the_route demo_app)] \<and> cp.pair_ok cl3 [] [] \<and> conn_ok 0 n2 [] [] \<and> 5 \<in> subscribers (app n1) (mk_key 1 2)"
proof -
  let ?r = "make_response 1 2 (the_route (app demo_srv))"
  let ?ask = "encode_msg (ID_GetRouteRequest demo_proto, [7])" let ?answer = "encode_msg (ID_GetRouteResponse demo_proto, response_bytes demo_proto ?r)"
  let ?arm = "\<lambda>c :: get_route_response list client. c_upd_loop (add_io_event True (c_sockfd c) write_callback EPOLLOUT (Some 0)) c"
  have cl: "cp.pair_ok demo_asker [] []" using empty_held_ok by (simp add: cp.pair_ok_def demo_asker_def)
  obtain n1 where n1: "do_read (dns_env demo_proto) 0 (Some (int (length ?ask))) [Rd ?ask] demo_srv = Inr n1"
    using demo_srv_reads by auto
  have a1: "conn_ok 0 n1 [] ?answer"
    using dns_answers [OF demo_srv_ok(1) encode_msg_nonempty _ _ _ _ _ _ n1, of "[7]" 1 2] by (simp add: demo_proto_def in_int_def)
  then have a2: "ob.holds 0 n1 ?answer" by (simp add: conn_ok_def ob.holds_def)
  have ne: "length ?ask \<noteq> 0" "length ?answer \<noteq> 0" using encode_msg_nonempty by auto
  obtain n2 where n2: "do_write (dns_env demo_proto) 0 (took (length ?answer) ?answer) n1 = Inr n2"
    using srv_write_took [OF a1, of "length ?answer"] ne by auto
  let ?h = "encode_head \<lparr>msgid = ID_GetRouteRequest demo_proto, msglen = 1\<rparr>"
  have c: "c_obuf demo_asker = NULL" "c_pool demo_asker = empty_held" "c_ibuf demo_asker = Ptr 0" "c_app demo_asker = []"
    by (simp_all add: demo_asker_def)
  obtain s1 where s1: "send_data ?h NULL empty_held = Inr (0, Ptr 1, s1)"
    using send_data_first [OF empty_held_ok(1), of ?h] empty_held_alloc [of 8] by fastforce
  obtain s2 where s2: "send_data [7] (Ptr 1) s1 = Inr (0, Ptr 1, s2)"
    using send_data_ok [OF empty_held_ok(1) _ _ s1, of "[]"] send_data_small [of s1 1 ?h "[7]"] by auto
  obtain cl1 where sent: "client_send_message [7] (ID_GetRouteRequest demo_proto) demo_asker = Inr (0, cl1)"
    using c s1 s2 by (simp add: client_send_message_def send_framed_def rb_length_def Let_def)
  obtain p t where cl1: "cl1 = ?arm (c_put_obuf p t demo_asker)" "cp.pair_ok cl1 [] ?ask"
    using cp.pair_send [OF cl sent [unfolded client_send_message_def]] by auto
  obtain cl2 where cl2: "client_do_write (dns_test_env demo_test) (took (length ?ask) ?ask) cl1 = Inr cl2" "cp.pair_ok cl2 [] []"
      "c_app cl2 = []" "c_ibuf cl2 = Ptr 0"
    using client_write_took [OF cl1(2), of "length ?ask" "dns_test_env demo_test"] ne c cl1(1)
    by (auto simp: c_upd_loop_def c_put_obuf_def)
  have "int (length ?answer) \<le> 4096" by (simp add: demo_proto_def)
  then have "reserve (int (length ?answer)) (c_ibuf cl2) (c_pool cl2) = Inr (True, Ptr 0, c_pool cl2)"
    using reserve_empty [of "c_pool cl2" 0] cl2(2,4) by (simp add: cp.pair_ok_def)
  from test_reads_answer [OF cl2(2) encode_msg_nonempty _ _ _ _ this, of demo_test "response_bytes demo_proto ?r"]
  obtain cl3 where cl3: "client_do_read (dns_test_env demo_test) (Some (int (length ?answer))) [Rd ?answer] cl2 = Inr cl3"
    by (auto simp: demo_test_def demo_proto_def in_int_def)
  have on: "test_on_connection demo_test demo_asker = Inr cl1" using sent by (simp add: test_on_connection_def demo_test_def)
  have h: "co.holds cl1 ?ask" using cl1(2) by (simp add: cp.pair_ok_def co.holds_def)
  have sub: "sub_lists (app demo_srv) 0 = Some []" "connfd (tcps demo_srv 0) = 5" "the_route (app demo_srv) = the_route demo_app"
    using demo_dns_simps by (simp_all add: demo_srv_def)
  show ?thesis
    using dns_query_roundtrip [OF demo_speaks cl demo_srv_ok(1) on h cl2(1) n1 a2 n2 cl3] on h cl2(1) n1 a2 n2 cl3 c(4) sub
    by (intro exI [of _ cl1] exI [of _ cl2] exI [of _ cl3] exI [of _ n1] exI [of _ n2] exI [of _ ?ask] exI [of _ ?answer]) simp
qed

end
