(* ===== verification/Spec2Isabelle.thy ===== *)
theory Spec2Isabelle
  imports Route_Push Tcp_Stream Balance_Churn Conn_Fds Start_Up Balance_Fair Agent_Main Qps_Example Example_Server Api_Examples Test_Clients
begin

text \<open>
  A model of \<open>lars\<close> (\<open>src/lars\<close>), a load-balancing service in C++ on its own reactor library, with the
  theorems that describe what its parts do.

  \<^bold>\<open>The program.\<close> \<open>lars_reactors\<close> is the network library: a pool of byte buffers, an epoll event loop, TCP
  connections that cut the stream into messages, a TCP server that spreads connections over a thread pool,
  a TCP client, UDP endpoints and a configuration file. Three services are built on it.
  \<open>lars_dns\<close> holds the routes (which hosts serve module \<open>modid/cmdid\<close>), answers requests for them and
  pushes changes to the subscribers. \<open>lars_lb_agent\<close> runs beside each application: it asks the DNS service for
  routes, chooses a host per call, and learns from the reported results which hosts are overloaded.
  \<open>lars_reporters\<close> stores the agents' statistics in a table. Applications talk to the agent over UDP through
  \<open>api/cpp/lars_api\<close>.

  \<^bold>\<open>Conventions.\<close> A run that does not return normally is a value of \<open>fault\<close> (\<open>Lars_Base\<close>): undefined behaviour of
  C++ (\<open>NullDeref\<close>, \<open>UseAfterFree\<close>, \<open>UninitRead\<close>, \<open>OutOfBounds\<close>, \<open>SignedOverflow\<close>, \<open>EndIterator\<close>, \<open>EmptyFront\<close>), a
  failed \<open>assert\<close>, or \<open>exit\<close>; operations return \<open>fault + result\<close>. Pointers are \<open>ptr\<close> into explicit heaps
  wherever two owners can share an object (buffers, hosts, connections). Integers that are packed into keys or
  wrap are words; lengths, descriptors and times are \<open>int\<close>, with the check for signed overflow written out
  where a client can choose the operands. What the kernel returns (\<open>read\<close>, \<open>write\<close>, \<open>recvfrom\<close>,
  \<open>accept\<close>, \<open>connect\<close>, \<open>epoll_wait\<close>) is an argument of the operation that makes the call. Protobuf's
  encodings are parameters. A critical section under a mutex is one step; concurrent runs are interleavings
  of such steps.

  \<^bold>\<open>Buffers.\<close> \<open>Io_Buf\<close> models \<open>io_buf.cpp\<close>; \<open>Alloc_Interface\<close> states as the locale \<open>buf_allocator\<close> what the buffers of a
  connection rely on; \<open>Buf_Pool\<close> models \<open>buf_pool.cpp\<close> with its seven classes of linked free buffers and
  interprets the locale; \<open>Reactor_Buf\<close> models \<open>reactor_buf.cpp\<close> (\<open>reactor_buf\<close>, \<open>input_buf\<close>, \<open>output_buf\<close>) over any
  pool state. The lemmas show that allocation gives a fresh buffer that fits, that a connection's bytes are
  a queue (\<open>rb_holds\<close>), and where it goes wrong: the uninitialised link at the end of each free list, and a read
  of unannounced data past the end of a buffer.

  \<^bold>\<open>Event loop and threads.\<close> \<open>Event_Loop\<close> models \<open>event_loop.cpp\<close>: the table of events, \<open>listen_fds\<close>, the kernel's
  interest list, the batch of one \<open>epoll_wait\<close> and the ready tasks. \<open>event_process\<close> runs a given list of
  batches, as the C++ loop never ends; \<open>run_tasks\<close> has the \<open>vector\<close>'s capacity as fuel, because a task that adds
  tasks reallocates it. \<open>Thread_Queue\<close> models \<open>thread_queue.h\<close> and interprets the locale
  \<open>mailbox\<close>; its step relation shows first-in first-out under every interleaving.

  \<^bold>\<open>TCP.\<close> \<open>Message\<close> models \<open>message.h\<close> (header, router) and defines \<open>parse\<close>, the specification of the framing.
  \<open>Framed_Conn\<close> holds what \<open>tcp_conn.cpp\<close> and \<open>tcp_client.cpp\<close> have in common, proved once in the locale \<open>conn_buffer\<close>,
  which is interpreted for the input and the output buffer of either. \<open>Net_State\<close> is the state of
  a server (connections, loops, queues, application), \<open>Tcp_Conn\<close> models \<open>tcp_conn.cpp\<close>, \<open>Tcp_Server\<close> models
  \<open>tcp_server.cpp\<close> and \<open>thread_pool.cpp\<close>, \<open>Conn_Outputs\<close> follows what is sent on several connections at once,
  \<open>Tcp_Client\<close> models \<open>tcp_client.cpp\<close>. The framing loop has fuel \<open>max_frames = 1048576\<close>: every round takes at
  least the eight bytes of a header and no buffer holds more than 8 MiB, so the lemma \<open>length_parse\<close>
  shows it is enough for every buffer. \<open>do_read\<close> is shown to deliver exactly what \<open>parse\<close> finds; \<open>Tcp_Stream\<close> joins it with
  \<open>send_message\<close>: however the stream is cut, the messages sent are the messages handed over. \<open>Server_Inv\<close> states the invariant of a running server (\<open>net_inv\<close>: the counter, the table of connections, the
  buffers, the events of every loop) and shows that each operation keeps it on every outcome, errors included;
  \<open>Server_Run\<close> is the step relation of the server from its constructor on, over dispatched events, accepted connections,
  queued tasks and the application's work in any order, with any results of the kernel, and draws the
  consequences, one of which is that no buffer of the pool is lost: what is not free is the input or the output of a
  connection in the table. The application may send on the connection that is being made from its hook, and from its callbacks
  and tasks send on any connection of the table and give tasks to the threads: this is the locale \<open>server_app\<close>, which
  the DNS service, the example server and the throughput test interpret. \<open>Conn_Fds\<close> follows which descriptors have ever had a
  connection; an application that makes no connections of its own interprets its locale \<open>fds_app\<close>. Steps are whole operations: where the C++ code relies on a lock inside one, the model does too.

  \<^bold>\<open>UDP, configuration, API.\<close> \<open>Udp\<close> models \<open>udp_server.cpp\<close> and \<open>udp_client.cpp\<close>; the datagrams that arrive are a list.
  \<open>Config_File\<close> models \<open>config_file.cpp\<close> on the bytes of the file. \<open>Lars_Api\<close> models \<open>lars_api.cpp\<close>: the
  datagrams \<open>recvfrom\<close> returns are a list, and a run that would wait for more is \<open>Blocked\<close>.

  \<^bold>\<open>Services.\<close> \<open>Dns_Route\<close> models \<open>dns_route.cpp\<close> with its two tables, the rows of the database being values; \<open>Dns_Subscribe\<close>
  models \<open>subcribe.cpp\<close> and \<open>dns_service.cpp\<close>; \<open>Dns_Service\<close> is the step relation of the running service, with
  the invariant that ties the subscriptions to the live connections, what a push delivers, and what it loses.
  \<open>Host_Info\<close> models \<open>host_info.cpp\<close> and the comparison of rates with IEEE rounding; \<open>Load_Balance\<close> models
  \<open>load_balance1.cpp\<close> with its hosts on a heap, shown to implement a state machine per host (\<open>report_host\<close>) and
  a round robin with probes; \<open>Balance_Run\<close> runs it over choices, reports and route answers that leave out no host, in any order: a
  recovered host comes back, and an overloaded one gets only its share of the probes. \<open>Balance_Churn\<close> lets hosts leave, too, which
  \<open>update\<close> handles wrongly: a failing host that stays is still taken out of the rotation, unless the balancer stops at a dangling
  entry, and one that leaves is lost for good. \<open>Balance_Fair\<close> bounds how many choices pass before an overloaded host is probed.
  \<open>Agent\<close> models \<open>agent_udp_server.cpp\<close> and \<open>dns_client.cpp\<close>; its theorems join the API, the
  UDP servers, the DNS client and the queues; \<open>Route_Push\<close> follows a pushed change of routes through the DNS client into the
  agent's \<open>route_lb\<close>. \<open>Dns_Server\<close> shows that the DNS service is an application as \<open>Server_Run\<close> asks for, so its server is
  always in order. \<open>Reporter\<close> models \<open>reporter_service.cpp\<close>, \<open>store_report.cpp\<close> and \<open>store_thread.cpp\<close>, down to the upsert on the
  table, and follows a report from \<open>commit\<close> to its rows; \<open>Report_Limits\<close> shows what happens over many reports.

  \<^bold>\<open>Start.\<close> \<open>Agent_Start\<close> models \<open>init_lb_agent\<close> and \<open>Agent_Main\<close> the order of \<open>main\<close> (\<open>main_server.cpp\<close>), \<open>Start_Up\<close> the constructors that open sockets and connect to
  the database, and the \<open>main\<close> functions of the services up to their endless loops: what is listened at and
  connected to follows from the configuration file.

  \<^bold>\<open>Examples and tests.\<close> \<open>Conn_Pair\<close> joins the two buffers of a connection in a locale of its own and shows, for \<open>tcp_conn\<close> and
  \<open>tcp_client\<close> alike, what a read that completes a message, one that does not, an answer from a callback and a partial write do to
  both. On it rest \<open>Qps_Example\<close> (\<open>example/qps_test\<close>: both programs and the two byte streams between them, with a step relation that
  cuts the streams anywhere) and \<open>Test_Clients\<close> (\<open>lars_dns_test.cpp\<close> against the model of the DNS service, \<open>reportClient.cpp\<close>).
  \<open>Example_Server\<close> models \<open>example/server.cpp\<close> and \<open>client.cpp\<close> as an application of \<open>Server_Run\<close>, with what its
  task finds in the entries of \<open>conns\<close> that were never written, \<open>Api_Examples\<close> the five programs of
  \<open>api/cpp/example\<close> over \<open>Lars_Api\<close>, \<open>Example_Base\<close> what their \<open>main\<close> functions share. The endless loops of these programs are runs
  over as many rounds as are given.

  \<^bold>\<open>Not modelled.\<close> The class \<open>route_lb\<close> is only declared in the repository, so its methods are parameters of \<open>Agent\<close>.
  The conversions between \<open>float\<close> and text in \<open>config_file::GetFloat\<close>, \<open>inet_aton\<close>, protobuf and MySQL are parameters. Signals, socket
  options and freeing memory at the end of the process have no state of the program behind them, nor has what is only printed.
  \<open>publish_change_mod_test\<close> (a thread for tests that nothing starts), \<open>event_loop2.cpp\<close> and the copies of
  \<open>reporter_service.cpp\<close> and of \<open>reportClient.cpp\<close> are left out; so are the generated protobuf files. \<open>1.cpp\<close> and \<open>2.cpp\<close> of the agent are not code.
\<close>

section \<open>A change of routes reaches the agent\<close>


text \<open>
  The witness: the agent has read the first eight bytes of an answer, the other three are still in the output of the
  DNS service when the change is pushed.
\<close>

definition demo_push_proto :: agent_proto where
  "demo_push_proto = demo_agent_proto\<lparr>parse_dns_rsp := (\<lambda>b n. \<lparr>rr_modid = 1, rr_cmdid = 2, rr_hosts = [(7, 80)]\<rparr>)\<rparr>"

lemma demo_push_proto_simps [simp]:
  "dns_answer demo_push_proto b = \<lparr>rr_modid = 1, rr_cmdid = 2, rr_hosts = [(7, 80)]\<rparr>"
  "DNS_GetRouteResponse demo_push_proto = 2"
  by (simp_all add: dns_answer_def demo_push_proto_def demo_agent_proto_def)



end
